(* ===== verification/Prelude.thy ===== *)
theory Prelude
  imports Main "HOL-Library.Word" "HOL-Library.Product_Lexorder" "HOL-Library.Multiset"
begin

text \<open>
  What the components share.

  \<^item> Machine integers. A \<open>uint64_t\<close> or \<open>uint32_t\<close> that is only compared, counted up
    or stored is a \<open>nat\<close> whose wrap-around is written out at every arithmetic
    operation (\<open>u64\<close>, \<open>u32\<close>); the hash functions, which live on wrap-around, use
    \<open>64 word\<close>.  \<open>int\<close> is \<open>int\<close>.
  \<^item> Bytes.  A \<open>std::string\<close>, a file and a buffer are all lists of bytes; HOL's
    \<open>char\<close> is a byte, so they are all \<open>string\<close>.  \<open>le_bytes\<close> and \<open>le_nat\<close> are the
    little-endian \<open>memcpy\<close> of an integer to and from such a buffer.
  \<^item> \<open>std::to_string\<close> on integers.
  \<^item> \<open>std::map\<close> as an association list sorted by key, with \<open>operator[]\<close>.
  \<^item> Operations that are undefined in C++ on some inputs, as a result type.
  \<^item> Files: a disk maps paths to contents, and a write can fail to open or stop short.
  \<^item> Majorities: two majorities of one finite set have a common member.
\<close>

named_theorems wrap_simps \<open>wrap-around that cannot happen below the bound\<close>
named_theorems codec_simps \<open>lengths and round trips of the byte encoders\<close>

section \<open>Machine integers\<close>

definition u64 :: "nat \<Rightarrow> nat" where
  "u64 n = n mod 2 ^ 64"

definition u32 :: "nat \<Rightarrow> nat" where
  "u32 n = n mod 2 ^ 32"

text \<open>Subtraction of unsigned 64-bit values, which wraps below zero.\<close>

definition u64_sub :: "nat \<Rightarrow> nat \<Rightarrow> nat" where
  "u64_sub a b = (if b \<le> a then a - b else 2 ^ 64 + a - b)"

lemma u64_id [wrap_simps]: "n < 2 ^ 64 \<Longrightarrow> u64 n = n"
  by (simp add: u64_def)

lemma u32_id [wrap_simps]: "n < 2 ^ 32 \<Longrightarrow> u32 n = n"
  by (simp add: u32_def)

lemma u64_less [simp]: "u64 n < 2 ^ 64"
  by (simp add: u64_def)

lemma u32_less [simp]: "u32 n < 2 ^ 32"
  by (simp add: u32_def)

lemma u32_le [simp]: "u32 n \<le> n"
  by (simp add: u32_def)

lemma u64_sub_le [wrap_simps]: "b \<le> a \<Longrightarrow> u64_sub a b = a - b"
  by (simp add: u64_sub_def)

section \<open>Integers in byte buffers\<close>

primrec le_bytes :: "nat \<Rightarrow> nat \<Rightarrow> string" where
  "le_bytes 0 x = []"
| "le_bytes (Suc n) x = char_of x # le_bytes n (x div 256)"

primrec le_nat :: "string \<Rightarrow> nat" where
  "le_nat [] = 0"
| "le_nat (c # cs) = of_char c + 256 * le_nat cs"

lemma length_le_bytes [simp, codec_simps]: "length (le_bytes n x) = n"
  by (induction n arbitrary: x) auto

lemma le_nat_le_bytes [codec_simps]: "le_nat (le_bytes n x) = x mod 256 ^ n"
proof (induction n arbitrary: x)
  case 0
  then show ?case by simp
next
  case (Suc n)
  have "le_nat (le_bytes (Suc n) x) = x mod 256 + 256 * (x div 256 mod 256 ^ n)"
    using Suc.IH [of "x div 256"] by simp
  also have "\<dots> = x mod (256 * 256 ^ n)"
    by (simp add: mod_mult2_eq)
  finally show ?case by simp
qed

lemma le_nat_less: "le_nat cs < 256 ^ length cs"
proof (induction cs)
  case Nil
  then show ?case by simp
next
  case (Cons c cs)
  have "of_char c + 256 * le_nat cs < 256 + 256 * le_nat cs" by simp
  also have "\<dots> = 256 * (le_nat cs + 1)" by simp
  also have "\<dots> \<le> 256 * 256 ^ length cs"
    using Cons.IH by (intro mult_le_mono2) simp
  finally show ?case by simp
qed

text \<open>
  \<open>get_u64\<close> and \<open>get_u32\<close> are \<open>memcpy(&x, data + pos, sizeof x)\<close> read at the front of
  the remaining bytes; \<open>put_u64\<close> and \<open>put_u32\<close> are the bytes of \<open>x\<close>.
\<close>

definition put_u64 :: "nat \<Rightarrow> string" where
  "put_u64 x = le_bytes 8 x"

definition put_u32 :: "nat \<Rightarrow> string" where
  "put_u32 x = le_bytes 4 x"

definition get_u64 :: "string \<Rightarrow> nat" where
  "get_u64 bs = le_nat (take 8 bs)"

definition get_u32 :: "string \<Rightarrow> nat" where
  "get_u32 bs = le_nat (take 4 bs)"

lemma length_put_u64 [simp]: "length (put_u64 x) = 8"
  by (simp add: put_u64_def)

lemma length_put_u32 [simp]: "length (put_u32 x) = 4"
  by (simp add: put_u32_def)

lemma get_put_u64 [simp]: "get_u64 (put_u64 x @ bs) = u64 x"
  by (simp add: get_u64_def put_u64_def le_nat_le_bytes u64_def)

lemma get_put_u32 [simp]: "get_u32 (put_u32 x @ bs) = u32 x"
  by (simp add: get_u32_def put_u32_def le_nat_le_bytes u32_def)

lemma take_le_bytes: "take m (le_bytes n x) = le_bytes (min m n) x"
proof (induction n arbitrary: m x)
  case 0
  then show ?case by simp
next
  case (Suc n)
  then show ?case by (cases m) simp_all
qed

text \<open>Reading 32 bits where 64 were written gives the low half.\<close>

lemma get_u32_put_u64: "get_u32 (put_u64 x @ bs) = u32 x"
  by (simp add: get_u32_def put_u64_def take_le_bytes le_nat_le_bytes u32_def)

lemma put_u32_small:
  assumes "x < 256"
  shows "put_u32 x = [char_of x, char_of (0::nat), char_of (0::nat), char_of (0::nat)]"
proof -
  have "(4::nat) = Suc (Suc (Suc (Suc 0)))" by simp
  with assms show ?thesis unfolding put_u32_def by (simp only: le_bytes.simps) simp
qed

lemma get_u32_less [simp]: "get_u32 bs < 2 ^ 32"
proof -
  have "le_nat (take 4 bs) < 256 ^ length (take 4 bs)" by (rule le_nat_less)
  also have "\<dots> \<le> (256::nat) ^ 4" by (rule power_increasing) simp_all
  finally show ?thesis by (simp add: get_u32_def)
qed

lemma get_u64_less [simp]: "get_u64 bs < 2 ^ 64"
proof -
  have "le_nat (take 8 bs) < 256 ^ length (take 8 bs)" by (rule le_nat_less)
  also have "\<dots> \<le> (256::nat) ^ 8" by (rule power_increasing) simp_all
  finally show ?thesis by (simp add: get_u64_def)
qed

lemma drop_put_u64 [simp]: "drop 8 (put_u64 x @ bs) = bs"
  by simp

lemma drop_put_u32 [simp]: "drop 4 (put_u32 x @ bs) = bs"
  by simp

text \<open>A signed 32-bit value is stored as its two's complement.\<close>

definition put_i32 :: "int \<Rightarrow> string" where
  "put_i32 x = put_u32 (nat (x mod 2 ^ 32))"

definition get_i32 :: "string \<Rightarrow> int" where
  "get_i32 bs = (let n = int (get_u32 bs) in if n < 2 ^ 31 then n else n - 2 ^ 32)"

definition is_i32 :: "int \<Rightarrow> bool" where
  "is_i32 x \<longleftrightarrow> - (2 ^ 31) \<le> x \<and> x < 2 ^ 31"

lemma length_put_i32 [simp]: "length (put_i32 x) = 4"
  by (simp add: put_i32_def)

lemma get_put_i32 [simp]: "is_i32 x \<Longrightarrow> get_i32 (put_i32 x @ bs) = x"
proof -
  assume "is_i32 x"
  then have b: "- (2 ^ 31) \<le> x" "x < 2 ^ 31" by (simp_all add: is_i32_def)
  have u: "u32 (nat (x mod 2 ^ 32)) = nat (x mod 2 ^ 32)"
    by (rule u32_id) (simp add: nat_less_iff)
  show ?thesis
  proof (cases "0 \<le> x")
    case True
    with b have "x mod 2 ^ 32 = x" by simp
    with True b u show ?thesis by (simp add: get_i32_def put_i32_def)
  next
    case False
    have "x mod 2 ^ 32 = (x + 2 ^ 32) mod 2 ^ 32" by simp
    also have "\<dots> = x + 2 ^ 32" using False b by (intro mod_pos_pos_trivial) simp_all
    finally have "x mod 2 ^ 32 = x + 2 ^ 32" .
    with False b u show ?thesis by (simp add: get_i32_def put_i32_def)
  qed
qed

section \<open>std::to_string\<close>

fun to_string_nat :: "nat \<Rightarrow> string" where
  "to_string_nat n =
     (if n < 10 then [char_of (48 + n)]
      else to_string_nat (n div 10) @ [char_of (48 + n mod 10)])"

declare to_string_nat.simps [simp del]

definition to_string :: "int \<Rightarrow> string" where
  "to_string i = (if i < 0 then ''-'' @ to_string_nat (nat (- i)) else to_string_nat (nat i))"

lemma to_string_nat_nonempty [simp]: "to_string_nat n \<noteq> []"
  by (subst to_string_nat.simps) simp

text \<open>The value of a string of decimal digits, as \<open>std::stoul\<close> reads it.\<close>

definition digits_value :: "string \<Rightarrow> nat" where
  "digits_value s = foldl (\<lambda>n c. 10 * n + (of_char c - 48)) 0 s"

definition is_digit :: "char \<Rightarrow> bool" where
  "is_digit c \<longleftrightarrow> 48 \<le> (of_char c :: nat) \<and> of_char c \<le> (57 :: nat)"

lemma to_string_nat_digits: "c \<in> set (to_string_nat n) \<Longrightarrow> is_digit c"
proof (induction n rule: to_string_nat.induct)
  case (1 n)
  then show ?case
    by (subst (asm) (2) to_string_nat.simps) (auto simp: is_digit_def of_char_of take_bit_eq_mod split: if_splits)
qed

lemma digits_value_to_string [simp]: "digits_value (to_string_nat n) = n"
proof (induction n rule: to_string_nat.induct)
  case (1 n)
  then show ?case
    by (subst to_string_nat.simps) (auto simp: digits_value_def of_char_of take_bit_eq_mod)
qed

lemma to_string_nat_inj: "to_string_nat m = to_string_nat n \<Longrightarrow> m = n"
  by (metis digits_value_to_string)

section \<open>std::map\<close>

text \<open>
  An ordered map is its list of (key, value) pairs in increasing key order, the order
  in which a range-based \<open>for\<close> visits it.  \<open>om_set\<close> is \<open>m[k] = v\<close>; \<open>om_at\<close> is the value
  \<open>m[k]\<close> reads, 0 for a key that is not there, and \<open>om_touch\<close> is the side effect of that
  read, which inserts the missing key with the value 0.
\<close>

type_synonym ('k, 'v) omap = "('k \<times> 'v) list"

fun om_set :: "'k::linorder \<Rightarrow> 'v \<Rightarrow> ('k, 'v) omap \<Rightarrow> ('k, 'v) omap" where
  "om_set k v [] = [(k, v)]"
| "om_set k v (kv # m) =
     (if fst kv < k then kv # om_set k v m
      else if fst kv = k then (k, v) # m
      else (k, v) # kv # m)"

definition om_at :: "('k, 'v::zero) omap \<Rightarrow> 'k \<Rightarrow> 'v" where
  "om_at m k = (case map_of m k of None \<Rightarrow> 0 | Some v \<Rightarrow> v)"

definition om_touch :: "'k::linorder \<Rightarrow> ('k, 'v::zero) omap \<Rightarrow> ('k, 'v) omap" where
  "om_touch k m = (if map_of m k = None then om_set k 0 m else m)"

definition om_wf :: "('k::linorder, 'v) omap \<Rightarrow> bool" where
  "om_wf m \<longleftrightarrow> sorted_wrt (<) (map fst m)"

lemma keys_om_set [simp]: "fst ` set (om_set k v m) = insert k (fst ` set m)"
  by (induction m) auto

lemma om_wf_set [simp]: "om_wf m \<Longrightarrow> om_wf (om_set k v m)"
proof (induction m)
  case Nil
  then show ?case by (simp add: om_wf_def)
next
  case (Cons kv m)
  have "\<forall>x \<in> set (map fst (om_set k v m)). x = k \<or> x \<in> set (map fst m)"
    using keys_om_set [of k v m] by auto
  with Cons show ?case by (auto simp: om_wf_def)
qed

lemma map_of_om_set: "om_wf m \<Longrightarrow> map_of (om_set k v m) = (map_of m)(k \<mapsto> v)"
proof (induction m)
  case Nil
  then show ?case by (simp add: om_wf_def)
next
  case (Cons kv m)
  then have IH: "map_of (om_set k v m) = (map_of m)(k \<mapsto> v)" by (auto simp: om_wf_def)
  show ?case by (cases kv) (auto simp: IH fun_eq_iff)
qed

lemma map_fst_om_set: "om_wf m \<Longrightarrow> k \<in> fst ` set m \<Longrightarrow> map fst (om_set k v m) = map fst m"
proof (induction m)
  case Nil
  then show ?case by simp
next
  case (Cons kv m)
  then show ?case by (auto simp: om_wf_def)
qed

lemma set_om_set_subset: "set (om_set k v m) \<subseteq> insert (k, v) (set m)"
  by (induction m) auto

lemma om_wf_touch [simp]: "om_wf m \<Longrightarrow> om_wf (om_touch k m)"
  by (simp add: om_touch_def)

lemma om_touch_present: "k \<in> fst ` set m \<Longrightarrow> om_touch k m = m"
  by (auto simp: om_touch_def map_of_eq_None_iff)

lemma om_at_set: "om_wf m \<Longrightarrow> om_at (om_set k v m) k' = (if k' = k then v else om_at m k')"
  by (simp add: om_at_def map_of_om_set)

lemma om_at_touch [simp]: "om_wf m \<Longrightarrow> om_at (om_touch k m) k' = om_at m k'"
  by (simp add: om_touch_def om_at_set) (simp add: om_at_def)

lemma distinct_om_wf: "om_wf m \<Longrightarrow> distinct (map fst m)"
  by (simp add: om_wf_def strict_sorted_iff)

section \<open>Undefined behaviour\<close>

text \<open>
  The result of an operation that is undefined in C++ on some inputs (here: reading a
  \<open>std::vector\<close> past its end) is \<open>Undefined\<close> there.
\<close>

datatype 'a outcome = Undefined | Returns 'a

fun bind_outcome :: "'a outcome \<Rightarrow> ('a \<Rightarrow> 'b outcome) \<Rightarrow> 'b outcome" where
  "bind_outcome Undefined f = Undefined"
| "bind_outcome (Returns x) f = f x"

definition vector_at :: "'a list \<Rightarrow> nat \<Rightarrow> 'a outcome" where
  "vector_at xs i = (if i < length xs then Returns (xs ! i) else Undefined)"

lemma bind_outcome_Returns_iff [simp]:
  "bind_outcome x f = Returns y \<longleftrightarrow> (\<exists>a. x = Returns a \<and> f a = Returns y)"
  by (cases x) simp_all

lemma vector_at_Returns_iff [simp]: "vector_at xs i = Returns x \<longleftrightarrow> i < length xs \<and> x = xs ! i"
  by (auto simp: vector_at_def)

text \<open>Two maps with the same bindings are equal.\<close>

lemma map_eqI: "(\<And>x y. m x = Some y \<longleftrightarrow> m' x = Some y) \<Longrightarrow> m = m'"
  by (rule ext) (metis not_Some_eq)

section \<open>Files\<close>

type_synonym disk = "string \<rightharpoonup> string"

text \<open>
  How one \<open>open(O_WRONLY | O_CREAT | O_TRUNC)\<close> followed by writes turns out: everything is
  written, the open fails (the file is untouched), or the process stops or the disk fills
  after some bytes (the file holds that prefix).
\<close>

datatype write_outcome = WriteOk | OpenFails | StopsAfter nat

datatype io_error = CannotOpen string | ShortWrite string

definition write_file :: "write_outcome \<Rightarrow> string \<Rightarrow> string \<Rightarrow> disk \<Rightarrow> (io_error option \<times> disk)" where
  "write_file w path bytes d =
     (case w of
        WriteOk \<Rightarrow> (None, d(path \<mapsto> bytes))
      | OpenFails \<Rightarrow> (Some (CannotOpen path), d)
      | StopsAfter n \<Rightarrow>
          (if n < length bytes then (Some (ShortWrite path), d(path \<mapsto> take n bytes))
           else (None, d(path \<mapsto> bytes))))"

lemma write_file_ok: "write_file w path bytes d = (None, d') \<Longrightarrow> d' = d(path \<mapsto> bytes)"
  by (auto simp: write_file_def split: write_outcome.splits if_splits)

section \<open>Majorities\<close>

text \<open>
  \<open>(int)(n / 2) + 1\<close>, the size both the Raft code and the quorum writes call a majority.
\<close>

definition majority :: "nat \<Rightarrow> nat" where
  "majority n = n div 2 + 1"

lemma majority_le: "0 < n \<Longrightarrow> majority n \<le> n"
  by (simp add: majority_def)

text \<open>
  The interface the consensus proofs need of a quorum system: a family of sets any two
  of which meet.
\<close>

locale quorum_system =
  fixes is_quorum :: "'a set \<Rightarrow> bool"
  assumes quorums_meet: "is_quorum P \<Longrightarrow> is_quorum Q \<Longrightarrow> P \<inter> Q \<noteq> {}"
begin

text \<open>
  Votes that name one choice per voter cannot elect two choices: what election safety
  takes from the quorums.
\<close>

lemma unique_choice:
  assumes "is_quorum P" and "is_quorum Q"
    and "\<And>p. p \<in> P \<Longrightarrow> (p, a) \<in> votes" and "\<And>q. q \<in> Q \<Longrightarrow> (q, b) \<in> votes"
    and once: "\<And>v x y. (v, x) \<in> votes \<Longrightarrow> (v, y) \<in> votes \<Longrightarrow> x = y"
  shows "a = b"
proof -
  from quorums_meet [OF assms(1,2)] obtain v where "v \<in> P" "v \<in> Q" by blast
  with assms(3,4) have "(v, a) \<in> votes" "(v, b) \<in> votes" by blast+
  then show ?thesis by (rule once)
qed

end

definition majority_of :: "'a set \<Rightarrow> 'a set \<Rightarrow> bool" where
  "majority_of N Q \<longleftrightarrow> finite N \<and> Q \<subseteq> N \<and> majority (card N) \<le> card Q"

interpretation maj: quorum_system "majority_of N" for N :: "'a set"
proof
  fix P Q :: "'a set"
  assume "majority_of N P" and "majority_of N Q"
  then have fin: "finite N" and sub: "P \<subseteq> N" "Q \<subseteq> N"
    and big: "card N < card P + card Q"
    by (auto simp: majority_of_def majority_def)
  show "P \<inter> Q \<noteq> {}"
  proof
    assume "P \<inter> Q = {}"
    with fin sub have "card (P \<union> Q) = card P + card Q"
      by (intro card_Un_disjoint) (auto intro: finite_subset)
    moreover from fin sub have "card (P \<union> Q) \<le> card N" by (intro card_mono) auto
    ultimately show False using big by simp
  qed
qed

end
