(* ===== verification/Routing.thy ===== *)
theory Routing
  imports Prelude
begin

text \<open>
  \<^verbatim>\<open>cluster/routing.hpp\<close> and \<^verbatim>\<open>cluster/hash_ring.hpp\<close>: the FNV-1a hash, the modulo
  router of phase 1, and the consistent-hash ring with its virtual nodes.  The locale
  \<open>shard_router\<close> is what the coordinator relies on when it adds or removes a shard; the
  ring is its interpretation.
\<close>

unbundle bit_operations_syntax

section \<open>Hash functions\<close>

definition fnv_offset :: "64 word" where
  "fnv_offset = 14695981039346656037"

definition fnv_prime :: "64 word" where
  "fnv_prime = 1099511628211"

definition fnv1a_step :: "64 word \<Rightarrow> char \<Rightarrow> 64 word" where
  "fnv1a_step h c = (h XOR word_of_nat (of_char c)) * fnv_prime"

definition fnv1a_64 :: "string \<Rightarrow> 64 word" where
  "fnv1a_64 s = foldl fnv1a_step fnv_offset s"

text \<open>\<open>std::to_string\<close> of a \<open>uint64_t\<close>.\<close>

definition to_string_u64 :: "64 word \<Rightarrow> string" where
  "to_string_u64 h = to_string_nat (unat h)"

text \<open>
  \<open>fnv1a_64(id) % num_shards\<close>; \<open>None\<close> is the division by zero, which is undefined in C++.
\<close>

definition route_shard :: "string \<Rightarrow> nat \<Rightarrow> nat option" where
  "route_shard external_id num_shards =
     (if num_shards = 0 then None else Some (unat (fnv1a_64 external_id) mod num_shards))"

definition well_mixed_hash :: "string \<Rightarrow> 64 word" where
  "well_mixed_hash external_id =
     (let h = fnv1a_64 external_id in fnv1a_64 (to_string_u64 h))"

section \<open>The ring\<close>

definition VIRTUAL_NODES_PER_SHARD :: nat where
  "VIRTUAL_NODES_PER_SHARD = 200"

text \<open>The loop of \<open>chained_vnode_point\<close> runs for \<open>i = 0, \<dots>, vnode_index\<close>.\<close>

primrec chain_hash :: "nat \<Rightarrow> 64 word \<Rightarrow> 64 word" where
  "chain_hash 0 h = h"
| "chain_hash (Suc n) h = chain_hash n (fnv1a_64 (to_string_u64 h))"

definition chained_vnode_point :: "int \<Rightarrow> nat \<Rightarrow> 64 word" where
  "chained_vnode_point shard_id vnode_index =
     chain_hash (Suc vnode_index) (fnv1a_64 (to_string shard_id))"

type_synonym ring_point = "64 word \<times> int"

record hash_ring =
  ring :: "ring_point list"

definition empty_ring :: hash_ring where
  "empty_ring = \<lparr>ring = []\<rparr>"

definition vnode_points :: "int \<Rightarrow> ring_point list" where
  "vnode_points sid = map (\<lambda>v. (chained_vnode_point sid v, sid)) [0..<VIRTUAL_NODES_PER_SHARD]"

definition build :: "int list \<Rightarrow> hash_ring" where
  "build shard_ids = \<lparr>ring = sort (concat (map vnode_points shard_ids))\<rparr>"

text \<open>
  \<open>std::lower_bound\<close> on a range partitioned by the predicate returns the first element
  that is not below the target.
\<close>

definition lower_bound :: "64 word \<Rightarrow> ring_point list \<Rightarrow> ring_point list" where
  "lower_bound h ps = dropWhile (\<lambda>p. fst p < h) ps"

text \<open>
  \<open>route\<close> wraps to the first point when no point is at or after the hash.  On an empty
  ring the code dereferences \<open>end()\<close>; that is \<open>None\<close>.
\<close>

definition route :: "hash_ring \<Rightarrow> string \<Rightarrow> int option" where
  "route r external_id =
     (let h = well_mixed_hash external_id in
      case lower_bound h (ring r) of
        p # _ \<Rightarrow> Some (snd p)
      | [] \<Rightarrow> (case ring r of [] \<Rightarrow> None | p # _ \<Rightarrow> Some (snd p)))"

definition empty :: "hash_ring \<Rightarrow> bool" where
  "empty r \<longleftrightarrow> ring r = []"

definition point_count :: "hash_ring \<Rightarrow> nat" where
  "point_count r = length (ring r)"

section \<open>The hash\<close>

lemma fnv_prime_inverse: "fnv_prime * 14886173955864302971 = 1"
  by (simp add: fnv_prime_def)

lemma fnv_prime_cancel: "a * fnv_prime = b * fnv_prime \<longleftrightarrow> a = b"
proof
  assume "a * fnv_prime = b * fnv_prime"
  then have "a * fnv_prime * 14886173955864302971 = b * fnv_prime * 14886173955864302971"
    by (rule arg_cong)
  then show "a = b" by (simp only: mult.assoc fnv_prime_inverse mult_1_right)
qed simp

lemma word_of_char_inj:
  "(word_of_nat (of_char c) :: 64 word) = word_of_nat (of_char d) \<longleftrightarrow> c = d"
proof
  assume eq: "(word_of_nat (of_char c) :: 64 word) = word_of_nat (of_char d)"
  have small: "(of_char x :: nat) < 2 ^ 64" for x
    by (rule less_trans [of _ 256]) simp_all
  have unat: "unat (word_of_nat (of_char x) :: 64 word) = of_char x" for x
    using small [of x] by (simp add: unat_of_nat)
  from eq have "unat (word_of_nat (of_char c) :: 64 word) = unat (word_of_nat (of_char d) :: 64 word)"
    by simp
  then have "(of_char c :: nat) = of_char d" by (simp only: unat)
  then show "c = d" by (simp add: of_char_eq_iff)
qed simp

lemma fnv1a_step_inj_char: "fnv1a_step h c = fnv1a_step h d \<longleftrightarrow> c = d"
proof -
  have "(h XOR x = h XOR y) = (x = y)" for x y :: "64 word"
    by (auto simp: bit_eq_iff bit_xor_iff)
  then show ?thesis
    by (simp add: fnv1a_step_def fnv_prime_cancel word_of_char_inj)
qed

lemma fnv1a_step_inj_hash: "fnv1a_step g c = fnv1a_step h c \<longleftrightarrow> g = h"
proof -
  have "(g XOR x = h XOR x) = (g = h)" for x :: "64 word"
    by (auto simp: bit_eq_iff bit_xor_iff)
  then show ?thesis
    by (simp add: fnv1a_step_def fnv_prime_cancel)
qed

lemma fnv1a_tail_inj: "foldl fnv1a_step g s = foldl fnv1a_step h s \<longleftrightarrow> g = h"
  by (induction s arbitrary: g h) (simp_all add: fnv1a_step_inj_hash)

section \<open>The ring as an ordered set of points\<close>

text \<open>The points of a set of shards, and the point that owns a hash value.\<close>

definition points_of :: "int set \<Rightarrow> ring_point set" where
  "points_of S = {(chained_vnode_point sid v, sid) | sid v. sid \<in> S \<and> v < VIRTUAL_NODES_PER_SHARD}"

definition ring_succ :: "ring_point set \<Rightarrow> 64 word \<Rightarrow> ring_point" where
  "ring_succ P h = (let later = {p \<in> P. h \<le> fst p} in if later = {} then Min P else Min later)"

lemma ring_succ_later:
  "{p \<in> P. h \<le> fst p} \<noteq> {} \<Longrightarrow> ring_succ P h = Min {p \<in> P. h \<le> fst p}"
  unfolding ring_succ_def Let_def by (rule if_not_P)

lemma ring_succ_wrap: "{p \<in> P. h \<le> fst p} = {} \<Longrightarrow> ring_succ P h = Min P"
  unfolding ring_succ_def Let_def by (rule if_P)

lemma set_vnode_points: "set (vnode_points sid) = points_of {sid}"
  by (auto simp: vnode_points_def points_of_def)

lemma set_ring_build [simp]: "set (ring (build ids)) = points_of (set ids)"
  by (auto simp: build_def set_vnode_points) (auto simp: points_of_def)

lemma sorted_ring_build [simp]: "sorted (ring (build ids))"
  by (simp add: build_def)

lemma length_vnode_points [simp]: "length (vnode_points sid) = VIRTUAL_NODES_PER_SHARD"
  by (simp add: vnode_points_def)

lemma points_of_Un: "points_of (A \<union> B) = points_of A \<union> points_of B"
  by (auto simp: points_of_def)

lemma finite_points_of [simp]: "finite S \<Longrightarrow> finite (points_of S)"
proof -
  assume "finite S"
  have "points_of S = (\<lambda>(sid, v). (chained_vnode_point sid v, sid)) ` (S \<times> {..<VIRTUAL_NODES_PER_SHARD})"
    by (auto simp: points_of_def)
  with \<open>finite S\<close> show ?thesis by simp
qed

lemma points_of_first: "sid \<in> S \<Longrightarrow> (chained_vnode_point sid 0, sid) \<in> points_of S"
  by (force simp: points_of_def VIRTUAL_NODES_PER_SHARD_def)

lemma points_of_empty_iff [simp]: "points_of S = {} \<longleftrightarrow> S = {}"
  using points_of_first by (auto simp: points_of_def)

lemma snd_points_of: "p \<in> points_of S \<Longrightarrow> snd p \<in> S"
  by (auto simp: points_of_def)

lemma sorted_dropWhile_Min:
  assumes "sorted ps" and mono: "\<And>p q :: ring_point. p \<le> q \<Longrightarrow> \<not> P p \<Longrightarrow> \<not> P q"
  shows "case dropWhile P ps of [] \<Rightarrow> {p \<in> set ps. \<not> P p} = {}
         | p # _ \<Rightarrow> p = Min {p \<in> set ps. \<not> P p} \<and> p \<in> {p \<in> set ps. \<not> P p}"
  using assms(1)
proof (induction ps)
  case Nil
  then show ?case by simp
next
  case (Cons q ps)
  show ?case
  proof (cases "P q")
    case True
    then have "{p \<in> set (q # ps). \<not> P p} = {p \<in> set ps. \<not> P p}" by auto
    moreover have "dropWhile P (q # ps) = dropWhile P ps" using True by simp
    ultimately show ?thesis using Cons by (simp only: sorted_simps)
  next
    case False
    with Cons.prems have "Min {p \<in> set (q # ps). \<not> P p} = q"
      by (intro Min_eqI) auto
    with False show ?thesis by simp
  qed
qed

lemma head_sorted_Min: "sorted (p # ps) \<Longrightarrow> p = Min (set (p # ps))"
  by (rule sym, intro Min_eqI) auto

text \<open>
  \<open>route\<close> computes the successor on the circle, whatever the order in which the shard ids
  were given to \<open>build\<close>.
\<close>

lemma route_build:
  assumes "ids \<noteq> []"
  shows "route (build ids) k = Some (snd (ring_succ (points_of (set ids)) (well_mixed_hash k)))"
proof -
  let ?h = "well_mixed_hash k" and ?ps = "ring (build ids)"
  have ne: "?ps \<noteq> []"
    using assms set_ring_build [of ids] by (metis points_of_empty_iff set_empty)
  have later: "{p \<in> set ?ps. \<not> fst p < ?h} = {p \<in> points_of (set ids). ?h \<le> fst p}"
    by (auto simp: not_less)
  have mono: "\<not> fst p < ?h \<Longrightarrow> \<not> fst q < ?h" if "p \<le> q" for p q :: ring_point
    using that by (cases p; cases q) auto
  show ?thesis
  proof (cases "lower_bound ?h ?ps")
    case Nil
    with sorted_dropWhile_Min [of ?ps "\<lambda>p. fst p < ?h"] mono later
    have none: "{p \<in> points_of (set ids). ?h \<le> fst p} = {}"
      by (simp only: lower_bound_def sorted_ring_build list.case) blast
    obtain p ps where ps: "?ps = p # ps" using ne by (cases ?ps) auto
    then have "p = Min (points_of (set ids))"
      using head_sorted_Min [of p ps] sorted_ring_build [of ids] set_ring_build [of ids] by simp
    with Nil ps show ?thesis by (simp add: route_def ring_succ_wrap [OF none] Let_def)
  next
    case (Cons p ps)
    with sorted_dropWhile_Min [of ?ps "\<lambda>p. fst p < ?h"] mono
    have p: "p = Min {p \<in> set ?ps. \<not> fst p < ?h} \<and> p \<in> {p \<in> set ?ps. \<not> fst p < ?h}"
      by (simp only: lower_bound_def sorted_ring_build list.case) blast
    then have "p = Min {p \<in> points_of (set ids). ?h \<le> fst p}"
      and ne: "{p \<in> points_of (set ids). ?h \<le> fst p} \<noteq> {}"
      by (simp_all only: later) blast
    with Cons show ?thesis by (simp add: route_def ring_succ_later [OF ne] Let_def)
  qed
qed

lemma ring_succ_mem: "finite P \<Longrightarrow> P \<noteq> {} \<Longrightarrow> ring_succ P h \<in> P"
proof -
  assume P: "finite P" "P \<noteq> {}"
  show ?thesis
  proof (cases "{p \<in> P. h \<le> fst p} = {}")
    case True
    show ?thesis using Min_in [OF P] by (simp only: ring_succ_wrap [OF True])
  next
    case False
    with P have "Min {p \<in> P. h \<le> fst p} \<in> {p \<in> P. h \<le> fst p}" by (intro Min_in) auto
    then show ?thesis by (simp only: ring_succ_later [OF False]) simp
  qed
qed

lemma Min_Un_cases:
  assumes "finite A" "finite B" "A \<noteq> {}"
  shows "Min (A \<union> B) = Min A \<or> Min (A \<union> B) \<in> B"
  using assms by (cases "B = {}") (auto simp: Min_Un min_def)

text \<open>Adding points moves a hash only onto the added points.\<close>

lemma ring_succ_Un:
  assumes "finite A" "finite B" "A \<noteq> {}"
  shows "ring_succ (A \<union> B) h = ring_succ A h \<or> ring_succ (A \<union> B) h \<in> B"
proof -
  let ?a = "{p \<in> A. h \<le> fst p}" and ?b = "{p \<in> B. h \<le> fst p}"
  have un: "{p \<in> A \<union> B. h \<le> fst p} = ?a \<union> ?b" by blast
  consider "?a \<noteq> {}" | "?a = {}" "?b \<noteq> {}" | "?a = {}" "?b = {}" by blast
  then show ?thesis
  proof cases
    case 1
    with assms have "Min (?a \<union> ?b) = Min ?a \<or> Min (?a \<union> ?b) \<in> ?b"
      by (intro Min_Un_cases) auto
    moreover have "ring_succ (A \<union> B) h = Min (?a \<union> ?b)"
      using 1 ring_succ_later [of "A \<union> B" h] by (simp only: un) blast
    ultimately show ?thesis using ring_succ_later [OF 1] by (auto simp only: mem_Collect_eq)
  next
    case 2
    with assms have "Min ?b \<in> ?b" by (intro Min_in) auto
    moreover have "ring_succ (A \<union> B) h = Min ?b"
      using 2 ring_succ_later [of "A \<union> B" h] by (simp only: un Un_empty_left) blast
    ultimately show ?thesis by simp
  next
    case 3
    then have "ring_succ (A \<union> B) h = Min (A \<union> B)"
      by (intro ring_succ_wrap) (simp only: un Un_empty)
    then show ?thesis using Min_Un_cases [OF assms] ring_succ_wrap [OF 3(1)] by simp
  qed
qed

section \<open>What the coordinator relies on\<close>

text \<open>
  A shard router maps a list of shard ids and a key to the owner.  The laws: every key
  has an owner among the ids; the order of the ids does not matter; adding a shard moves
  keys only to it.
\<close>

locale shard_router =
  fixes owner :: "int list \<Rightarrow> string \<Rightarrow> int option"
  assumes owner_mem: "ids \<noteq> [] \<Longrightarrow> \<exists>sid \<in> set ids. owner ids k = Some sid"
    and owner_set: "set ids = set ids' \<Longrightarrow> owner ids k = owner ids' k"
    and owner_add: "ids \<noteq> [] \<Longrightarrow> owner (sid # ids) k = owner ids k \<or> owner (sid # ids) k = Some sid"
begin

lemma owner_add_set:
  assumes "ids \<noteq> []" and "set ids' = insert sid (set ids)"
  shows "owner ids' k = owner ids k \<or> owner ids' k = Some sid"
  using owner_add [OF assms(1), of sid k] owner_set [of ids' "sid # ids" k] assms(2) by simp

text \<open>Removing a shard moves only the keys it owned.\<close>

lemma owner_remove:
  assumes "set ids' = set ids - {sid}" and "ids' \<noteq> []" and "owner ids k \<noteq> Some sid"
  shows "owner ids' k = owner ids k"
proof (cases "sid \<in> set ids")
  case True
  with assms(1) have "set ids = insert sid (set ids')" by auto
  from owner_add_set [OF assms(2) this] assms(3) show ?thesis by metis
next
  case False
  with assms(1) show ?thesis by (intro owner_set) auto
qed

text \<open>Removing a shard that was just added gives every key back to its old owner.\<close>

lemma owner_add_remove:
  assumes "ids \<noteq> []" and "sid \<notin> set ids" and "set ids' = insert sid (set ids)"
    and "set ids'' = set ids' - {sid}"
  shows "owner ids'' k = owner ids k"
  using assms by (intro owner_set) auto

end

interpretation hr: shard_router "\<lambda>ids. route (build ids)"
proof
  fix ids :: "int list" and k
  assume "ids \<noteq> []"
  moreover from this have "ring_succ (points_of (set ids)) (well_mixed_hash k) \<in> points_of (set ids)"
    by (intro ring_succ_mem) simp_all
  ultimately show "\<exists>sid \<in> set ids. route (build ids) k = Some sid"
    by (auto simp: route_build dest: snd_points_of)
next
  fix ids ids' :: "int list" and k
  assume "set ids = set ids'"
  then show "route (build ids) k = route (build ids') k"
    by (cases "ids = []"; cases "ids' = []") (simp_all add: route_build)
next
  fix ids :: "int list" and sid k
  assume ne: "ids \<noteq> []"
  let ?h = "well_mixed_hash k"
  have un: "points_of (set (sid # ids)) = points_of (set ids) \<union> points_of {sid}"
    using points_of_Un [of "set ids" "{sid}"] by simp
  have "ring_succ (points_of (set (sid # ids))) ?h = ring_succ (points_of (set ids)) ?h
    \<or> ring_succ (points_of (set (sid # ids))) ?h \<in> points_of {sid}"
    unfolding un using ne by (intro ring_succ_Un) simp_all
  then show "route (build (sid # ids)) k = route (build ids) k \<or> route (build (sid # ids)) k = Some sid"
    using ne by (auto simp: route_build dest: snd_points_of)
qed

section \<open>Properties\<close>

text \<open>
  FNV-1a separates inputs that differ in one byte: two strings of the same length
  that agree except at one position never have the same hash, because xor with the byte
  and multiplication by the (odd) prime are both invertible modulo 2^64.
\<close>

lemma fnv1a_one_byte_differs:
  assumes "c \<noteq> d"
  shows "fnv1a_64 (pre @ c # post) \<noteq> fnv1a_64 (pre @ d # post)"
  using assms by (simp add: fnv1a_64_def fnv1a_tail_inj fnv1a_step_inj_char)

text \<open>
  \<open>HashRing::build\<close> sorts the ring and puts exactly \<open>VIRTUAL_NODES_PER_SHARD\<close> points on
  it for every shard id it is given, each the chained hash of that id; nothing else is
  on the ring.
\<close>

lemma build_sorted_points:
  "sorted (ring (build ids)) \<and>
   mset (ring (build ids)) =
     mset (concat (map (\<lambda>sid. map (\<lambda>v. (chained_vnode_point sid v, sid)) [0..<VIRTUAL_NODES_PER_SHARD]) ids)) \<and>
   point_count (build ids) = length ids * VIRTUAL_NODES_PER_SHARD"
proof -
  have "length (concat (map vnode_points ids)) = length ids * VIRTUAL_NODES_PER_SHARD"
    by (induction ids) (simp_all add: vnode_points_def)
  moreover have "vnode_points = (\<lambda>sid. map (\<lambda>v. (chained_vnode_point sid v, sid)) [0..<VIRTUAL_NODES_PER_SHARD])"
    by (simp add: fun_eq_iff vnode_points_def)
  ultimately show ?thesis by (simp add: build_def point_count_def)
qed

text \<open>
  \<open>HashRing::route\<close> returns the owner of the first ring point at or after the key's
  hash, and of the smallest point of the ring when there is none (the wrap-around).
\<close>

lemma route_successor:
  assumes "ids \<noteq> []"
  shows "\<exists>p sid. route (build ids) k = Some sid \<and> (p, sid) \<in> set (ring (build ids)) \<and>
    (well_mixed_hash k \<le> p \<and>
       (\<forall>(q, s) \<in> set (ring (build ids)). well_mixed_hash k \<le> q \<longrightarrow> (p, sid) \<le> (q, s))
     \<or> (\<forall>(q, s) \<in> set (ring (build ids)). q < well_mixed_hash k \<and> (p, sid) \<le> (q, s)))"
proof -
  let ?h = "well_mixed_hash k" and ?P = "points_of (set ids)"
  have fin: "finite ?P" and ne: "?P \<noteq> {}" using assms by simp_all
  obtain p sid where r: "ring_succ ?P ?h = (p, sid)" by (cases "ring_succ ?P ?h")
  with ring_succ_mem [OF fin ne, of ?h] have mem: "(p, sid) \<in> ?P" by simp
  have route: "route (build ids) k = Some sid" using assms r by (simp add: route_build)
  show ?thesis
  proof (cases "{q \<in> ?P. ?h \<le> fst q} = {}")
    case True
    with r have "(p, sid) = Min ?P" by (simp only: ring_succ_wrap [OF True])
    with fin have "\<forall>q \<in> ?P. (p, sid) \<le> q" by simp
    moreover from True have "\<forall>q \<in> ?P. fst q < ?h" by (auto simp: not_le)
    ultimately have "\<forall>(q, s) \<in> ?P. q < ?h \<and> (p, sid) \<le> (q, s)" by fastforce
    with route mem show ?thesis by (intro exI [of _ p] exI [of _ sid]) simp
  next
    case False
    with r have eq: "(p, sid) = Min {q \<in> ?P. ?h \<le> fst q}" by (simp only: ring_succ_later [OF False])
    with fin False have "\<forall>(q, s) \<in> ?P. ?h \<le> q \<longrightarrow> (p, sid) \<le> (q, s)" by auto
    moreover have "?h \<le> p"
      using Min_in [of "{q \<in> ?P. ?h \<le> fst q}"] fin False by (simp flip: eq)
    ultimately show ?thesis using route mem by (intro exI [of _ p] exI [of _ sid]) simp
  qed
qed

text \<open>
  C38: adding a shard moves keys only onto the new shard: after the ids become the old ones
  plus \<open>sid\<close>, every key is routed where it was or to \<open>sid\<close>.  This is what makes the
  migration loop of \<open>/admin/shards/add\<close> (which moves exactly the keys the new ring routes
  to the new shard) sufficient.
\<close>

theorem route_add_shard:
  assumes "ids \<noteq> []" and "set ids' = insert sid (set ids)"
  shows "route (build ids') k = route (build ids) k \<or> route (build ids') k = Some sid"
  using assms by (rule hr.owner_add_set)

theorem route_add_shard_witness:
  "[0, 1 :: int] \<noteq> [] \<and> set [0, 1, 2 :: int] = insert 2 (set [0, 1]) \<and>
   (route (build [0, 1, 2]) ''v1'' = route (build [0, 1]) ''v1''
    \<or> route (build [0, 1, 2]) ''v1'' = Some 2)"
  using route_add_shard [of "[0, 1]" "[0, 1, 2]" 2 "''v1''"] by auto

text \<open>
  Removing a shard leaves every key it did not own where it was, and the keys it owned
  go to one of the remaining shards.
\<close>

lemma route_remove_shard:
  assumes "set ids' = set ids - {sid}" and "ids' \<noteq> []"
  shows "(route (build ids) k \<noteq> Some sid \<longrightarrow> route (build ids') k = route (build ids) k) \<and>
         (\<exists>s \<in> set ids'. route (build ids') k = Some s)"
  using hr.owner_remove [OF assms] hr.owner_mem [OF assms(2), of k] by blast

end
