(* ===== verification/Raft_State.thy ===== *)
theory Raft_State
  imports Prelude
begin

text \<open>
  \<^verbatim>\<open>cluster/raft_state.hpp\<close>: the two pieces of Raft state that have to be on disk before a
  node answers an RPC, \<open>currentTerm\<close> and \<open>votedFor\<close>.  A file operation takes the outcome
  of its write as an argument and returns the exception it raises, if any.  The locale
  \<open>durable\<close> is what a restart relies on; \<open>PersistentState\<close> here and \<open>RaftLog\<close> in its own
  theory are its interpretations.
\<close>

section \<open>Durable values\<close>

locale durable =
  fixes save :: "'a \<Rightarrow> disk \<Rightarrow> disk"
    and load :: "disk \<Rightarrow> 'a"
    and valid :: "'a \<Rightarrow> bool"
  assumes load_save: "valid x \<Longrightarrow> load (save x d) = x"
begin

text \<open>After a run of saves a load returns the last value saved.\<close>

lemma load_last:
  assumes "xs \<noteq> []" and "valid (last xs)"
  shows "load (fold save xs d) = last xs"
  using assms by (induction xs arbitrary: d) (auto simp: load_save)

end

section \<open>PersistentState\<close>

record persistent_state =
  state_path :: string
  current_term :: nat
  voted_for :: int

definition new_state :: persistent_state where
  "new_state = \<lparr>state_path = '''', current_term = 0, voted_for = - 1\<rparr>"

definition encode_state :: "persistent_state \<Rightarrow> string" where
  "encode_state ps = put_u64 (current_term ps) @ put_i32 (voted_for ps)"

definition persist_state ::
  "write_outcome \<Rightarrow> persistent_state \<Rightarrow> disk \<Rightarrow> io_error option \<times> disk" where
  "persist_state w ps d = write_file w (state_path ps) (encode_state ps) d"

text \<open>
  \<open>open_file\<close> keeps what it reads only if all 12 bytes are there; otherwise it writes the
  values the object already has (the defaults, for a new object).
\<close>

definition open_state ::
  "write_outcome \<Rightarrow> string \<Rightarrow> persistent_state \<Rightarrow> disk \<Rightarrow> io_error option \<times> persistent_state \<times> disk" where
  "open_state w path ps d =
     (let ps = ps\<lparr>state_path := path\<rparr>;
          fresh = (let (err, d') = persist_state w ps d in (err, ps, d'))
      in case d path of
           Some buf \<Rightarrow>
             if 12 \<le> length buf
             then (None, ps\<lparr>current_term := get_u64 buf, voted_for := get_i32 (drop 8 buf)\<rparr>, d)
             else fresh
         | None \<Rightarrow> fresh)"

definition set_state ::
  "write_outcome \<Rightarrow> nat \<Rightarrow> int \<Rightarrow> persistent_state \<Rightarrow> disk \<Rightarrow> io_error option \<times> persistent_state \<times> disk" where
  "set_state w term voted ps d =
     (let ps = ps\<lparr>current_term := term, voted_for := voted\<rparr>;
          (err, d') = persist_state w ps d
      in (err, ps, d'))"

text \<open>The in-memory half of \<open>set\<close>, which \<open>RaftNode\<close> uses when the write succeeds.\<close>

definition ps_set :: "nat \<Rightarrow> int \<Rightarrow> persistent_state \<Rightarrow> persistent_state" where
  "ps_set term voted ps = ps\<lparr>current_term := term, voted_for := voted\<rparr>"

definition wf_state :: "persistent_state \<Rightarrow> bool" where
  "wf_state ps \<longleftrightarrow> current_term ps < 2 ^ 64 \<and> is_i32 (voted_for ps)"

lemma length_encode_state [simp]: "length (encode_state ps) = 12"
  by (simp add: encode_state_def)

lemma ps_set_simps [simp]:
  "current_term (ps_set t v ps) = t" "voted_for (ps_set t v ps) = v"
  "state_path (ps_set t v ps) = state_path ps"
  by (simp_all add: ps_set_def)

lemma set_state_ok:
  assumes "set_state w t v ps d = (None, ps', d')"
  shows "ps' = ps_set t v ps \<and> d' = d(state_path ps \<mapsto> encode_state ps')"
  using assms
  by (auto simp: set_state_def ps_set_def persist_state_def Let_def split: prod.splits
      dest!: write_file_ok)

lemma decode_encode_state:
  assumes "wf_state ps"
  shows "get_u64 (encode_state ps) = current_term ps"
    and "get_i32 (drop 8 (encode_state ps)) = voted_for ps"
proof -
  show "get_u64 (encode_state ps) = current_term ps"
    using assms by (simp add: encode_state_def wf_state_def wrap_simps)
  show "get_i32 (drop 8 (encode_state ps)) = voted_for ps"
    using assms get_put_i32 [of "voted_for ps" "[]"] by (simp add: encode_state_def wf_state_def)
qed

interpretation ps: durable
  "\<lambda>ps d. d(path \<mapsto> encode_state ps)"
  "\<lambda>d. fst (snd (open_state WriteOk path new_state d))"
  "\<lambda>ps. wf_state ps \<and> state_path ps = path"
  for path :: string
  by standard (auto simp: open_state_def decode_encode_state Let_def)

section \<open>Properties\<close>

text \<open>
  Term and vote survive a restart.  After a \<open>set\<close> call whose write succeeded, opening
  the file in a new process yields exactly the term and the vote that were set, whatever
  the file and the object held before.
\<close>

lemma vote_survives_restart:
  assumes "set_state w t v ps d = (None, ps', d')" and "t < 2 ^ 64" and "is_i32 v"
  shows "open_state w' (state_path ps) new_state d' = (None, ps', d')"
proof -
  have ps': "ps' = ps_set t v ps" and d': "d' = d(state_path ps \<mapsto> encode_state ps')"
    using set_state_ok [OF assms(1)] by auto
  have "wf_state ps'" using assms(2,3) by (simp add: ps' wf_state_def)
  then show ?thesis
    by (simp add: open_state_def d' decode_encode_state Let_def)
       (simp add: ps' ps_set_def new_state_def)
qed

text \<open>
  C36: a write that is cut short forgets the vote.  \<open>persist\<close> truncates the file before it
  writes, so if the process dies after fewer than 12 bytes the next start finds a short
  file and silently resets to term 0 with no vote, whatever term and vote were stored
  before: the double-vote that the class comment says must be prevented.
\<close>

theorem torn_write_forgets_vote:
  assumes "n < 12"
  shows "set_state (StopsAfter n) t v ps d =
           (Some (ShortWrite (state_path ps)), ps_set t v ps,
            d(state_path ps \<mapsto> take n (encode_state (ps_set t v ps)))) \<and>
         open_state WriteOk (state_path ps) new_state
           (d(state_path ps \<mapsto> take n (encode_state (ps_set t v ps)))) =
         (None, new_state\<lparr>state_path := state_path ps\<rparr>,
          d(state_path ps \<mapsto> encode_state new_state))"
  using assms
  by (simp add: set_state_def ps_set_def persist_state_def write_file_def open_state_def Let_def)
     (simp add: encode_state_def new_state_def)

theorem torn_write_forgets_vote_witness:
  "fst (snd (open_state WriteOk ''s'' new_state
     (snd (snd (set_state (StopsAfter 0) 9 1 \<lparr>state_path = ''s'', current_term = 8, voted_for = 3\<rparr>
        [''s'' \<mapsto> encode_state \<lparr>state_path = ''s'', current_term = 8, voted_for = 3\<rparr>]))))) =
   \<lparr>state_path = ''s'', current_term = 0, voted_for = - 1\<rparr>"
  using torn_write_forgets_vote [of 0 9 1
      "\<lparr>state_path = ''s'', current_term = 8, voted_for = 3\<rparr>"
      "[''s'' \<mapsto> encode_state \<lparr>state_path = ''s'', current_term = 8, voted_for = 3\<rparr>]"]
  by (simp add: new_state_def)

end
