(* ===== verification/Raft_Log.thy ===== *)
theory Raft_Log
  imports Raft_State
begin

text \<open>
  \<^verbatim>\<open>cluster/raft_log.hpp\<close>: the replicated log with its snapshot, its accessors in
  absolute (1-based) indices, its mutations and its file format.  A mutation is given in
  two parts: the new in-memory log, and \<open>persist_log\<close>, which every mutation calls at its
  end.  The locale \<open>replicated_log\<close> is what \<open>RaftNode\<close> relies on.
\<close>

section \<open>State\<close>

record persisted_entry =
  entry_term :: nat
  command :: string

record raft_log =
  log_path :: string
  entries :: "persisted_entry list"
  snapshot_last_index :: nat
  snapshot_last_term :: nat
  snapshot_data :: string

definition new_log :: raft_log where
  "new_log = \<lparr>log_path = '''', entries = [], snapshot_last_index = 0, snapshot_last_term = 0,
              snapshot_data = ''''\<rparr>"

definition kMagic :: nat where
  "kMagic = 1312900692"

section \<open>The file\<close>

definition encode_entry :: "persisted_entry \<Rightarrow> string" where
  "encode_entry e =
     (let len = u32 (length (command e))
      in put_u64 (entry_term e) @ put_u32 len @ take len (command e))"

definition encode_header :: "raft_log \<Rightarrow> string" where
  "encode_header l =
     (let snap_len = u32 (length (snapshot_data l))
      in put_u32 kMagic @ put_u64 (snapshot_last_index l) @ put_u64 (snapshot_last_term l) @
         put_u32 snap_len @ take snap_len (snapshot_data l))"

definition encode_log :: "raft_log \<Rightarrow> string" where
  "encode_log l = encode_header l @ concat (map encode_entry (entries l))"

definition persist_log :: "write_outcome \<Rightarrow> raft_log \<Rightarrow> disk \<Rightarrow> io_error option \<times> disk" where
  "persist_log w l d = write_file w (log_path l) (encode_log l) d"

text \<open>
  The loop over the per-entry records, on the bytes from \<open>pos\<close> to the end; a record that
  does not fit ends the loop.
\<close>

function read_entries :: "string \<Rightarrow> persisted_entry list" where
  "read_entries bs =
     (if length bs < 12 then []
      else
        let term = get_u64 bs;
            len = get_u32 (drop 8 bs);
            rest = drop 12 bs
        in if length rest < len then []
           else \<lparr>entry_term = term, command = take len rest\<rparr> # read_entries (drop len rest))"
  by pat_completeness auto
termination by (relation "measure length") auto

declare read_entries.simps [simp del]

text \<open>
  What \<open>open_file\<close> does with the bytes of an existing file: the log it fills in, and
  whether it gives up on a bad header and calls \<open>persist\<close> with what it has so far.
\<close>

definition parse_log :: "string \<Rightarrow> raft_log \<Rightarrow> bool \<times> raft_log" where
  "parse_log data l =
     (if 4 \<le> length data \<and> get_u32 data = kMagic then
        let h = drop 4 data in
        if length h < 20 then (True, l)
        else
          let l = l\<lparr>snapshot_last_index := get_u64 h, snapshot_last_term := get_u64 (drop 8 h)\<rparr>;
              snap_len = get_u32 (drop 16 h);
              body = drop 20 h
          in if length body < snap_len then (True, l)
             else (False, l\<lparr>snapshot_data := take snap_len body,
                            entries := read_entries (drop snap_len body)\<rparr>)
      else (False, l\<lparr>entries := read_entries data\<rparr>))"

definition open_log :: "write_outcome \<Rightarrow> string \<Rightarrow> disk \<Rightarrow> io_error option \<times> raft_log \<times> disk" where
  "open_log w path d =
     (let l = new_log\<lparr>log_path := path\<rparr> in
      case d path of
        None \<Rightarrow> (let (err, d') = persist_log w l d in (err, l, d'))
      | Some data \<Rightarrow>
          (let (bad, l') = parse_log data l
           in if bad then let (err, d') = persist_log w l' d in (err, l', d')
              else (None, l', d)))"

section \<open>Accessors\<close>

definition last_index :: "raft_log \<Rightarrow> nat" where
  "last_index l = u64 (snapshot_last_index l + length (entries l))"

definition last_term :: "raft_log \<Rightarrow> nat" where
  "last_term l = (if entries l \<noteq> [] then entry_term (last (entries l)) else snapshot_last_term l)"

definition term_at :: "raft_log \<Rightarrow> nat \<Rightarrow> nat" where
  "term_at l index =
     (if index = 0 then 0
      else if index > last_index l then 0
      else if index \<le> snapshot_last_index l then snapshot_last_term l
      else entry_term (entries l ! (index - 1 - snapshot_last_index l)))"

definition has_entry_at :: "raft_log \<Rightarrow> nat \<Rightarrow> bool" where
  "has_entry_at l index \<longleftrightarrow> 1 \<le> index \<and> index \<le> last_index l"

definition has_real_entry_at :: "raft_log \<Rightarrow> nat \<Rightarrow> bool" where
  "has_real_entry_at l index \<longleftrightarrow> snapshot_last_index l < index \<and> index \<le> last_index l"

definition command_at :: "raft_log \<Rightarrow> nat \<Rightarrow> string" where
  "command_at l index =
     (if index < 1 \<or> index \<le> snapshot_last_index l \<or> index > last_index l then ''''
      else command (entries l ! (index - 1 - snapshot_last_index l)))"

section \<open>Mutations\<close>

text \<open>
  \<open>truncate_and_append\<close>: the entry \<open>new_entries[j]\<close> has the absolute index
  \<open>keep_count + 1 + j\<close> and is skipped if the snapshot covers it.
\<close>

definition truncate_and_append :: "nat \<Rightarrow> persisted_entry list \<Rightarrow> raft_log \<Rightarrow> raft_log" where
  "truncate_and_append keep_count new_entries l =
     (let snap = snapshot_last_index l;
          physical_keep = (if keep_count > snap then keep_count - snap else 0);
          kept = (if physical_keep < length (entries l) then take physical_keep (entries l)
                  else entries l);
          fresh = map snd (filter (\<lambda>(j, e). \<not> u64 (keep_count + 1 + j) \<le> snap)
                             (enumerate 0 new_entries))
      in l\<lparr>entries := kept @ fresh\<rparr>)"

definition append_log :: "nat \<Rightarrow> string \<Rightarrow> raft_log \<Rightarrow> raft_log" where
  "append_log term cmd l = l\<lparr>entries := entries l @ [\<lparr>entry_term = term, command = cmd\<rparr>]\<rparr>"

definition compact_log :: "nat \<Rightarrow> nat \<Rightarrow> string \<Rightarrow> raft_log \<Rightarrow> raft_log" where
  "compact_log up_to_index snapshot_term data l =
     (if up_to_index \<le> snapshot_last_index l then l
      else
        let remove_count = min (up_to_index - snapshot_last_index l) (length (entries l))
        in l\<lparr>entries := drop remove_count (entries l),
             snapshot_last_index := up_to_index,
             snapshot_last_term := snapshot_term,
             snapshot_data := data\<rparr>)"

section \<open>Well-formedness\<close>

text \<open>
  What the C++ types guarantee (terms and indices are 64-bit, the index space does not
  wrap) and what the 32-bit length fields of the file need.
\<close>

definition wf_entry :: "persisted_entry \<Rightarrow> bool" where
  "wf_entry e \<longleftrightarrow> entry_term e < 2 ^ 64 \<and> length (command e) < 2 ^ 32"

definition wf_log :: "raft_log \<Rightarrow> bool" where
  "wf_log l \<longleftrightarrow> snapshot_last_index l + length (entries l) < 2 ^ 64 \<and>
     snapshot_last_term l < 2 ^ 64 \<and> length (snapshot_data l) < 2 ^ 32 \<and>
     (\<forall>e \<in> set (entries l). wf_entry e)"

text \<open>The abstract view: the entry at an absolute index, if the log still holds it.\<close>

definition entry_at :: "raft_log \<Rightarrow> nat \<Rightarrow> persisted_entry option" where
  "entry_at l i =
     (if snapshot_last_index l < i \<and> i \<le> snapshot_last_index l + length (entries l)
      then Some (entries l ! (i - 1 - snapshot_last_index l)) else None)"

lemma last_index_wf [wrap_simps]:
  "wf_log l \<Longrightarrow> last_index l = snapshot_last_index l + length (entries l)"
  by (simp add: last_index_def wf_log_def wrap_simps)

lemma entry_at_None_iff: "wf_log l \<Longrightarrow> entry_at l i = None \<longleftrightarrow> \<not> has_real_entry_at l i"
  by (auto simp: entry_at_def has_real_entry_at_def last_index_wf)

lemma term_at_entry: "wf_log l \<Longrightarrow> entry_at l i = Some e \<Longrightarrow> term_at l i = entry_term e"
  by (auto simp: entry_at_def term_at_def last_index_wf split: if_splits)

lemma command_at_entry: "wf_log l \<Longrightarrow> entry_at l i = Some e \<Longrightarrow> command_at l i = command e"
  by (auto simp: entry_at_def command_at_def last_index_wf split: if_splits)

lemma command_at_None: "wf_log l \<Longrightarrow> entry_at l i = None \<Longrightarrow> command_at l i = ''''"
  by (auto simp: entry_at_def command_at_def last_index_wf split: if_splits)

lemma term_at_last: "wf_log l \<Longrightarrow> 0 < last_index l \<Longrightarrow> term_at l (last_index l) = last_term l"
  by (auto simp: term_at_def last_term_def last_index_wf last_conv_nth)

section \<open>The file format\<close>

lemma read_entries_short: "length bs < 12 \<Longrightarrow> read_entries bs = []"
  by (subst read_entries.simps) simp

lemma read_entries_record:
  assumes "wf_entry e"
  shows "read_entries (encode_entry e @ bs) = e # read_entries bs"
proof -
  from assms have len: "u32 (length (command e)) = length (command e)"
    and trm: "u64 (entry_term e) = entry_term e"
    by (simp_all add: wf_entry_def wrap_simps)
  have enc: "encode_entry e @ bs =
      put_u64 (entry_term e) @ put_u32 (length (command e)) @ command e @ bs"
    by (simp add: encode_entry_def len)
  have "drop 12 (encode_entry e @ bs) = command e @ bs"
    by (simp add: enc)
  moreover have "drop 8 (encode_entry e @ bs) = put_u32 (length (command e)) @ command e @ bs"
    by (simp add: enc)
  moreover have "get_u64 (encode_entry e @ bs) = entry_term e"
    by (simp add: enc trm)
  moreover have "\<not> length (encode_entry e @ bs) < 12"
    by (simp add: enc)
  ultimately show ?thesis
    by (subst read_entries.simps) (simp add: len Let_def)
qed

lemma read_entries_encode:
  "\<forall>e \<in> set es. wf_entry e \<Longrightarrow> read_entries (concat (map encode_entry es)) = es"
  by (induction es) (simp_all add: read_entries_short read_entries_record)

text \<open>
  A file cut off anywhere inside the entries is read back as a prefix of them: a torn
  record is dropped, never misread.
\<close>

lemma read_entries_torn_record:
  assumes "wf_entry e" and "n < length (encode_entry e)"
  shows "read_entries (take n (encode_entry e)) = []"
proof (cases "n < 12")
  case True
  then show ?thesis by (simp add: read_entries_short)
next
  case False
  from assms(1) have len: "u32 (length (command e)) = length (command e)"
    by (simp add: wf_entry_def wrap_simps)
  let ?bs = "take n (encode_entry e)"
  have bs: "?bs = put_u64 (entry_term e) @ put_u32 (length (command e)) @ take (n - 12) (command e)"
    using False by (simp add: encode_entry_def len take_Cons' diff_diff_left)
  have short: "n - 12 < length (command e)"
    using assms(2) False by (simp add: encode_entry_def len)
  show ?thesis
    unfolding bs using short by (subst read_entries.simps) (simp add: len Let_def)
qed

lemma read_entries_torn:
  assumes "\<forall>e \<in> set es. wf_entry e"
  shows "\<exists>k. read_entries (take n (concat (map encode_entry es))) = take k es"
  using assms
proof (induction es arbitrary: n)
  case Nil
  then show ?case by (simp add: read_entries_short)
next
  case (Cons e es)
  show ?case
  proof (cases "n < length (encode_entry e)")
    case True
    with Cons.prems have "read_entries (take n (concat (map encode_entry (e # es)))) = take 0 (e # es)"
      by (simp add: read_entries_torn_record)
    then show ?thesis ..
  next
    case False
    obtain k where "read_entries (take (n - length (encode_entry e)) (concat (map encode_entry es))) = take k es"
      using Cons by auto
    with Cons.prems False
    have "read_entries (take n (concat (map encode_entry (e # es)))) = take (Suc k) (e # es)"
      by (simp add: read_entries_record)
    then show ?thesis ..
  qed
qed

lemma length_encode_header:
  "wf_log l \<Longrightarrow> length (encode_header l) = 24 + length (snapshot_data l)"
  by (simp add: encode_header_def wf_log_def wrap_simps)

text \<open>A complete header followed by any bytes is parsed into the snapshot and those bytes' entries.\<close>

lemma parse_log_header:
  assumes "wf_log l"
  shows "parse_log (encode_header l @ bs) m =
    (False, m\<lparr>snapshot_last_index := snapshot_last_index l, snapshot_last_term := snapshot_last_term l,
              snapshot_data := snapshot_data l, entries := read_entries bs\<rparr>)"
proof -
  from assms have len: "u32 (length (snapshot_data l)) = length (snapshot_data l)"
    and idx: "u64 (snapshot_last_index l) = snapshot_last_index l"
    and trm: "u64 (snapshot_last_term l) = snapshot_last_term l"
    by (simp_all add: wf_log_def wrap_simps)
  have magic: "u32 kMagic = kMagic" by (simp add: kMagic_def u32_def)
  have d16: "drop 16 (put_u64 a @ put_u64 b @ cs) = cs" for a b cs by simp
  have d20: "drop 20 (put_u64 a @ put_u64 b @ put_u32 c @ cs) = cs" for a b c cs by simp
  have dlen: "drop (length cs) (cs @ ds) = ds" for cs ds :: string by simp
  show ?thesis
    by (simp add: parse_log_def encode_header_def len idx trm magic d16 d20 dlen Let_def
        del: drop_append)
qed

lemma parse_encode_log:
  assumes "wf_log l"
  shows "parse_log (encode_log l) (new_log\<lparr>log_path := log_path l\<rparr>) = (False, l)"
  using assms
  by (simp add: encode_log_def parse_log_header read_entries_encode wf_log_def new_log_def)

interpretation lg: durable
  "\<lambda>l d. d(path \<mapsto> encode_log l)"
  "\<lambda>d. fst (snd (open_log WriteOk path d))"
  "\<lambda>l. wf_log l \<and> log_path l = path"
  for path :: string
  by standard (auto simp: open_log_def parse_encode_log Let_def)

section \<open>What RaftNode relies on\<close>

text \<open>
  The log as a partial map from absolute indices to entries, defined between the base
  (the last index the snapshot covers) and the last index.
\<close>

locale replicated_log =
  fixes inv :: "'l \<Rightarrow> bool"
    and base :: "'l \<Rightarrow> nat" and final :: "'l \<Rightarrow> nat"
    and at :: "'l \<Rightarrow> nat \<Rightarrow> persisted_entry option"
    and app :: "nat \<Rightarrow> string \<Rightarrow> 'l \<Rightarrow> 'l"
    and cut :: "nat \<Rightarrow> persisted_entry list \<Rightarrow> 'l \<Rightarrow> 'l"
    and snap :: "nat \<Rightarrow> nat \<Rightarrow> string \<Rightarrow> 'l \<Rightarrow> 'l"
  assumes at_dom: "inv l \<Longrightarrow> at l i \<noteq> None \<longleftrightarrow> base l < i \<and> i \<le> final l"
    and base_final: "inv l \<Longrightarrow> base l \<le> final l"
    and base_app: "base (app t c l) = base l"
    and at_app: "inv l \<Longrightarrow> inv (app t c l) \<Longrightarrow>
          at (app t c l) = (at l)(Suc (final l) \<mapsto> \<lparr>entry_term = t, command = c\<rparr>)"
    and base_cut: "base (cut k es l) = base l"
    and at_cut: "inv l \<Longrightarrow> inv (cut k es l) \<Longrightarrow> k \<le> final l \<Longrightarrow> k + length es < 2 ^ 64 \<Longrightarrow>
          at (cut k es l) i =
            (if i \<le> base l then None else if i \<le> k then at l i
             else if i \<le> k + length es then Some (es ! (i - k - 1)) else None)"
    and base_snap: "base l < n \<Longrightarrow> base (snap n t d l) = n"
    and at_snap: "inv l \<Longrightarrow> base l < n \<Longrightarrow>
          at (snap n t d l) i = (if i \<le> n then None else at l i)"
begin

lemma final_eqI:
  assumes "inv l" and "base l \<le> n" and "\<And>i. base l < i \<Longrightarrow> at l i \<noteq> None \<longleftrightarrow> i \<le> n"
  shows "final l = n"
proof (rule ccontr)
  assume "final l \<noteq> n"
  then have "final l < n \<or> n < final l" by auto
  moreover have "base l \<le> final l" using assms(1) by (rule base_final)
  ultimately consider "base l < n" "final l < n" | "base l < final l" "n < final l"
    using assms(2) by linarith
  then show False
    using assms(3) [of n] assms(3) [of "final l"]
      at_dom [OF assms(1), of n] at_dom [OF assms(1), of "final l"] by cases auto
qed

lemma final_app: "inv l \<Longrightarrow> inv (app t c l) \<Longrightarrow> final (app t c l) = Suc (final l)"
  using at_dom [of l] base_final [of l] by (intro final_eqI) (auto simp: base_app at_app)

text \<open>An appended entry is read back, and no other entry changes.\<close>

lemma app_read:
  assumes "inv l" and "inv (app t c l)"
  shows "at (app t c l) (final (app t c l)) = Some \<lparr>entry_term = t, command = c\<rparr>"
    and "i \<noteq> Suc (final l) \<Longrightarrow> at (app t c l) i = at l i"
  using assms by (simp_all add: at_app final_app)

text \<open>
  Re-sending entries the log already has, through to its end, changes nothing; re-sending
  fewer of them removes the rest.
\<close>

lemma cut_resend:
  assumes "inv l" and "inv (cut k es l)" and "k \<le> final l" and "k + length es < 2 ^ 64"
    and same: "\<And>j. j < length es \<Longrightarrow> base l < k + 1 + j \<Longrightarrow> at l (k + 1 + j) = Some (es ! j)"
  shows "at (cut k es l) i = (if i \<le> max k (k + length es) then at l i else None)"
proof (cases "base l < i \<and> k < i \<and> i \<le> k + length es")
  case True
  then have "at l i = Some (es ! (i - k - 1))" using same [of "i - k - 1"] by auto
  with True assms(1-4) show ?thesis by (simp add: at_cut)
next
  case False
  moreover have "at l i = None" if "i \<le> base l"
    using at_dom [OF assms(1), of i] that by auto
  ultimately show ?thesis using assms(1-4) by (auto simp: at_cut)
qed

text \<open>Compaction and appending commute: a snapshot of a prefix does not affect new entries.\<close>

lemma snap_app_commute:
  assumes "inv l" "inv (app t c l)" "inv (snap n st d l)" "inv (app t c (snap n st d l))"
    and "base l < n" and "n \<le> final l"
  shows "at (snap n st d (app t c l)) i = at (app t c (snap n st d l)) i"
proof -
  have "final (snap n st d l) = final l"
    using assms at_dom [OF assms(1)] base_final [OF assms(1)]
    by (intro final_eqI) (auto simp: base_snap at_snap)
  with assms show ?thesis by (simp add: at_snap base_app at_app)
qed

end

lemma wf_log_entries: "wf_log l \<Longrightarrow> e \<in> set (entries l) \<Longrightarrow> wf_entry e"
  by (simp add: wf_log_def)

text \<open>The entries \<open>truncate_and_append\<close> adds are those past the snapshot.\<close>

lemma fresh_entries:
  assumes "k + length es < 2 ^ 64"
  shows "map snd (filter (\<lambda>(j, e). \<not> u64 (k + 1 + j) \<le> snap) (enumerate 0 es)) = drop (snap - k) es"
  using assms
proof (induction es arbitrary: k rule: rev_induct)
  case Nil
  then show ?case by simp
next
  case (snoc e es)
  then have "u64 (k + 1 + length es) = k + 1 + length es" by (simp add: wrap_simps)
  with snoc show ?case by (auto simp: enumerate_append_eq)
qed

lemma entries_truncate_and_append:
  assumes "k + length es < 2 ^ 64"
  shows "entries (truncate_and_append k es l) =
    take (k - snapshot_last_index l) (entries l) @ drop (snapshot_last_index l - k) es"
  using fresh_entries [OF assms, of "snapshot_last_index l"]
  by (simp add: truncate_and_append_def Let_def)

lemma set_entries_truncate:
  "k + length es < 2 ^ 64 \<Longrightarrow> set (entries (truncate_and_append k es l)) \<subseteq> set (entries l) \<union> set es"
  by (auto simp: entries_truncate_and_append dest: in_set_takeD in_set_dropD)

lemma truncate_and_append_simps [simp]:
  "snapshot_last_index (truncate_and_append k es l) = snapshot_last_index l"
  "snapshot_last_term (truncate_and_append k es l) = snapshot_last_term l"
  "snapshot_data (truncate_and_append k es l) = snapshot_data l"
  "log_path (truncate_and_append k es l) = log_path l"
  by (simp_all add: truncate_and_append_def Let_def)

lemma append_log_simps [simp]:
  "entries (append_log t c l) = entries l @ [\<lparr>entry_term = t, command = c\<rparr>]"
  "snapshot_last_index (append_log t c l) = snapshot_last_index l"
  "snapshot_last_term (append_log t c l) = snapshot_last_term l"
  "snapshot_data (append_log t c l) = snapshot_data l"
  "log_path (append_log t c l) = log_path l"
  by (simp_all add: append_log_def)

lemma compact_log_simps [simp]:
  "snapshot_last_index (compact_log n t d l) = max n (snapshot_last_index l)"
  "entries (compact_log n t d l) = drop (n - snapshot_last_index l) (entries l)"
  "log_path (compact_log n t d l) = log_path l"
  by (simp_all add: compact_log_def Let_def min_def)

lemma entry_at_cut:
  assumes "k \<le> snapshot_last_index l + length (entries l)" and "k + length es < 2 ^ 64"
  shows "entry_at (truncate_and_append k es l) i =
    (if i \<le> snapshot_last_index l then None else if i \<le> k then entry_at l i
     else if i \<le> k + length es then Some (es ! (i - k - 1)) else None)"
proof -
  let ?s = "snapshot_last_index l"
  have len: "length (entries (truncate_and_append k es l)) = (k - ?s) + (length es - (?s - k))"
    using assms by (auto simp: entries_truncate_and_append min_def)
  consider "i \<le> ?s" | "?s < i" "i \<le> k" | "?s < i" "k < i" "i \<le> k + length es" | "?s < i" "k + length es < i"
    by linarith
  then show ?thesis
  proof cases
    case 2
    with assms show ?thesis
      by (auto simp: entry_at_def len entries_truncate_and_append nth_append min_def)
  next
    case 3
    show ?thesis
    proof (cases "?s \<le> k")
      case True
      with 3 assms(1) have "length (take (k - ?s) (entries l)) = k - ?s" and "\<not> i - 1 - ?s < k - ?s"
        and "i - 1 - ?s - (k - ?s) = i - k - 1"
        by auto
      with True 3 assms show ?thesis
        by (simp add: entry_at_def len entries_truncate_and_append nth_append)
    next
      case False
      with 3 have "?s - k \<le> length es" and "?s - k + (i - 1 - ?s) = i - k - 1" by auto
      with False 3 assms show ?thesis
        by (simp add: entry_at_def len entries_truncate_and_append)
    qed
  qed (auto simp: entry_at_def len)
qed

interpretation rl: replicated_log wf_log snapshot_last_index last_index entry_at
  append_log truncate_and_append compact_log
proof
  fix l :: raft_log and t n k i :: nat and c d :: string and es :: "persisted_entry list"
  show "wf_log l \<Longrightarrow> entry_at l i \<noteq> None \<longleftrightarrow> snapshot_last_index l < i \<and> i \<le> last_index l"
    by (simp add: entry_at_None_iff has_real_entry_at_def)
  show "wf_log l \<Longrightarrow> snapshot_last_index l \<le> last_index l"
    by (simp add: last_index_wf)
  show "wf_log l \<Longrightarrow> entry_at (append_log t c l) =
      (entry_at l)(Suc (last_index l) \<mapsto> \<lparr>entry_term = t, command = c\<rparr>)"
    by (rule ext) (auto simp: entry_at_def last_index_wf nth_append)
  show "wf_log l \<Longrightarrow> k \<le> last_index l \<Longrightarrow> k + length es < 2 ^ 64 \<Longrightarrow>
    entry_at (truncate_and_append k es l) i =
      (if i \<le> snapshot_last_index l then None else if i \<le> k then entry_at l i
       else if i \<le> k + length es then Some (es ! (i - k - 1)) else None)"
    by (simp only: last_index_wf entry_at_cut)
  show "snapshot_last_index l < n \<Longrightarrow> entry_at (compact_log n t d l) i = (if i \<le> n then None else entry_at l i)"
    by (auto simp: entry_at_def)
qed simp_all

section \<open>Properties\<close>

lemma persist_log_ok: "persist_log w l d = (None, d') \<Longrightarrow> d' = d(log_path l \<mapsto> encode_log l)"
  unfolding persist_log_def by (rule write_file_ok)

text \<open>
  C35: the log survives a restart.  Once \<open>persist\<close> has succeeded, \<open>open_file\<close> on the same
  path rebuilds exactly the log that was written: entries, snapshot index, snapshot term
  and snapshot data.
\<close>

theorem log_survives_restart:
  assumes "wf_log l" and "persist_log w l d = (None, d')"
  shows "open_log w' (log_path l) d' = (None, l, d')"
  using persist_log_ok [OF assms(2)] parse_encode_log [OF assms(1)]
  by (simp add: open_log_def Let_def)

definition sample_log :: raft_log where
  "sample_log = \<lparr>log_path = ''l'',
     entries = [\<lparr>entry_term = 2, command = ''a''\<rparr>, \<lparr>entry_term = 3, command = ''bc''\<rparr>],
     snapshot_last_index = 4, snapshot_last_term = 2, snapshot_data = ''snap''\<rparr>"

lemma wf_sample_log [simp]: "wf_log sample_log"
  by (simp add: sample_log_def wf_log_def wf_entry_def)

lemma sample_log_simps [simp]:
  "log_path sample_log = ''l''" "snapshot_last_index sample_log = 4"
  "length (snapshot_data sample_log) = 4" "last_index sample_log = 6"
  "command_at sample_log 6 = ''bc''"
  by (simp_all add: sample_log_def last_index_def command_at_def u64_def)

theorem log_survives_restart_witness:
  "wf_log sample_log \<and>
   persist_log WriteOk sample_log Map.empty = (None, [''l'' \<mapsto> encode_log sample_log]) \<and>
   open_log OpenFails ''l'' [''l'' \<mapsto> encode_log sample_log] =
     (None, sample_log, [''l'' \<mapsto> encode_log sample_log])"
proof -
  have h: "persist_log WriteOk sample_log Map.empty = (None, [''l'' \<mapsto> encode_log sample_log])"
    by (simp add: persist_log_def write_file_def)
  show ?thesis using h log_survives_restart [OF wf_sample_log h, of OpenFails] by simp
qed

text \<open>
  A write cut short inside the entries loses only a suffix of them: whatever prefix of
  the file reached the disk past the snapshot, \<open>open_file\<close> recovers the whole snapshot and
  a prefix of the entries, never a wrong entry.
\<close>

lemma torn_log_keeps_prefix:
  assumes "wf_log l" and "24 + length (snapshot_data l) \<le> n"
  shows "\<exists>k. open_log w (log_path l) (snd (persist_log (StopsAfter n) l d)) =
    (None, l\<lparr>entries := take k (entries l)\<rparr>, snd (persist_log (StopsAfter n) l d))"
proof -
  let ?body = "concat (map encode_entry (entries l))"
  have written: "snd (persist_log (StopsAfter n) l d) (log_path l) =
      Some (encode_header l @ take (n - length (encode_header l)) ?body)"
    using assms by (simp add: persist_log_def write_file_def encode_log_def length_encode_header)
  obtain k where "read_entries (take (n - length (encode_header l)) ?body) = take k (entries l)"
    using read_entries_torn [of "entries l"] assms(1) by (auto simp: wf_log_def)
  then have "open_log w (log_path l) (snd (persist_log (StopsAfter n) l d)) =
      (None, l\<lparr>entries := take k (entries l)\<rparr>, snd (persist_log (StopsAfter n) l d))"
    using written assms(1) by (simp add: open_log_def parse_log_header new_log_def Let_def)
  then show ?thesis ..
qed

lemma take_encode_header:
  assumes "wf_log l" and "24 \<le> n" and "n < 24 + length (snapshot_data l)"
  shows "take n (encode_log l) = put_u32 kMagic @ put_u64 (snapshot_last_index l) @
    put_u64 (snapshot_last_term l) @ put_u32 (length (snapshot_data l)) @ take (n - 24) (snapshot_data l)"
proof -
  from assms(1) have len: "u32 (length (snapshot_data l)) = length (snapshot_data l)"
    by (simp add: wf_log_def wrap_simps)
  have "take m (put_u32 a @ put_u64 b @ put_u64 c @ put_u32 e @ xs) =
      put_u32 a @ put_u64 b @ put_u64 c @ put_u32 e @ take (m - 24) xs" if "24 \<le> m" for a b c e m xs
    using that by simp
  with assms show ?thesis
    by (simp add: encode_log_def encode_header_def len)
qed

text \<open>
  A write cut short inside the snapshot keeps the snapshot's index but not its data.
  After such a crash \<open>open_file\<close> yields a log that claims to be compacted up to the new
  index while its snapshot data is empty and every entry is gone, and it writes that
  back: the "start fresh" branch keeps the fields it has already read.
\<close>

lemma torn_snapshot_keeps_index:
  assumes "wf_log l" and "24 \<le> n" and "n < 24 + length (snapshot_data l)"
  shows "fst (snd (open_log WriteOk (log_path l) (snd (persist_log (StopsAfter n) l d)))) =
    l\<lparr>entries := [], snapshot_data := ''''\<rparr>"
proof -
  have written: "snd (persist_log (StopsAfter n) l d) (log_path l) = Some (take n (encode_log l))"
    by (simp add: persist_log_def write_file_def)
  from assms(1) have len: "u32 (length (snapshot_data l)) = length (snapshot_data l)"
    and idx: "u64 (snapshot_last_index l) = snapshot_last_index l"
    and trm: "u64 (snapshot_last_term l) = snapshot_last_term l"
    by (simp_all add: wf_log_def wrap_simps)
  have magic: "u32 kMagic = kMagic" by (simp add: kMagic_def u32_def)
  have d16: "drop 16 (put_u64 a @ put_u64 b @ cs) = cs" for a b cs by simp
  have d20: "drop 20 (put_u64 a @ put_u64 b @ put_u32 c @ cs) = cs" for a b c cs by simp
  have "parse_log (take n (encode_log l)) (new_log\<lparr>log_path := log_path l\<rparr>) =
      (True, l\<lparr>entries := [], snapshot_data := ''''\<rparr>)"
    using assms(2,3)
    by (simp add: take_encode_header [OF assms] parse_log_def len idx trm magic d16 d20 Let_def
        del: drop_append) (simp add: new_log_def)
  with written show ?thesis by (simp add: open_log_def Let_def split: prod.splits)
qed

text \<open>
  Compaction does not change the index space.  Compacting at an index the log holds,
  with the term the log has there, keeps the last index and the last term, keeps term and
  command at every later index, keeps \<open>has_entry_at\<close> everywhere, and makes the commands up
  to that index unreadable.
\<close>

lemma compact_preserves_view:
  assumes "wf_log l" and "snapshot_last_index l < n" and "n \<le> last_index l"
  shows "let l' = compact_log n (term_at l n) data l in
    last_index l' = last_index l \<and> last_term l' = last_term l \<and> term_at l' n = term_at l n \<and>
    (\<forall>i. n < i \<longrightarrow> term_at l' i = term_at l i \<and> command_at l' i = command_at l i) \<and>
    (\<forall>i. has_entry_at l' i = has_entry_at l i) \<and>
    (\<forall>i. i \<le> n \<longrightarrow> command_at l' i = '''')"
proof -
  define l' where "l' = compact_log n (term_at l n) data l"
  from assms(1-3) have last: "last_index l' = last_index l"
    by (simp add: l'_def last_index_wf) (simp add: last_index_def wf_log_def u64_id)
  have terms: "snapshot_last_term l' = term_at l n"
    using assms(2) by (simp add: l'_def compact_log_def Let_def)
  have "last_term l' = last_term l"
  proof (cases "n = last_index l")
    case True
    with assms(1,2) have "entries l' = []" by (simp add: l'_def last_index_wf)
    with True assms(1,2) show ?thesis using term_at_last [of l] by (simp add: last_term_def terms)
  next
    case False
    with assms(1-3) have "n - snapshot_last_index l < length (entries l)" by (auto simp: last_index_wf)
    then show ?thesis by (auto simp: l'_def last_term_def)
  qed
  moreover have "term_at l' i = term_at l i \<and> command_at l' i = command_at l i" if "n < i" for i
    using that assms(1-3) by (auto simp: term_at_def command_at_def last last_index_wf)
      (simp_all add: l'_def)
  moreover have "term_at l' n = term_at l n"
    using assms(2,3) by (simp add: term_at_def [of l'] last terms) (simp add: l'_def)
  moreover have "command_at l' i = ''''" if "i \<le> n" for i
    using that assms(2) by (simp add: command_at_def l'_def)
  ultimately show ?thesis by (simp add: has_entry_at_def last Let_def flip: l'_def)
qed

text \<open>
  \<open>truncate_and_append\<close> implements "keep the first \<open>k\<close> entries, then append": for a
  \<open>k\<close> the log reaches, every index up to \<open>k\<close> past the snapshot reads as before, the next
  ones read the new entries, and everything after them is gone; entries the snapshot
  covers stay compacted.  In particular nothing past the last new entry survives, even if
  it did not conflict.
\<close>

lemma truncate_and_append_view:
  assumes "wf_log l" and "k \<le> last_index l" and "k + length es < 2 ^ 64"
  shows "entry_at (truncate_and_append k es l) i =
    (if i \<le> snapshot_last_index l then None else if i \<le> k then entry_at l i
     else if i \<le> k + length es then Some (es ! (i - k - 1)) else None)"
  using assms by (simp add: entry_at_cut last_index_wf)

text \<open>
  A log written in the old format (no magic, no header) opens as the same entries with
  an empty snapshot, and the next \<open>persist\<close> migrates it: reopening the rewritten file gives
  the same log.  The only files excluded are those whose first four bytes happen to be the
  magic number.
\<close>

lemma old_format_migrates:
  assumes "\<forall>e \<in> set es. wf_entry e" and "length es < 2 ^ 64"
    and "get_u32 (concat (map encode_entry es)) \<noteq> kMagic"
  shows "open_log w path (d(path \<mapsto> concat (map encode_entry es))) =
           (None, new_log\<lparr>log_path := path, entries := es\<rparr>, d(path \<mapsto> concat (map encode_entry es))) \<and>
         open_log w path (snd (persist_log WriteOk (new_log\<lparr>log_path := path, entries := es\<rparr>) d)) =
           (None, new_log\<lparr>log_path := path, entries := es\<rparr>,
            snd (persist_log WriteOk (new_log\<lparr>log_path := path, entries := es\<rparr>) d))"
proof -
  let ?l = "new_log\<lparr>log_path := path, entries := es\<rparr>"
  have wf: "wf_log ?l" using assms by (simp add: wf_log_def new_log_def)
  have "parse_log (concat (map encode_entry es)) (new_log\<lparr>log_path := path\<rparr>) = (False, ?l)"
    using assms by (simp add: parse_log_def read_entries_encode)
  then show ?thesis
    using parse_encode_log [OF wf]
    by (simp add: open_log_def persist_log_def write_file_def Let_def)
qed

end
