(* ===== verification/Raft_Node.thy ===== *)
theory Raft_Node
  imports Raft_Log
begin

text \<open>
  \<^verbatim>\<open>cluster/raft_node.hpp\<close>: one Raft node.  Every critical section of the code (a region
  under \<open>mutex_\<close>) is one function from the node to the new node; what happens between
  two critical sections (an RPC, a sleep) is left to the caller, so the interleavings are
  those of \<open>Raft_Cluster\<close>.  Writes to the state and log files are taken to succeed here;
  what a failed write does is in \<open>Raft_State\<close> and \<open>Raft_Log\<close>.  Time is a number of
  milliseconds read from the clock, and the randomised election timeout is the value the
  generator returned.
\<close>

section \<open>Data\<close>

datatype role_t = Follower | Candidate | Leader

record raft_peer =
  node_id :: int
  host :: string
  port :: int

definition peer_address :: "raft_peer \<Rightarrow> string" where
  "peer_address p = host p @ '':'' @ to_string (port p)"

text \<open>The messages of \<^verbatim>\<open>proto/raft.proto\<close>.\<close>

record log_entry =
  le_term :: nat
  le_index :: nat
  le_command :: string

record request_vote_request =
  rv_term :: nat
  candidate_id :: int
  rv_last_log_index :: nat
  rv_last_log_term :: nat

record request_vote_response =
  rvr_term :: nat
  vote_granted :: bool

record append_entries_request =
  ae_term :: nat
  ae_leader_id :: int
  prev_log_index :: nat
  prev_log_term :: nat
  ae_entries :: "log_entry list"
  leader_commit :: nat

record append_entries_response =
  aer_term :: nat
  success :: bool

record install_snapshot_request =
  is_term :: nat
  is_leader_id :: int
  last_included_index :: nat
  last_included_term :: nat
  is_data :: string

record install_snapshot_response =
  isr_term :: nat

record raft_node =
  self_id :: int
  peers :: "raft_peer list"
  rn_state :: persistent_state
  rn_log :: raft_log
  role :: role_t
  leader_id :: int
  commit_index :: nat
  last_applied :: nat
  applied_commands :: "string list"
  next_index :: "(int, nat) omap"
  match_index :: "(int, nat) omap"
  election_deadline :: nat
  next_heartbeat :: nat

text \<open>The keys of \<open>stubs_\<close>: the other peers' ids, each once, in increasing order.\<close>

definition stub_ids :: "raft_node \<Rightarrow> int list" where
  "stub_ids n = sort (remdups (filter (\<lambda>i. i \<noteq> self_id n) (map node_id (peers n))))"

abbreviation cur_term :: "raft_node \<Rightarrow> nat" where
  "cur_term n \<equiv> current_term (rn_state n)"

abbreviation vote :: "raft_node \<Rightarrow> int" where
  "vote n \<equiv> voted_for (rn_state n)"

definition ELECTION_TIMEOUT_MIN_MS :: nat where "ELECTION_TIMEOUT_MIN_MS = 300"
definition ELECTION_TIMEOUT_MAX_MS :: nat where "ELECTION_TIMEOUT_MAX_MS = 600"
definition HEARTBEAT_INTERVAL_MS :: nat where "HEARTBEAT_INTERVAL_MS = 50"

text \<open>What the environment supplies to a critical section: the clock and the drawn timeout.\<close>

record clock =
  now :: nat
  draw :: nat

definition draw_ok :: "clock \<Rightarrow> bool" where
  "draw_ok c \<longleftrightarrow> ELECTION_TIMEOUT_MIN_MS \<le> draw c \<and> draw c \<le> ELECTION_TIMEOUT_MAX_MS"

section \<open>Commit index\<close>

text \<open>
  \<open>compute_new_commit_index\<close>: the value at position \<open>majority - 1\<close> of the match indices
  (the leader's own last index among them) in decreasing order.
\<close>

definition compute_new_commit_index ::
  "nat \<Rightarrow> (int, nat) omap \<Rightarrow> nat \<Rightarrow> nat \<Rightarrow> nat \<Rightarrow> (nat \<Rightarrow> nat) \<Rightarrow> nat outcome" where
  "compute_new_commit_index leader_last_index match cluster_size current_commit_index term term_at_fn =
     (let match_values = rev (sort (leader_last_index # map snd match))
      in bind_outcome (vector_at match_values (majority cluster_size - 1)) (\<lambda>candidate_n.
           Returns (if candidate_n > current_commit_index \<and> term_at_fn candidate_n = term
                    then candidate_n else current_commit_index)))"

function apply_committed_entries_locked :: "raft_node \<Rightarrow> raft_node" where
  "apply_committed_entries_locked n =
     (if last_applied n < commit_index n then
        let i = last_applied n + 1;
            cmd = command_at (rn_log n) i
        in apply_committed_entries_locked
             (n\<lparr>last_applied := i,
                applied_commands := (if cmd \<noteq> '''' then applied_commands n @ [cmd]
                                     else applied_commands n)\<rparr>)
      else n)"
  by pat_completeness auto
termination by (relation "measure (\<lambda>n. commit_index n - last_applied n)") auto

declare apply_committed_entries_locked.simps [simp del]

definition advance_commit_index_locked :: "raft_node \<Rightarrow> raft_node outcome" where
  "advance_commit_index_locked n =
     bind_outcome
       (compute_new_commit_index (last_index (rn_log n)) (match_index n) (length (peers n))
          (commit_index n) (cur_term n) (term_at (rn_log n)))
       (\<lambda>new_commit.
          Returns (if new_commit > commit_index n
                   then apply_committed_entries_locked (n\<lparr>commit_index := new_commit\<rparr>) else n))"

section \<open>Roles and timers\<close>

definition become_follower_locked :: "nat \<Rightarrow> raft_node \<Rightarrow> raft_node" where
  "become_follower_locked new_term n =
     n\<lparr>rn_state := ps_set new_term (- 1) (rn_state n), role := Follower\<rparr>"

definition reset_election_deadline_locked :: "clock \<Rightarrow> raft_node \<Rightarrow> raft_node" where
  "reset_election_deadline_locked c n = n\<lparr>election_deadline := now c + draw c\<rparr>"

text \<open>
  The constructor: open both files, start as a follower that has applied what the
  snapshot covers.
\<close>

definition RaftNode ::
  "write_outcome \<Rightarrow> write_outcome \<Rightarrow> clock \<Rightarrow> int \<Rightarrow> raft_peer list \<Rightarrow> string \<Rightarrow> string \<Rightarrow> disk
   \<Rightarrow> io_error option \<times> raft_node \<times> disk" where
  "RaftNode w1 w2 c nid ps state_file log_file d =
     (let (err1, st, d1) = open_state w1 state_file new_state d;
          (err2, lg, d2) = (if err1 = None then open_log w2 log_file d1 else (None, new_log, d1));
          n = \<lparr>self_id = nid, peers = ps, rn_state = st, rn_log = lg, role = Follower,
               leader_id = - 1, commit_index = snapshot_last_index lg,
               last_applied = snapshot_last_index lg, applied_commands = [],
               next_index = [], match_index = [], election_deadline = 0, next_heartbeat = 0\<rparr>
      in (if err1 = None then err2 else err1, reset_election_deadline_locked c n, d2))"

text \<open>The critical section of one iteration of \<open>tick_loop\<close>.\<close>

definition tick :: "clock \<Rightarrow> raft_node \<Rightarrow> (bool \<times> bool) \<times> raft_node" where
  "tick c n =
     (if role n \<noteq> Leader \<and> now c \<ge> election_deadline n then ((True, False), n)
      else if role n = Leader \<and> now c \<ge> next_heartbeat n
      then ((False, True), n\<lparr>next_heartbeat := now c + HEARTBEAT_INTERVAL_MS\<rparr>)
      else ((False, False), n))"

section \<open>RPC handlers\<close>

text \<open>The first line of all three handlers: a higher term makes the node a follower of that term.\<close>

definition observe_term :: "nat \<Rightarrow> raft_node \<Rightarrow> raft_node" where
  "observe_term t n = (if t > cur_term n then become_follower_locked t n else n)"

definition handle_request_vote ::
  "clock \<Rightarrow> request_vote_request \<Rightarrow> raft_node \<Rightarrow> request_vote_response \<times> raft_node" where
  "handle_request_vote c req n =
     (let n = observe_term (rv_term req) n;
          deny = \<lparr>rvr_term = cur_term n, vote_granted = False\<rparr>
      in if rv_term req < cur_term n then (deny, n)
         else
           let can_vote = (vote n = - 1 \<or> vote n = candidate_id req);
               log_ok = (rv_last_log_term req > last_term (rn_log n) \<or>
                         (rv_last_log_term req = last_term (rn_log n) \<and>
                          rv_last_log_index req \<ge> last_index (rn_log n)))
           in if can_vote \<and> log_ok
              then (\<lparr>rvr_term = cur_term n, vote_granted = True\<rparr>,
                    reset_election_deadline_locked c
                      (n\<lparr>rn_state := ps_set (cur_term n) (candidate_id req) (rn_state n)\<rparr>))
              else (deny, n))"

text \<open>
  \<open>handle_append_entries\<close> in three parts: the consistency check on the previous entry, the
  part that stores the entries and follows the leader's commit index, and the handler.
\<close>

definition prev_mismatch :: "append_entries_request \<Rightarrow> raft_log \<Rightarrow> bool" where
  "prev_mismatch req l \<longleftrightarrow>
     prev_log_index req > 0 \<and> prev_log_index req > snapshot_last_index l \<and>
     (\<not> has_real_entry_at l (prev_log_index req) \<or>
      term_at l (prev_log_index req) \<noteq> prev_log_term req)"

definition to_persisted :: "log_entry \<Rightarrow> persisted_entry" where
  "to_persisted e = \<lparr>entry_term = le_term e, command = le_command e\<rparr>"

definition store_entries :: "append_entries_request \<Rightarrow> raft_node \<Rightarrow> raft_node" where
  "store_entries req n =
     (let new_entries = map to_persisted (ae_entries req);
          n = (if new_entries \<noteq> []
               then n\<lparr>rn_log := truncate_and_append (prev_log_index req) new_entries (rn_log n)\<rparr>
               else n)
      in if leader_commit req > commit_index n
         then apply_committed_entries_locked
                (n\<lparr>commit_index := min (leader_commit req) (last_index (rn_log n))\<rparr>)
         else n)"

definition handle_append_entries ::
  "clock \<Rightarrow> append_entries_request \<Rightarrow> raft_node \<Rightarrow> append_entries_response \<times> raft_node" where
  "handle_append_entries c req n =
     (let n = observe_term (ae_term req) n;
          fail = \<lparr>aer_term = cur_term n, success = False\<rparr>
      in if ae_term req < cur_term n then (fail, n)
         else
           let n = reset_election_deadline_locked c (n\<lparr>role := Follower, leader_id := ae_leader_id req\<rparr>)
           in if prev_mismatch req (rn_log n) then (fail, n)
              else (\<lparr>aer_term = cur_term n, success = True\<rparr>, store_entries req n))"

text \<open>\<open>handle_install_snapshot\<close>: the part that installs a newer snapshot, and the handler.\<close>

definition adopt_snapshot :: "install_snapshot_request \<Rightarrow> raft_node \<Rightarrow> raft_node" where
  "adopt_snapshot req n =
     (let old_snap = snapshot_last_index (rn_log n);
          new_snap = last_included_index req;
          trim_count = (if new_snap > old_snap then new_snap - old_snap else 0);
          trim_count = min trim_count (length (applied_commands n))
      in n\<lparr>applied_commands := drop trim_count (applied_commands n),
           last_applied := max new_snap (last_applied n),
           commit_index := max new_snap (commit_index n),
           rn_log := compact_log new_snap (last_included_term req) (is_data req) (rn_log n)\<rparr>)"

definition handle_install_snapshot ::
  "clock \<Rightarrow> install_snapshot_request \<Rightarrow> raft_node \<Rightarrow> install_snapshot_response \<times> raft_node" where
  "handle_install_snapshot c req n =
     (let n = observe_term (is_term req) n;
          resp = \<lparr>isr_term = cur_term n\<rparr>
      in if is_term req < cur_term n then (resp, n)
         else
           let n = reset_election_deadline_locked c (n\<lparr>role := Follower, leader_id := is_leader_id req\<rparr>)
           in if last_included_index req \<le> snapshot_last_index (rn_log n) then (resp, n)
              else (resp, adopt_snapshot req n))"

text \<open>\<open>RaftNode::compact\<close>, called by the coordinator with its serialised state.\<close>

definition compact :: "nat \<Rightarrow> string \<Rightarrow> raft_node \<Rightarrow> bool \<times> raft_node" where
  "compact up_to_index data n =
     (let old_snap = snapshot_last_index (rn_log n) in
      if up_to_index \<le> old_snap then (False, n)
      else if up_to_index > last_applied n then (False, n)
      else
        let trim_count = up_to_index - old_snap in
        if trim_count > length (applied_commands n) then (False, n)
        else (True, n\<lparr>applied_commands := drop trim_count (applied_commands n),
                      rn_log := compact_log up_to_index (term_at (rn_log n) up_to_index) data (rn_log n)\<rparr>))"

record node_status =
  st_node_id :: int
  st_role :: string
  st_term :: nat
  st_leader_id :: int
  st_log_length :: nat
  st_commit_index :: nat
  st_applied_commands :: "string list"
  st_snapshot_last_index :: nat
  st_snapshot_data :: string

definition status :: "raft_node \<Rightarrow> node_status" where
  "status n = \<lparr>st_node_id = self_id n,
     st_role = (case role n of Leader \<Rightarrow> ''leader'' | Candidate \<Rightarrow> ''candidate'' | Follower \<Rightarrow> ''follower''),
     st_term = cur_term n, st_leader_id = leader_id n,
     st_log_length = last_index (rn_log n), st_commit_index = commit_index n,
     st_applied_commands = applied_commands n,
     st_snapshot_last_index = snapshot_last_index (rn_log n),
     st_snapshot_data = snapshot_data (rn_log n)\<rparr>"

section \<open>Proposals\<close>

text \<open>
  The first critical section of \<open>propose\<close>: \<open>None\<close> is the early \<open>return false\<close> of a node that
  is not the leader, otherwise the index and term the entry got.
\<close>

definition propose_begin :: "string \<Rightarrow> raft_node \<Rightarrow> ((nat \<times> nat) option \<times> raft_node) outcome" where
  "propose_begin cmd n =
     (if role n \<noteq> Leader then Returns (None, n)
      else
        let my_term = cur_term n;
            n = n\<lparr>rn_log := append_log my_term cmd (rn_log n)\<rparr>;
            my_index = last_index (rn_log n)
        in bind_outcome (advance_commit_index_locked n) (\<lambda>n. Returns (Some (my_index, my_term), n)))"

text \<open>One turn of the waiting loop: \<open>None\<close> keeps waiting.\<close>

definition propose_poll :: "nat \<Rightarrow> nat \<Rightarrow> raft_node \<Rightarrow> bool option" where
  "propose_poll my_index my_term n =
     (if role n \<noteq> Leader \<or> cur_term n \<noteq> my_term then Some False
      else if commit_index n \<ge> my_index then Some True
      else None)"

text \<open>The loop, over the node as it is at each turn before the deadline.\<close>

fun propose_wait :: "nat \<Rightarrow> nat \<Rightarrow> raft_node list \<Rightarrow> bool" where
  "propose_wait my_index my_term [] = False"
| "propose_wait my_index my_term (n # ns) =
     (case propose_poll my_index my_term n of
        Some b \<Rightarrow> b
      | None \<Rightarrow> propose_wait my_index my_term ns)"

section \<open>Elections\<close>

text \<open>The local variables of \<open>start_election\<close> that outlive its first critical section.\<close>

record election =
  election_term :: nat
  el_last_log_index :: nat
  el_last_log_term :: nat

definition election_begin :: "clock \<Rightarrow> raft_node \<Rightarrow> election \<times> raft_node" where
  "election_begin c n =
     (let n = n\<lparr>rn_state := ps_set (u64 (cur_term n + 1)) (self_id n) (rn_state n),
                role := Candidate, leader_id := - 1\<rparr>
      in (\<lparr>election_term = cur_term n, el_last_log_index = last_index (rn_log n),
            el_last_log_term = last_term (rn_log n)\<rparr>,
          reset_election_deadline_locked c n))"

definition vote_request :: "election \<Rightarrow> raft_node \<Rightarrow> request_vote_request" where
  "vote_request e n = \<lparr>rv_term = election_term e, candidate_id = self_id n,
     rv_last_log_index = el_last_log_index e, rv_last_log_term = el_last_log_term e\<rparr>"

text \<open>
  What the asynchronous task does with the answer to one \<open>RequestVote\<close> (\<open>None\<close>: the call
  failed or timed out), and whether it counts as a vote.
\<close>

definition on_vote_response ::
  "election \<Rightarrow> request_vote_response option \<Rightarrow> raft_node \<Rightarrow> bool \<times> raft_node" where
  "on_vote_response e resp n =
     (case resp of
        None \<Rightarrow> (False, n)
      | Some r \<Rightarrow>
          if rvr_term r > election_term e
          then (False, if rvr_term r > cur_term n then become_follower_locked (rvr_term r) n else n)
          else (vote_granted r, n))"

text \<open>The last critical section, with the number of tasks that returned \<open>true\<close>.\<close>

definition election_finish :: "clock \<Rightarrow> election \<Rightarrow> nat \<Rightarrow> raft_node \<Rightarrow> raft_node" where
  "election_finish c e granted n =
     (let votes = 1 + granted in
      if role n = Candidate \<and> cur_term n = election_term e \<and> votes \<ge> majority (length (peers n))
      then
        let nxt = u64 (last_index (rn_log n) + 1)
        in n\<lparr>role := Leader, leader_id := self_id n,
             next_index := map (\<lambda>p. (p, nxt)) (stub_ids n),
             match_index := map (\<lambda>p. (p, 0)) (stub_ids n),
             next_heartbeat := now c\<rparr>
      else n)"

section \<open>Replication\<close>

text \<open>
  \<open>replicate_to_followers\<close>: the term, and per peer the next index, that the sending tasks
  get.  \<open>next_index_snapshot.at(peer)\<close> throws for a missing peer: \<open>Undefined\<close>.
\<close>

definition replicate_to_followers :: "raft_node \<Rightarrow> (nat \<times> (int \<times> nat) list) option outcome" where
  "replicate_to_followers n =
     (if role n \<noteq> Leader then Returns None
      else if \<forall>p \<in> set (stub_ids n). map_of (next_index n) p \<noteq> None
      then Returns (Some (cur_term n, map (\<lambda>p. (p, the (map_of (next_index n) p))) (stub_ids n)))
      else Undefined)"

datatype send_decision = SendNothing | SendSnapshot install_snapshot_request | SendEntries

definition snapshot_request :: "nat \<Rightarrow> raft_node \<Rightarrow> install_snapshot_request" where
  "snapshot_request term n = \<lparr>is_term = term, is_leader_id = self_id n,
     last_included_index = snapshot_last_index (rn_log n),
     last_included_term = snapshot_last_term (rn_log n), is_data = snapshot_data (rn_log n)\<rparr>"

definition send_decide :: "nat \<Rightarrow> nat \<Rightarrow> raft_node \<Rightarrow> send_decision" where
  "send_decide term next_idx n =
     (let prev = u64_sub next_idx 1 in
      if role n \<noteq> Leader \<or> cur_term n \<noteq> term then SendNothing
      else if prev < snapshot_last_index (rn_log n) then SendSnapshot (snapshot_request term n)
      else SendEntries)"

text \<open>The second critical section of \<open>send_append_entries_to_peer\<close>, which fills the request.\<close>

definition build_append_entries :: "nat \<Rightarrow> nat \<Rightarrow> raft_node \<Rightarrow> append_entries_request option" where
  "build_append_entries term next_idx n =
     (let prev = u64_sub next_idx 1; l = rn_log n in
      if role n \<noteq> Leader \<or> cur_term n \<noteq> term then None
      else Some \<lparr>ae_term = term, ae_leader_id = self_id n, prev_log_index = prev,
                  prev_log_term = term_at l prev,
                  ae_entries = map (\<lambda>i. \<lparr>le_term = term_at l i, le_index = i, le_command = command_at l i\<rparr>)
                                 [next_idx..<Suc (last_index l)],
                  leader_commit = commit_index n\<rparr>)"

definition on_append_response ::
  "nat \<Rightarrow> int \<Rightarrow> nat \<Rightarrow> nat \<Rightarrow> append_entries_response \<Rightarrow> raft_node \<Rightarrow> raft_node outcome" where
  "on_append_response term peer prev n_entries_sent resp n =
     (if aer_term resp > cur_term n then Returns (become_follower_locked (aer_term resp) n)
      else if role n \<noteq> Leader \<or> cur_term n \<noteq> term then Returns n
      else if success resp then
        let new_match = u64 (prev + n_entries_sent);
            m = om_touch peer (match_index n);
            m = (if new_match > om_at m peer then om_set peer new_match m else m)
        in advance_commit_index_locked
             (n\<lparr>match_index := m, next_index := om_set peer (u64 (new_match + 1)) (next_index n)\<rparr>)
      else
        let nx = om_touch peer (next_index n)
        in Returns (n\<lparr>next_index := (if om_at nx peer > 1 then om_set peer (om_at nx peer - 1) nx else nx)\<rparr>))"

definition on_snapshot_response ::
  "nat \<Rightarrow> int \<Rightarrow> nat \<Rightarrow> install_snapshot_response \<Rightarrow> raft_node \<Rightarrow> raft_node" where
  "on_snapshot_response term peer snap_idx resp n =
     (if isr_term resp > cur_term n then become_follower_locked (isr_term resp) n
      else if role n \<noteq> Leader \<or> cur_term n \<noteq> term then n
      else
        let m = om_touch peer (match_index n)
        in if snap_idx > om_at m peer
           then n\<lparr>match_index := om_set peer snap_idx m,
                  next_index := om_set peer (u64 (snap_idx + 1)) (next_index n)\<rparr>
           else n\<lparr>match_index := m\<rparr>)"

section \<open>One step of one node\<close>

text \<open>
  The critical sections of a node as events, each with the message, the clock reading and
  the thread-local variables it works on.  \<open>exec\<close> runs one.  \<open>event_ok\<close> is what the code
  around the critical section guarantees: an election starts only if the tick found no
  leader role, answers come from a peer that has a stub, and the 64-bit term and index
  counters do not reach their end.
\<close>

datatype node_event =
    Tick clock
  | RequestVote clock request_vote_request
  | AppendEntries clock append_entries_request
  | InstallSnapshot clock install_snapshot_request
  | Compact nat string
  | Propose string
  | ElectionBegin clock
  | VoteResponse election "request_vote_response option"
  | ElectionFinish clock election nat
  | AppendResponse nat int nat nat append_entries_response
  | SnapshotResponse nat int nat install_snapshot_response

fun exec :: "node_event \<Rightarrow> raft_node \<Rightarrow> raft_node outcome" where
  "exec (Tick c) n = Returns (snd (tick c n))"
| "exec (RequestVote c rv) n = Returns (snd (handle_request_vote c rv n))"
| "exec (AppendEntries c ae) n = Returns (snd (handle_append_entries c ae n))"
| "exec (InstallSnapshot c isq) n = Returns (snd (handle_install_snapshot c isq n))"
| "exec (Compact up_to data) n = Returns (snd (compact up_to data n))"
| "exec (Propose cmd) n = bind_outcome (propose_begin cmd n) (\<lambda>r. Returns (snd r))"
| "exec (ElectionBegin c) n = Returns (snd (election_begin c n))"
| "exec (VoteResponse e resp) n = Returns (snd (on_vote_response e resp n))"
| "exec (ElectionFinish c e granted) n = Returns (election_finish c e granted n)"
| "exec (AppendResponse trm peer prev sent ar) n = on_append_response trm peer prev sent ar n"
| "exec (SnapshotResponse trm peer snap_idx sr) n = Returns (on_snapshot_response trm peer snap_idx sr n)"

fun event_ok :: "node_event \<Rightarrow> raft_node \<Rightarrow> bool" where
  "event_ok (ElectionBegin c) n \<longleftrightarrow> role n \<noteq> Leader \<and> cur_term n + 1 < 2 ^ 64"
| "event_ok (ElectionFinish c e granted) n \<longleftrightarrow> last_index (rn_log n) + 1 < 2 ^ 64"
| "event_ok (AppendResponse trm peer prev sent ar) n \<longleftrightarrow> peer \<in> set (stub_ids n) \<and> prev + sent + 1 < 2 ^ 64"
| "event_ok (SnapshotResponse trm peer snap_idx sr) n \<longleftrightarrow> peer \<in> set (stub_ids n) \<and> snap_idx + 1 < 2 ^ 64"
| "event_ok _ n \<longleftrightarrow> True"

section \<open>Applying committed entries\<close>

text \<open>
  The loop in closed form: it moves \<open>last_applied\<close> up to \<open>commit_index\<close> and queues the
  non-empty commands in between, in order.
\<close>

lemma apply_committed_closed:
  "apply_committed_entries_locked n =
     n\<lparr>last_applied := max (last_applied n) (commit_index n),
       applied_commands := applied_commands n @
         filter (\<lambda>cmd. cmd \<noteq> '''') (map (command_at (rn_log n)) [Suc (last_applied n)..<Suc (commit_index n)])\<rparr>"
proof (induction n rule: apply_committed_entries_locked.induct)
  case (1 n)
  show ?case
  proof (cases "last_applied n < commit_index n")
    case True
    then have "[Suc (last_applied n)..<Suc (commit_index n)] =
        Suc (last_applied n) # [Suc (Suc (last_applied n))..<Suc (commit_index n)]"
      by (intro upt_conv_Cons) simp
    with True 1 show ?thesis
      by (subst apply_committed_entries_locked.simps) (simp add: Let_def max_def del: upt_Suc)
  next
    case False
    then show ?thesis by (subst apply_committed_entries_locked.simps) (simp add: max_def del: upt_Suc)
  qed
qed

lemma apply_committed_frame [simp]:
  "self_id (apply_committed_entries_locked n) = self_id n"
  "peers (apply_committed_entries_locked n) = peers n"
  "rn_state (apply_committed_entries_locked n) = rn_state n"
  "rn_log (apply_committed_entries_locked n) = rn_log n"
  "role (apply_committed_entries_locked n) = role n"
  "leader_id (apply_committed_entries_locked n) = leader_id n"
  "commit_index (apply_committed_entries_locked n) = commit_index n"
  "next_index (apply_committed_entries_locked n) = next_index n"
  "match_index (apply_committed_entries_locked n) = match_index n"
  "last_applied (apply_committed_entries_locked n) = max (last_applied n) (commit_index n)"
  by (simp_all add: apply_committed_closed del: upt_Suc)

text \<open>What storing entries leaves alone.\<close>

lemma store_entries_frame [simp]:
  "self_id (store_entries req n) = self_id n" "peers (store_entries req n) = peers n"
  "rn_state (store_entries req n) = rn_state n" "role (store_entries req n) = role n"
  "leader_id (store_entries req n) = leader_id n"
  "next_index (store_entries req n) = next_index n" "match_index (store_entries req n) = match_index n"
  by (simp_all add: store_entries_def Let_def)

text \<open>Committing never touches anything but the commit point and what follows from it.\<close>

lemma advance_commit_frame:
  assumes "advance_commit_index_locked n = Returns n'"
  shows "self_id n' = self_id n" "peers n' = peers n" "rn_state n' = rn_state n" "rn_log n' = rn_log n"
    "role n' = role n" "next_index n' = next_index n" "match_index n' = match_index n"
    "leader_id n' = leader_id n" "commit_index n \<le> commit_index n'"
  using assms by (auto simp: advance_commit_index_locked_def split: if_splits)

lemma become_follower_simps [simp]:
  "cur_term (become_follower_locked t n) = t" "vote (become_follower_locked t n) = - 1"
  "role (become_follower_locked t n) = Follower" "rn_log (become_follower_locked t n) = rn_log n"
  "self_id (become_follower_locked t n) = self_id n" "peers (become_follower_locked t n) = peers n"
  "commit_index (become_follower_locked t n) = commit_index n"
  "last_applied (become_follower_locked t n) = last_applied n"
  "applied_commands (become_follower_locked t n) = applied_commands n"
  "next_index (become_follower_locked t n) = next_index n"
  "match_index (become_follower_locked t n) = match_index n"
  by (simp_all add: become_follower_locked_def)

lemma reset_deadline_simps [simp]:
  "rn_state (reset_election_deadline_locked c n) = rn_state n"
  "role (reset_election_deadline_locked c n) = role n"
  "rn_log (reset_election_deadline_locked c n) = rn_log n"
  "self_id (reset_election_deadline_locked c n) = self_id n"
  "peers (reset_election_deadline_locked c n) = peers n"
  "commit_index (reset_election_deadline_locked c n) = commit_index n"
  "last_applied (reset_election_deadline_locked c n) = last_applied n"
  "applied_commands (reset_election_deadline_locked c n) = applied_commands n"
  "next_index (reset_election_deadline_locked c n) = next_index n"
  "match_index (reset_election_deadline_locked c n) = match_index n"
  "leader_id (reset_election_deadline_locked c n) = leader_id n"
  by (simp_all add: reset_election_deadline_locked_def)

lemma observe_term_simps [simp]:
  "cur_term (observe_term t n) = max t (cur_term n)"
  "vote (observe_term t n) = (if t > cur_term n then - 1 else vote n)"
  "rn_log (observe_term t n) = rn_log n" "self_id (observe_term t n) = self_id n"
  "peers (observe_term t n) = peers n" "commit_index (observe_term t n) = commit_index n"
  "last_applied (observe_term t n) = last_applied n"
  "applied_commands (observe_term t n) = applied_commands n"
  "next_index (observe_term t n) = next_index n" "match_index (observe_term t n) = match_index n"
  "role (observe_term t n) = (if t > cur_term n then Follower else role n)"
  by (simp_all add: observe_term_def max_def)

lemma adopt_snapshot_frame [simp]:
  "self_id (adopt_snapshot req n) = self_id n" "peers (adopt_snapshot req n) = peers n"
  "rn_state (adopt_snapshot req n) = rn_state n" "role (adopt_snapshot req n) = role n"
  "next_index (adopt_snapshot req n) = next_index n" "match_index (adopt_snapshot req n) = match_index n"
  "last_applied (adopt_snapshot req n) = max (last_included_index req) (last_applied n)"
  "commit_index (adopt_snapshot req n) = max (last_included_index req) (commit_index n)"
  "rn_log (adopt_snapshot req n) =
     compact_log (last_included_index req) (last_included_term req) (is_data req) (rn_log n)"
  by (simp_all add: adopt_snapshot_def Let_def)

section \<open>Terms, votes and identity\<close>

text \<open>
  What no step of a node undoes: its identity, its term, and its vote within a term.
\<close>

definition term_vote_le :: "raft_node \<Rightarrow> raft_node \<Rightarrow> bool" where
  "term_vote_le n n' \<longleftrightarrow> self_id n' = self_id n \<and> peers n' = peers n \<and> cur_term n \<le> cur_term n' \<and>
     (cur_term n' = cur_term n \<longrightarrow> vote n \<noteq> - 1 \<longrightarrow> vote n' = vote n)"

lemma term_vote_le_refl [simp]: "term_vote_le n n"
  by (simp add: term_vote_le_def)

lemma term_vote_le_trans: "term_vote_le a b \<Longrightarrow> term_vote_le b c \<Longrightarrow> term_vote_le a c"
  by (auto simp: term_vote_le_def)

lemma exec_term_vote_le:
  assumes "exec ev n = Returns n'" and "event_ok ev n"
  shows "term_vote_le n n'"
proof (cases ev)
  case (Tick c)
  with assms show ?thesis by (auto simp: tick_def term_vote_le_def)
next
  case (RequestVote c rv)
  with assms show ?thesis by (auto simp: handle_request_vote_def term_vote_le_def Let_def)
next
  case (AppendEntries c ae)
  with assms show ?thesis by (auto simp: handle_append_entries_def term_vote_le_def Let_def split: if_splits)
next
  case (InstallSnapshot c isq)
  with assms show ?thesis by (auto simp: handle_install_snapshot_def term_vote_le_def Let_def split: if_splits)
next
  case (Compact up_to data)
  with assms show ?thesis by (auto simp: compact_def term_vote_le_def Let_def)
next
  case (Propose cmd)
  with assms show ?thesis
    by (auto simp: propose_begin_def term_vote_le_def Let_def split: if_splits dest: advance_commit_frame)
next
  case (ElectionBegin c)
  with assms show ?thesis by (auto simp: election_begin_def term_vote_le_def wrap_simps Let_def)
next
  case (VoteResponse e resp)
  with assms show ?thesis
    by (auto simp: on_vote_response_def term_vote_le_def split: option.splits)
next
  case (ElectionFinish c e granted)
  with assms show ?thesis by (auto simp: election_finish_def term_vote_le_def Let_def)
next
  case (AppendResponse trm peer prev sent ar)
  with assms show ?thesis
    by (auto simp: on_append_response_def term_vote_le_def Let_def split: if_splits
        dest: advance_commit_frame)
next
  case (SnapshotResponse trm peer snap_idx sr)
  with assms show ?thesis by (auto simp: on_snapshot_response_def term_vote_le_def Let_def)
qed

fun exec_all :: "node_event list \<Rightarrow> raft_node \<Rightarrow> raft_node outcome" where
  "exec_all [] n = Returns n"
| "exec_all (ev # evs) n = bind_outcome (exec ev n) (exec_all evs)"

fun all_ok :: "node_event list \<Rightarrow> raft_node \<Rightarrow> bool" where
  "all_ok [] n \<longleftrightarrow> True"
| "all_ok (ev # evs) n \<longleftrightarrow> event_ok ev n \<and>
     (case exec ev n of Undefined \<Rightarrow> True | Returns n' \<Rightarrow> all_ok evs n')"

lemma exec_all_term_vote_le:
  "exec_all evs n = Returns n' \<Longrightarrow> all_ok evs n \<Longrightarrow> term_vote_le n n'"
proof (induction evs arbitrary: n)
  case Nil
  then show ?case by simp
next
  case (Cons ev evs)
  then obtain m where m: "exec ev n = Returns m" "exec_all evs m = Returns n'" by auto
  with Cons.prems(2) have "event_ok ev n" "all_ok evs m" by simp_all
  with m Cons.IH show ?case by (blast intro: term_vote_le_trans exec_term_vote_le)
qed

section \<open>The commit rule\<close>

lemma sorted_rev_position:
  fixes xs :: "nat list"
  assumes "i < length xs"
  shows "Suc i \<le> length (filter (\<lambda>x. rev (sort xs) ! i \<le> x) xs)"
    and "length (filter (\<lambda>x. rev (sort xs) ! i < x) xs) \<le> i"
proof -
  let ?ys = "rev (sort xs)"
  have desc: "sorted_wrt (\<ge>) ?ys" by (simp add: sorted_wrt_rev)
  have anti: "?ys ! k \<le> ?ys ! j" if "j \<le> k" "k < length xs" for j k
    using desc that by (cases "j = k") (auto simp: sorted_wrt_iff_nth_less)
  have same: "length (filter P xs) = length (filter P ?ys)" for P
    by (metis mset_filter mset_rev mset_sort size_mset)
  have split: "length (filter P ?ys) = length (filter P (take j ?ys)) + length (filter P (drop j ?ys))" for P j
    by (metis append_take_drop_id filter_append length_append)
  have "\<forall>x \<in> set (take (Suc i) ?ys). ?ys ! i \<le> x"
    using assms by (auto simp: in_set_conv_nth intro!: anti)
  then have "filter (\<lambda>x. ?ys ! i \<le> x) (take (Suc i) ?ys) = take (Suc i) ?ys" by (rule filter_True)
  with assms show "Suc i \<le> length (filter (\<lambda>x. ?ys ! i \<le> x) xs)"
    using same split [of _ "Suc i"] by (simp add: min_def)
  have "\<forall>x \<in> set (drop i ?ys). \<not> ?ys ! i < x"
    using assms by (auto simp: in_set_conv_nth not_less intro!: anti)
  then have "filter (\<lambda>x. ?ys ! i < x) (drop i ?ys) = []" by (simp add: filter_empty_conv)
  then show "length (filter (\<lambda>x. ?ys ! i < x) xs) \<le> i"
    using same split [of _ i] length_filter_le [of _ "take i ?ys"] by (metis add_0_right length_take list.size(3) min.bounded_iff)
qed

lemma compute_new_commit_index_Returns:
  assumes "compute_new_commit_index ll m sz cc t f = Returns c'"
  shows "\<exists>v. majority sz \<le> length (filter (\<lambda>x. v \<le> x) (ll # map snd m)) \<and>
             length (filter (\<lambda>x. v < x) (ll # map snd m)) < majority sz \<and>
             c' = (if v > cc \<and> f v = t then v else cc)"
proof -
  let ?xs = "ll # map snd m"
  from assms have i: "majority sz - 1 < length ?xs"
    and c': "c' = (let v = rev (sort ?xs) ! (majority sz - 1) in if v > cc \<and> f v = t then v else cc)"
    by (auto simp: compute_new_commit_index_def Let_def)
  have pos: "0 < majority sz" by (simp add: majority_def)
  from sorted_rev_position [OF i] pos
  have "majority sz \<le> length (filter (\<lambda>x. rev (sort ?xs) ! (majority sz - 1) \<le> x) ?xs)"
    and "length (filter (\<lambda>x. rev (sort ?xs) ! (majority sz - 1) < x) ?xs) < majority sz"
    by linarith+
  with c' show ?thesis unfolding Let_def by blast
qed

section \<open>A leader's bookkeeping\<close>

text \<open>
  The configuration lists every node once, the node itself among them; a leader tracks
  exactly its peers, and never a next index of 0.
\<close>

definition peers_ok :: "raft_node \<Rightarrow> bool" where
  "peers_ok n \<longleftrightarrow> distinct (map node_id (peers n)) \<and> self_id n \<in> set (map node_id (peers n))"

definition leader_wf :: "raft_node \<Rightarrow> bool" where
  "leader_wf n \<longleftrightarrow> (role n = Leader \<longrightarrow>
     map fst (match_index n) = stub_ids n \<and> map fst (next_index n) = stub_ids n \<and>
     (\<forall>kv \<in> set (next_index n). 1 \<le> snd kv))"

lemma stub_ids_cong: "self_id n' = self_id n \<Longrightarrow> peers n' = peers n \<Longrightarrow> stub_ids n' = stub_ids n"
  by (simp add: stub_ids_def)

lemma set_stub_ids [simp]: "set (stub_ids n) = set (map node_id (peers n)) - {self_id n}"
  by (auto simp: stub_ids_def)

lemma om_wf_stub_ids: "map fst m = stub_ids n \<Longrightarrow> om_wf m"
  by (simp add: om_wf_def stub_ids_def strict_sorted_iff)

lemma length_stub_ids:
  assumes "peers_ok n"
  shows "Suc (length (stub_ids n)) = length (peers n)"
proof -
  let ?ids = "map node_id (peers n)"
  have "length (stub_ids n) = card (set ?ids - {self_id n})"
    unfolding set_stub_ids [symmetric] by (simp add: stub_ids_def distinct_card [symmetric])
  also have "\<dots> = card (set ?ids) - 1" using assms by (intro card_Diff_singleton) (simp add: peers_ok_def)
  finally have "length (stub_ids n) = length (peers n) - 1"
    using assms distinct_card [of ?ids] by (simp add: peers_ok_def)
  moreover have "peers n \<noteq> []" using assms by (auto simp: peers_ok_def)
  ultimately show ?thesis by (cases "peers n") simp_all
qed

lemma advance_defined:
  assumes "peers_ok n" and "map fst (match_index n) = stub_ids n"
  shows "\<exists>n'. advance_commit_index_locked n = Returns n'"
proof -
  have "length (match_index n) = length (stub_ids n)" using assms(2) by (metis length_map)
  then have "majority (length (peers n)) - 1 < Suc (length (match_index n))"
    using length_stub_ids [OF assms(1)] by (simp add: majority_def)
  then show ?thesis
    by (simp add: advance_commit_index_locked_def compute_new_commit_index_def vector_at_def Let_def)
qed

lemma leader_wf_follower [simp]: "role n \<noteq> Leader \<Longrightarrow> leader_wf n"
  by (simp add: leader_wf_def)

lemma leader_wf_cong:
  assumes "leader_wf n" and "self_id n' = self_id n" "peers n' = peers n" "role n' = role n"
    "next_index n' = next_index n" "match_index n' = match_index n"
  shows "leader_wf n'"
  using assms stub_ids_cong [of n' n] by (simp add: leader_wf_def)

lemma election_finish_leader_wf:
  assumes "leader_wf n" and "last_index (rn_log n) + 1 < 2 ^ 64"
  shows "leader_wf (election_finish c e granted n)"
  using assms by (auto simp: election_finish_def leader_wf_def stub_ids_def wrap_simps comp_def Let_def)

lemma track_peer_leader_wf:
  assumes "leader_wf n" and "role n = Leader" and "peer \<in> set (stub_ids n)" and "1 \<le> nx"
    and "m = match_index n \<or> m = om_set peer v (match_index n)"
    and "x = next_index n \<or> x = om_set peer nx (next_index n)"
  shows "leader_wf (n\<lparr>match_index := m, next_index := x\<rparr>)"
proof -
  from assms(1,2) have k: "map fst (match_index n) = stub_ids n" "map fst (next_index n) = stub_ids n"
    and pos: "\<forall>kv \<in> set (next_index n). 1 \<le> snd kv"
    by (auto simp: leader_wf_def)
  have in_keys: "peer \<in> fst ` set (match_index n)" "peer \<in> fst ` set (next_index n)"
    using assms(3) k by (metis list.set_map)+
  have "map fst m = stub_ids n" and "map fst x = stub_ids n"
    using assms(5,6) k map_fst_om_set [OF om_wf_stub_ids [OF k(1)] in_keys(1)]
      map_fst_om_set [OF om_wf_stub_ids [OF k(2)] in_keys(2)] by auto
  moreover have "\<forall>kv \<in> set x. 1 \<le> snd kv"
    using assms(4,6) pos set_om_set_subset [of peer nx "next_index n"] by fastforce
  ultimately show ?thesis using stub_ids_cong [of "n\<lparr>match_index := m, next_index := x\<rparr>" n]
    by (simp add: leader_wf_def)
qed

lemma om_touch_leader:
  assumes "leader_wf n" and "role n = Leader" and "peer \<in> set (stub_ids n)"
  shows "om_touch peer (match_index n) = match_index n" "om_touch peer (next_index n) = next_index n"
proof -
  from assms have "peer \<in> set (map fst (match_index n))" "peer \<in> set (map fst (next_index n))"
    by (simp_all only: leader_wf_def)
  then show "om_touch peer (match_index n) = match_index n" "om_touch peer (next_index n) = next_index n"
    by (simp_all add: om_touch_present)
qed

lemma on_append_response_leader_wf:
  assumes "leader_wf n" and "peers_ok n" and "peer \<in> set (stub_ids n)" and "prev + sent + 1 < 2 ^ 64"
  shows "\<exists>n'. on_append_response trm peer prev sent ar n = Returns n' \<and> leader_wf n'"
proof (cases "aer_term ar > cur_term n \<or> role n \<noteq> Leader \<or> cur_term n \<noteq> trm")
  case True
  with assms(1) show ?thesis by (auto simp: on_append_response_def)
next
  case False
  then have lead: "role n = Leader" "\<not> aer_term ar > cur_term n" "cur_term n = trm" by simp_all
  note touch = om_touch_leader [OF assms(1) lead(1) assms(3)]
  have new: "u64 (prev + sent) = prev + sent" "u64 (Suc (prev + sent)) = Suc (prev + sent)"
    using assms(4) by (simp_all add: wrap_simps)
  show ?thesis
  proof (cases "success ar")
    case True
    define m where "m = (if prev + sent > om_at (match_index n) peer
      then om_set peer (prev + sent) (match_index n) else match_index n)"
    let ?n = "n\<lparr>match_index := m, next_index := om_set peer (prev + sent + 1) (next_index n)\<rparr>"
    have wf: "leader_wf ?n"
      using assms(1) lead(1) assms(3)
      by (intro track_peer_leader_wf [where v = "prev + sent" and nx = "prev + sent + 1"]) (auto simp: m_def)
    then have "map fst (match_index ?n) = stub_ids ?n" using lead(1) by (simp add: leader_wf_def)
    moreover have "peers_ok ?n" using assms(2) by (simp add: peers_ok_def)
    ultimately obtain n' where n': "advance_commit_index_locked ?n = Returns n'"
      using advance_defined by blast
    have "leader_wf n'" by (rule leader_wf_cong [OF wf]) (simp_all add: advance_commit_frame [OF n'])
    with n' True lead show ?thesis
      by (simp add: on_append_response_def touch new m_def [symmetric] Let_def)
  next
    case False
    have "leader_wf (n\<lparr>match_index := match_index n, next_index := om_set peer v (next_index n)\<rparr>)"
      if "1 \<le> v" for v
      using assms(1) lead(1) assms(3) that by (intro track_peer_leader_wf [where nx = v]) auto
    with False lead assms(1) show ?thesis
      by (simp add: on_append_response_def touch Let_def)
  qed
qed

lemma on_snapshot_response_leader_wf:
  assumes "leader_wf n" and "peer \<in> set (stub_ids n)" and "snap_idx + 1 < 2 ^ 64"
  shows "leader_wf (on_snapshot_response trm peer snap_idx sr n)"
proof (cases "isr_term sr > cur_term n \<or> role n \<noteq> Leader \<or> cur_term n \<noteq> trm")
  case True
  with assms(1) show ?thesis by (auto simp: on_snapshot_response_def)
next
  case False
  then have lead: "role n = Leader" by simp
  have "u64 (snap_idx + 1) = snap_idx + 1" using assms(3) by (simp add: wrap_simps)
  moreover have "leader_wf (n\<lparr>match_index := om_set peer snap_idx (match_index n),
      next_index := om_set peer (snap_idx + 1) (next_index n)\<rparr>)"
    using assms(1) lead assms(2)
    by (intro track_peer_leader_wf [where v = snap_idx and nx = "snap_idx + 1"]) auto
  ultimately show ?thesis
    using False assms(1) om_touch_leader [OF assms(1) lead assms(2)]
    by (simp add: on_snapshot_response_def Let_def)
qed

lemma exec_leader_wf:
  assumes "leader_wf n" and "peers_ok n" and "event_ok ev n"
  shows "\<exists>n'. exec ev n = Returns n' \<and> leader_wf n'"
proof (cases ev)
  case (Tick c)
  with assms(1) show ?thesis by (auto simp: tick_def intro: leader_wf_cong)
next
  case (RequestVote c rv)
  with assms(1) show ?thesis
    by (auto simp: handle_request_vote_def observe_term_def Let_def intro: leader_wf_cong)
next
  case (AppendEntries c ae)
  with assms(1) show ?thesis
    by (auto simp: handle_append_entries_def observe_term_def Let_def intro: leader_wf_cong)
next
  case (InstallSnapshot c isq)
  with assms(1) show ?thesis
    by (auto simp: handle_install_snapshot_def observe_term_def Let_def intro: leader_wf_cong)
next
  case (Compact up_to data)
  with assms(1) show ?thesis by (auto simp: compact_def Let_def intro: leader_wf_cong)
next
  case (Propose cmd)
  show ?thesis
  proof (cases "role n = Leader")
    case True
    let ?n = "n\<lparr>rn_log := append_log (cur_term n) cmd (rn_log n)\<rparr>"
    have wf: "leader_wf ?n" by (rule leader_wf_cong [OF assms(1)]) simp_all
    then have "map fst (match_index ?n) = stub_ids ?n" using True by (simp add: leader_wf_def)
    moreover have "peers_ok ?n" using assms(2) by (simp add: peers_ok_def)
    ultimately obtain n' where n': "advance_commit_index_locked ?n = Returns n'"
      using advance_defined by blast
    have "leader_wf n'" by (rule leader_wf_cong [OF wf]) (simp_all add: advance_commit_frame [OF n'])
    with n' True Propose show ?thesis by (simp add: propose_begin_def Let_def)
  next
    case False
    with Propose assms(1) show ?thesis by (simp add: propose_begin_def)
  qed
next
  case (ElectionBegin c)
  then show ?thesis by (simp add: election_begin_def Let_def)
next
  case (VoteResponse e resp)
  with assms(1) show ?thesis by (auto simp: on_vote_response_def split: option.splits)
next
  case (ElectionFinish c e granted)
  with assms show ?thesis by (simp add: election_finish_leader_wf)
next
  case (AppendResponse trm peer prev sent ar)
  with assms on_append_response_leader_wf show ?thesis by simp
next
  case (SnapshotResponse trm peer snap_idx sr)
  with assms on_snapshot_response_leader_wf show ?thesis by simp
qed

section \<open>The applied commands line up with the log\<close>

text \<open>
  The comment on \<open>applied_commands_\<close> promises that its element \<open>i\<close> has the absolute index
  \<open>snapshot_last_index + i + 1\<close>; the coordinator computes a command's epoch from that.
  It needs every entry past the snapshot to carry a non-empty command.
\<close>

definition no_blank :: "raft_log \<Rightarrow> bool" where
  "no_blank l \<longleftrightarrow> (\<forall>e \<in> set (entries l). command e \<noteq> '''')"

definition aligned :: "raft_node \<Rightarrow> bool" where
  "aligned n \<longleftrightarrow> no_blank (rn_log n) \<and> last_applied n \<le> commit_index n \<and>
     snapshot_last_index (rn_log n) + length (applied_commands n) = last_applied n \<and>
     (role n \<noteq> Follower \<longrightarrow> 0 < cur_term n)"

lemma no_blank_compact: "no_blank l \<Longrightarrow> no_blank (compact_log k t d l)"
  by (auto simp: no_blank_def dest: in_set_dropD)

text \<open>
  Messages as a correct leader builds them and clients as they should be: no blank
  command, and a commit index within the entries the request covers.
\<close>

fun benign :: "node_event \<Rightarrow> bool" where
  "benign (AppendEntries c ae) \<longleftrightarrow> (\<forall>e \<in> set (ae_entries ae). le_command e \<noteq> '''') \<and>
     leader_commit ae \<le> prev_log_index ae + length (ae_entries ae) \<and>
     prev_log_index ae + length (ae_entries ae) < 2 ^ 64"
| "benign (Propose cmd) \<longleftrightarrow> cmd \<noteq> ''''"
| "benign _ \<longleftrightarrow> True"

lemma command_at_no_blank:
  assumes "wf_log l" and "no_blank l" and "snapshot_last_index l < i" and "i \<le> last_index l"
  shows "command_at l i \<noteq> ''''"
proof -
  have "entries l ! (i - 1 - snapshot_last_index l) \<in> set (entries l)"
    using assms by (intro nth_mem) (auto simp: last_index_wf)
  with assms show ?thesis by (auto simp: command_at_def no_blank_def)
qed

lemma apply_aligned:
  assumes "aligned n" and "wf_log (rn_log n)" and "commit_index n \<le> c" and "c \<le> last_index (rn_log n)"
  shows "aligned (apply_committed_entries_locked (n\<lparr>commit_index := c\<rparr>))"
proof -
  have la: "last_applied n \<le> c" and snap: "snapshot_last_index (rn_log n) \<le> last_applied n"
    using assms(1,3) by (auto simp: aligned_def)
  have "command_at (rn_log n) i \<noteq> ''''" if "i \<in> set [Suc (last_applied n)..<Suc c]" for i
    using that assms snap by (intro command_at_no_blank) (auto simp: aligned_def simp del: upt_Suc)
  then have "filter (\<lambda>cmd. cmd \<noteq> '''') (map (command_at (rn_log n)) [Suc (last_applied n)..<Suc c]) =
      map (command_at (rn_log n)) [Suc (last_applied n)..<Suc c]"
    by (intro filter_True) (auto simp del: upt_Suc)
  with assms(1) la show ?thesis
    by (auto simp: aligned_def apply_committed_closed simp del: upt_Suc)
qed

lemma advance_aligned:
  assumes "aligned n" and "wf_log (rn_log n)" and "role n = Leader"
    and "advance_commit_index_locked n = Returns n'"
  shows "aligned n'"
proof -
  from assms(4) obtain c where
    c: "compute_new_commit_index (last_index (rn_log n)) (match_index n) (length (peers n))
          (commit_index n) (cur_term n) (term_at (rn_log n)) = Returns c"
    and n': "n' = (if c > commit_index n
                   then apply_committed_entries_locked (n\<lparr>commit_index := c\<rparr>) else n)"
    by (auto simp: advance_commit_index_locked_def)
  show ?thesis
  proof (cases "c > commit_index n")
    case True
    with compute_new_commit_index_Returns [OF c] have "term_at (rn_log n) c = cur_term n"
      by (auto split: if_splits)
    moreover have "0 < cur_term n" using assms(1,3) by (simp add: aligned_def)
    ultimately have "c \<le> last_index (rn_log n)" by (auto simp: term_at_def split: if_splits)
    with True assms(1,2) n' show ?thesis by (simp add: apply_aligned)
  next
    case False
    with n' assms(1) show ?thesis by simp
  qed
qed

lemma aligned_cong:
  assumes "aligned n" and "rn_log n' = rn_log n" "last_applied n' = last_applied n"
    "commit_index n' = commit_index n" "applied_commands n' = applied_commands n"
    "role n' \<noteq> Follower \<Longrightarrow> 0 < cur_term n'"
  shows "aligned n'"
  using assms by (auto simp: aligned_def)

lemma store_entries_aligned:
  assumes "aligned n" and "wf_log (rn_log n)" and "wf_log (rn_log (store_entries ae n))"
    and "\<not> prev_mismatch ae (rn_log n)" and "benign (AppendEntries c ae)"
  shows "aligned (store_entries ae n) \<and> commit_index n \<le> commit_index (store_entries ae n)"
proof -
  let ?es = "map to_persisted (ae_entries ae)" and ?p = "prev_log_index ae"
  define l where "l = (if ?es \<noteq> [] then truncate_and_append ?p ?es (rn_log n) else rn_log n)"
  have snap: "snapshot_last_index l = snapshot_last_index (rn_log n)" by (simp add: l_def)
  have room: "?p + length ?es < 2 ^ 64" using assms(5) by simp
  have log': "rn_log (store_entries ae n) = l" by (simp add: store_entries_def l_def Let_def)
  have wf: "wf_log l" using assms(3) log' by simp
  have reach: "?p \<le> snapshot_last_index (rn_log n) + length (entries (rn_log n))"
    using assms(2,4) by (auto simp: prev_mismatch_def has_real_entry_at_def last_index_wf)
  have new: "\<forall>e \<in> set ?es. command e \<noteq> ''''" using assms(5) by (auto simp: to_persisted_def)
  have old: "\<forall>e \<in> set (entries (rn_log n)). command e \<noteq> ''''"
    using assms(1) by (simp add: aligned_def no_blank_def)
  have "set (entries l) \<subseteq> set (entries (rn_log n)) \<union> set ?es"
    using set_entries_truncate [OF room, of "rn_log n"] by (auto simp: l_def)
  with new old have blank: "no_blank l" by (auto simp: no_blank_def)
  have "leader_commit ae \<le> ?p + length ?es" using assms(5) by simp
  also have "\<dots> \<le> snapshot_last_index (rn_log n) + length (entries l)"
    using reach room by (auto simp: l_def entries_truncate_and_append min_def)
  finally have lc: "leader_commit ae \<le> last_index l" by (simp add: last_index_wf [OF wf] snap)
  have al: "aligned (n\<lparr>rn_log := l\<rparr>)"
    using assms(1) blank snap by (simp add: aligned_def)
  have eq: "store_entries ae n =
      (if leader_commit ae > commit_index n
       then apply_committed_entries_locked (n\<lparr>rn_log := l, commit_index := leader_commit ae\<rparr>)
       else n\<lparr>rn_log := l\<rparr>)"
    using lc by (auto simp: store_entries_def l_def Let_def min_def)
  show ?thesis
    using apply_aligned [OF al, of "leader_commit ae"] al wf lc by (simp add: eq)
qed

lemma adopt_snapshot_aligned:
  assumes "aligned n" and "snapshot_last_index (rn_log n) < last_included_index req"
  shows "aligned (adopt_snapshot req n)"
  using assms
  by (auto simp: aligned_def adopt_snapshot_def no_blank_compact Let_def min_def max_def)

lemma aligned_leader_term: "aligned n \<Longrightarrow> role n \<noteq> Follower \<Longrightarrow> 0 < cur_term n"
  by (simp add: aligned_def)

lemma observe_term_aligned: "aligned n \<Longrightarrow> aligned (observe_term t n)"
  by (rule aligned_cong) (auto simp: aligned_def split: if_splits)

lemma follow_aligned:
  "aligned n \<Longrightarrow> aligned (reset_election_deadline_locked c (n\<lparr>role := Follower, leader_id := i\<rparr>))"
  by (rule aligned_cong) auto

lemma propose_aligned:
  assumes "aligned n" and "cmd \<noteq> ''''" and "propose_begin cmd n = Returns (slot, n')"
    and "wf_log (rn_log n')"
  shows "aligned n' \<and> commit_index n \<le> commit_index n'"
proof (cases "role n = Leader")
  case True
  let ?m = "n\<lparr>rn_log := append_log (cur_term n) cmd (rn_log n)\<rparr>"
  from assms(3) True have adv: "advance_commit_index_locked ?m = Returns n'"
    by (auto simp: propose_begin_def Let_def)
  have "aligned ?m" using assms(1,2) by (auto simp: aligned_def no_blank_def)
  moreover have "wf_log (rn_log ?m)" using assms(4) advance_commit_frame(4) [OF adv] by simp
  ultimately show ?thesis
    using advance_aligned [OF _ _ _ adv] advance_commit_frame(9) [OF adv] True by simp
next
  case False
  with assms(1,3) show ?thesis by (auto simp: propose_begin_def)
qed

lemma on_append_response_aligned:
  assumes "aligned n" and "wf_log (rn_log n)"
    and "on_append_response trm peer prev sent ar n = Returns n'"
  shows "aligned n' \<and> commit_index n \<le> commit_index n'"
proof (cases "\<not> aer_term ar > cur_term n \<and> role n = Leader \<and> cur_term n = trm \<and> success ar")
  case True
  then obtain m x where adv: "advance_commit_index_locked (n\<lparr>match_index := m, next_index := x\<rparr>) = Returns n'"
    using assms(3) by (auto simp: on_append_response_def Let_def)
  have "aligned (n\<lparr>match_index := m, next_index := x\<rparr>)"
    using assms(1) by (rule aligned_cong) (use assms(1) in \<open>auto simp: aligned_def\<close>)
  with True assms(2) show ?thesis
    using advance_aligned [OF _ _ _ adv] advance_commit_frame(9) [OF adv] by simp
next
  case False
  with assms(3) consider "n' = become_follower_locked (aer_term ar) n" | "n' = n"
    | x where "n' = n\<lparr>next_index := x\<rparr>"
    by (auto simp: on_append_response_def Let_def split: if_splits)
  then show ?thesis
    using assms(1) by cases (auto simp: aligned_def)
qed

lemma exec_aligned:
  assumes "aligned n" and "wf_log (rn_log n)" and "wf_log (rn_log n')"
    and "exec ev n = Returns n'" and "event_ok ev n" and "benign ev"
  shows "aligned n' \<and> commit_index n \<le> commit_index n'"
proof (cases ev)
  case (Tick c)
  with assms(1,4) show ?thesis by (auto simp: tick_def aligned_def split: if_splits)
next
  case (RequestVote c rv)
  with assms(1,4) observe_term_aligned [of n "rv_term rv"] show ?thesis
    by (auto simp: handle_request_vote_def Let_def aligned_def split: if_splits)
next
  case (AppendEntries c ae)
  let ?m = "reset_election_deadline_locked c
    ((observe_term (ae_term ae) n)\<lparr>role := Follower, leader_id := ae_leader_id ae\<rparr>)"
  have m: "aligned ?m" using assms(1) by (intro follow_aligned observe_term_aligned)
  from AppendEntries assms(4) consider
    "n' = observe_term (ae_term ae) n" | "n' = ?m"
    | "n' = store_entries ae ?m" "\<not> prev_mismatch ae (rn_log ?m)"
    by (auto simp: handle_append_entries_def Let_def split: if_splits)
  then show ?thesis
  proof cases
    case 1
    with assms(1) observe_term_aligned show ?thesis by simp
  next
    case 2
    with m show ?thesis by simp
  next
    case 3
    with AppendEntries assms(2,3,6) m store_entries_aligned [of ?m ae c] show ?thesis by simp
  qed
next
  case (InstallSnapshot c isq)
  let ?m = "reset_election_deadline_locked c
    ((observe_term (is_term isq) n)\<lparr>role := Follower, leader_id := is_leader_id isq\<rparr>)"
  have m: "aligned ?m" using assms(1) by (intro follow_aligned observe_term_aligned)
  from InstallSnapshot assms(4) consider
    "n' = observe_term (is_term isq) n" | "n' = ?m"
    | "n' = adopt_snapshot isq ?m" "snapshot_last_index (rn_log ?m) < last_included_index isq"
    by (auto simp: handle_install_snapshot_def Let_def split: if_splits)
  then show ?thesis
  proof cases
    case 1
    with assms(1) observe_term_aligned show ?thesis by simp
  next
    case 2
    with m show ?thesis by simp
  next
    case 3
    with m adopt_snapshot_aligned [of ?m isq] show ?thesis by simp
  qed
next
  case (Compact up_to data)
  with assms(1,4) show ?thesis
    by (auto simp: compact_def aligned_def no_blank_compact Let_def split: if_splits)
next
  case (Propose cmd)
  with assms(4) obtain slot where "propose_begin cmd n = Returns (slot, n')" by auto
  with Propose assms propose_aligned show ?thesis by simp
next
  case (ElectionBegin c)
  with assms(1,4,5) show ?thesis by (auto simp: election_begin_def aligned_def wrap_simps Let_def)
next
  case (VoteResponse e resp)
  with assms(1,4) show ?thesis by (auto simp: on_vote_response_def aligned_def split: option.splits)
next
  case (ElectionFinish c e granted)
  with assms(1,4) show ?thesis by (auto simp: election_finish_def aligned_def Let_def)
next
  case (AppendResponse trm peer prev sent ar)
  with assms(1,2,4) on_append_response_aligned show ?thesis by simp
next
  case (SnapshotResponse trm peer snap_idx sr)
  with assms(1,4) show ?thesis by (auto simp: on_snapshot_response_def aligned_def Let_def)
qed

fun benign_run :: "node_event list \<Rightarrow> raft_node \<Rightarrow> bool" where
  "benign_run [] n \<longleftrightarrow> wf_log (rn_log n)"
| "benign_run (ev # evs) n \<longleftrightarrow> wf_log (rn_log n) \<and> event_ok ev n \<and> benign ev \<and>
     (case exec ev n of Undefined \<Rightarrow> True | Returns n' \<Rightarrow> benign_run evs n')"

lemma benign_run_wf: "benign_run evs n \<Longrightarrow> wf_log (rn_log n)"
  by (cases evs) simp_all

lemma benign_run_aligned:
  "aligned n \<Longrightarrow> benign_run evs n \<Longrightarrow> exec_all evs n = Returns n' \<Longrightarrow>
     aligned n' \<and> commit_index n \<le> commit_index n'"
proof (induction evs arbitrary: n)
  case Nil
  then show ?case by simp
next
  case (Cons ev evs)
  from Cons.prems(3) obtain m where m: "exec ev n = Returns m" "exec_all evs m = Returns n'" by auto
  with Cons.prems(2) have run: "benign_run evs m" and ok: "wf_log (rn_log n)" "event_ok ev n" "benign ev"
    by auto
  have "aligned m \<and> commit_index n \<le> commit_index m"
    using exec_aligned [OF Cons.prems(1) ok(1) benign_run_wf [OF run] m(1) ok(2,3)] .
  with Cons.IH [of m] run m(2) show ?case by auto
qed

section \<open>Properties\<close>

text \<open>
  C14: a node never goes back in time and never votes twice.  Over any run of critical
  sections, whatever messages arrive in whatever order, the current term does not
  decrease, and while it stays the same a vote once cast does not change.
\<close>

theorem term_monotone_vote_once:
  assumes "exec_all evs n = Returns n'" and "all_ok evs n"
  shows "cur_term n \<le> cur_term n' \<and> (cur_term n' = cur_term n \<and> vote n \<noteq> - 1 \<longrightarrow> vote n' = vote n)"
  using exec_all_term_vote_le [OF assms] by (simp add: term_vote_le_def)

definition sample_peers :: "raft_peer list" where
  "sample_peers = map (\<lambda>i. \<lparr>node_id = i, host = ''h'', port = 7000\<rparr>) [0, 1, 2]"

definition sample_node :: "int \<Rightarrow> raft_node" where
  "sample_node i = \<lparr>self_id = i, peers = sample_peers,
     rn_state = new_state\<lparr>state_path := ''s''\<rparr>, rn_log = new_log\<lparr>log_path := ''l''\<rparr>, role = Follower,
     leader_id = - 1, commit_index = 0, last_applied = 0, applied_commands = [],
     next_index = [], match_index = [], election_deadline = 300, next_heartbeat = 0\<rparr>"

definition sample_clock :: clock where
  "sample_clock = \<lparr>now = 1000, draw = 300\<rparr>"

definition sample_vote_request :: "int \<Rightarrow> request_vote_request" where
  "sample_vote_request i = \<lparr>rv_term = 1, candidate_id = i, rv_last_log_index = 0, rv_last_log_term = 0\<rparr>"

lemmas sample_defs = sample_node_def sample_peers_def sample_clock_def sample_vote_request_def
  new_state_def new_log_def

theorem term_monotone_vote_once_witness:
  "\<exists>n n'. exec_all [RequestVote sample_clock (sample_vote_request 1)] (sample_node 0) = Returns n \<and>
     vote n = 1 \<and> exec_all [RequestVote sample_clock (sample_vote_request 2)] n = Returns n' \<and>
     cur_term n' = cur_term n \<and> vote n' = 1"
proof -
  obtain n where n: "exec_all [RequestVote sample_clock (sample_vote_request 1)] (sample_node 0) = Returns n"
    and v: "vote n = 1" "cur_term n = 1"
    by (simp add: handle_request_vote_def observe_term_def become_follower_locked_def ps_set_def
        reset_election_deadline_locked_def last_term_def last_index_def u64_def sample_defs Let_def)
  obtain n' where n': "exec_all [RequestVote sample_clock (sample_vote_request 2)] n = Returns n'" by simp
  have "cur_term n' = cur_term n"
    using n' v by (auto simp: handle_request_vote_def sample_vote_request_def Let_def)
  moreover have "all_ok [RequestVote sample_clock (sample_vote_request 2)] n" by simp
  from term_monotone_vote_once [OF n' this] v calculation have "vote n' = 1" by simp
  ultimately show ?thesis using n n' v by blast
qed

text \<open>
  A vote goes only to a candidate whose log is at least as up to date.  If the handler
  grants the vote, the request's term is the node's (new) term, the node's vote on record
  is that candidate, the candidate's last (term, index) is not below the node's own in
  lexicographic order, the log is untouched, and the election deadline was pushed back.
\<close>

lemma vote_granted_up_to_date:
  assumes "handle_request_vote c req n = (resp, n')" and "vote_granted resp"
  shows "cur_term n' = rv_term req \<and> rvr_term resp = rv_term req \<and> cur_term n \<le> rv_term req \<and>
    vote n' = candidate_id req \<and>
    (last_term (rn_log n), last_index (rn_log n)) \<le> (rv_last_log_term req, rv_last_log_index req) \<and>
    rn_log n' = rn_log n \<and> election_deadline n' = now c + draw c"
  using assms
  by (auto simp: handle_request_vote_def reset_election_deadline_locked_def Let_def split: if_splits)

text \<open>
  C10: the Figure 8 rule.  When \<open>compute_new_commit_index\<close> moves the commit index, the new
  one is larger, its entry is of the leader's current term, a majority of the cluster (the
  leader included) has replicated up to it, and no larger index is on a majority.
\<close>

theorem commit_needs_majority_in_current_term:
  assumes "compute_new_commit_index ll m sz cc t f = Returns c'" and "c' \<noteq> cc"
  shows "cc < c' \<and> f c' = t \<and> majority sz \<le> length (filter (\<lambda>x. c' \<le> x) (ll # map snd m)) \<and>
    (\<forall>N > c'. length (filter (\<lambda>x. N \<le> x) (ll # map snd m)) < majority sz)"
proof -
  let ?xs = "ll # map snd m"
  obtain v where v: "majority sz \<le> length (filter (\<lambda>x. v \<le> x) ?xs)"
    "length (filter (\<lambda>x. v < x) ?xs) < majority sz" "c' = (if v > cc \<and> f v = t then v else cc)"
    using compute_new_commit_index_Returns [OF assms(1)] by blast
  with assms(2) have c': "c' = v" "v > cc" "f v = t" by (auto split: if_splits)
  have "length (filter (\<lambda>x. N \<le> x) xs) \<le> length (filter (\<lambda>x. v < x) xs)" if "N > v" for N and xs :: "nat list"
    using that by (induction xs) auto
  with v(2) have "\<forall>N > v. length (filter (\<lambda>x. N \<le> x) ?xs) < majority sz"
    using le_less_trans by blast
  with c' v(1) show ?thesis by blast
qed

theorem commit_needs_majority_in_current_term_witness:
  "compute_new_commit_index 2 [(2, 2), (3, 2), (4, 0), (5, 0)] 5 0 4 (\<lambda>i. if i = 2 then 4 else 2) = Returns 2 \<and>
   majority 5 \<le> length (filter (\<lambda>x. 2 \<le> x) (2 # map snd [(2 :: int, 2 :: nat), (3, 2), (4, 0), (5, 0)]))"
proof -
  have h: "compute_new_commit_index 2 [(2, 2), (3, 2), (4, 0), (5, 0)] 5 0 4 (\<lambda>i. if i = 2 then 4 else 2) = Returns 2"
    by (simp add: compute_new_commit_index_def majority_def vector_at_def)
  show ?thesis using h commit_needs_majority_in_current_term [OF h] by simp
qed

text \<open>
  The applied commands line up with the log.  A node built by its constructor from
  good files, driven by any run of critical sections in which no blank command is
  proposed or replicated and requests carry a commit index within the entries they cover,
  has applied exactly one command per index after its snapshot: element \<open>i\<close> of
  \<open>applied_commands\<close> was queued for index \<open>snapshot_last_index + i + 1\<close>.  And its commit index
  never went back.
\<close>

lemma applied_commands_aligned:
  assumes "RaftNode w1 w2 c nid ps sf lf d = (None, n, d')" and "no_blank (rn_log n)"
    and "benign_run evs n" and "exec_all evs n = Returns n'"
  shows "snapshot_last_index (rn_log n') + length (applied_commands n') = last_applied n' \<and>
    last_applied n' \<le> commit_index n' \<and> commit_index n \<le> commit_index n'"
proof -
  have "aligned n"
    using assms(1,2)
    by (auto simp: RaftNode_def aligned_def Let_def split: prod.splits if_splits)
  from benign_run_aligned [OF this assms(3,4)] show ?thesis by (simp add: aligned_def)
qed

text \<open>
  What \<open>AppendEntries\<close> does, on every branch.  It succeeds exactly if the request's term
  is not older than the node's and the previous entry is covered by the snapshot or
  matches; the answer carries the node's new term.  A stale request changes nothing; a
  mismatch changes the role, the known leader and the deadline but neither the log nor
  the commit point; a success stores the entries and follows the leader.
\<close>

lemma append_entries_branches:
  assumes "handle_append_entries c req n = (resp, n')"
  shows "success resp = (cur_term n \<le> ae_term req \<and> \<not> prev_mismatch req (rn_log n)) \<and>
    aer_term resp = max (ae_term req) (cur_term n) \<and> cur_term n' = aer_term resp \<and>
    (ae_term req < cur_term n \<longrightarrow> n' = n) \<and>
    (cur_term n \<le> ae_term req \<longrightarrow> role n' = Follower \<and> leader_id n' = ae_leader_id req) \<and>
    (\<not> success resp \<longrightarrow> rn_log n' = rn_log n \<and> commit_index n' = commit_index n \<and>
       applied_commands n' = applied_commands n) \<and>
    (success resp \<longrightarrow> rn_log n' =
       (if ae_entries req = [] then rn_log n
        else truncate_and_append (prev_log_index req) (map to_persisted (ae_entries req)) (rn_log n)))"
  using assms
  by (auto simp: handle_append_entries_def store_entries_def observe_term_def Let_def
      reset_election_deadline_locked_def split: if_splits)

lemma build_entries_nth:
  assumes "wf_log l" and "snapshot_last_index l < nx" and "k < Suc (last_index l) - nx"
  shows "Some (map (to_persisted \<circ> (\<lambda>i. \<lparr>le_term = term_at l i, le_index = i, le_command = command_at l i\<rparr>))
           [nx..<Suc (last_index l)] ! k) = entry_at l (nx + k)"
proof -
  have "entry_at l (nx + k) \<noteq> None"
    using assms by (simp add: entry_at_None_iff has_real_entry_at_def)
  then obtain e where e: "entry_at l (nx + k) = Some e" by blast
  with assms show ?thesis
    by (simp add: to_persisted_def term_at_entry command_at_entry del: upt_Suc)
qed

text \<open>
  A follower that accepts a request copies the leader's entries exactly.  The request the leader
  builds for next index \<open>nx\<close> (above its snapshot, with something to send), handled with
  success, leaves the follower with its own entries below \<open>nx\<close>, the leader's entries from \<open>nx\<close> on, and the
  leader's last index.
\<close>

lemma replication_copies_suffix:
  assumes "wf_log (rn_log ldr)" and "wf_log (rn_log n)"
    and "build_append_entries t nx ldr = Some req" and "handle_append_entries c req n = (resp, n')"
    and "success resp" and "snapshot_last_index (rn_log ldr) < nx" and "nx \<le> last_index (rn_log ldr)"
  shows "\<forall>i > snapshot_last_index (rn_log n). entry_at (rn_log n') i =
    (if i < nx then entry_at (rn_log n) i else entry_at (rn_log ldr) i)"
proof (intro allI impI)
  fix i assume i: "snapshot_last_index (rn_log n) < i"
  let ?L = "rn_log ldr" and ?es = "map to_persisted (ae_entries req)"
  have last: "last_index ?L < 2 ^ 64" using assms(1) by (simp add: last_index_wf wf_log_def)
  then have prev: "prev_log_index req = nx - 1" and len: "length ?es = Suc (last_index ?L) - nx"
    and es: "?es = map (to_persisted \<circ> (\<lambda>i. \<lparr>le_term = term_at ?L i, le_index = i, le_command = command_at ?L i\<rparr>))
           [nx..<Suc (last_index ?L)]"
    using assms(3,6,7)
    by (auto simp: build_append_entries_def Let_def u64_sub_def u64_def split: if_splits simp del: upt_Suc)
  have log': "rn_log n' = truncate_and_append (nx - 1) ?es (rn_log n)"
    and mis: "\<not> prev_mismatch req (rn_log n)"
    using assms(4,5,7) len prev
    by (auto simp: handle_append_entries_def store_entries_def Let_def split: if_splits)
  show "entry_at (rn_log n') i = (if i < nx then entry_at (rn_log n) i else entry_at ?L i)"
  proof (cases "nx - 1 \<le> last_index (rn_log n)")
    case True
    then have cut: "entry_at (rn_log n') i =
      (if i \<le> nx - 1 then entry_at (rn_log n) i
       else if i \<le> nx - 1 + length ?es then Some (?es ! (i - (nx - 1) - 1)) else None)"
      using assms(2,6,7) i len last by (simp add: log' entry_at_cut last_index_wf)
    consider "i < nx" | "nx \<le> i" "i \<le> last_index ?L" | "last_index ?L < i" "nx \<le> i" by linarith
    then show ?thesis
    proof cases
      case 2
      then have "Some (?es ! (i - nx)) = entry_at ?L i"
        using build_entries_nth [OF assms(1,6), of "i - nx"] es by (simp del: upt_Suc)
      moreover have "\<not> i \<le> nx - 1" "i \<le> nx - 1 + length ?es" "i - (nx - 1) - 1 = i - nx"
        using 2 len assms(6) by linarith+
      ultimately show ?thesis using 2 cut by simp
    next
      case 3
      then have "entry_at ?L i = None"
        using assms(1) by (simp add: entry_at_None_iff has_real_entry_at_def)
      moreover have "\<not> i \<le> nx - 1" "\<not> i \<le> nx - 1 + length ?es"
        using 3 len assms(6,7) by linarith+
      ultimately show ?thesis using 3 cut by simp
    next
      case 1
      then have "i \<le> nx - 1" by linarith
      with 1 cut show ?thesis by simp
    qed
  next
    case False
    then show ?thesis using mis prev assms(2)
      by (auto simp: prev_mismatch_def has_real_entry_at_def last_index_wf)
  qed
qed

definition sample_leader :: raft_node where
  "sample_leader = (sample_node 0)\<lparr>role := Leader, rn_state := ps_set 1 0 new_state,
     rn_log := new_log\<lparr>entries := [\<lparr>entry_term = 1, command = ''a''\<rparr>, \<lparr>entry_term = 1, command = ''b''\<rparr>]\<rparr>,
     commit_index := 1, last_applied := 1, applied_commands := [''a'']\<rparr>"

lemma sample_leader_simps [simp]:
  "role sample_leader = Leader" "cur_term sample_leader = 1" "wf_log (rn_log sample_leader)"
  "last_index (rn_log sample_leader) = 2" "snapshot_last_index (rn_log sample_leader) = 0"
  by (simp_all add: sample_leader_def sample_defs wf_log_def wf_entry_def last_index_def u64_def)

text \<open>
  C26: the compaction race.  \<open>send_append_entries_to_peer\<close> compares the next index with the
  snapshot in one critical section and reads the entries in a later one.  If the leader
  compacts in between, up to the next index or beyond, the request it builds carries blank
  commands for the compacted entries, with the snapshot's term, and a follower that
  accepts it stores them.
\<close>

theorem compaction_race_sends_blanks:
  assumes "wf_log (rn_log n)" and "send_decide t nx n = SendEntries" and "1 \<le> nx" and "nx < 2 ^ 64"
    and "compact k data n = (True, n')" and "nx \<le> k" and "length data < 2 ^ 32" and "k \<le> last_index (rn_log n)"
  shows "\<exists>req. build_append_entries t nx n' = Some req \<and> ae_entries req \<noteq> [] \<and>
    (\<forall>i < Suc k - nx. le_command (ae_entries req ! i) = '''' \<and> le_index (ae_entries req ! i) = nx + i \<and>
       le_term (ae_entries req ! i) = term_at (rn_log n) k)"
proof -
  let ?l = "rn_log n" and ?l' = "rn_log n'"
  have n': "role n' = role n" "cur_term n' = cur_term n"
    "?l' = compact_log k (term_at ?l k) data ?l" and k: "snapshot_last_index ?l < k"
    using assms(5) by (auto simp: compact_def Let_def split: if_splits)
  have snap: "snapshot_last_index ?l' = k" "snapshot_last_term ?l' = term_at ?l k"
    and last: "last_index ?l' = last_index ?l"
    using k assms(1,8) n'(3)
    by (auto simp: compact_log_def Let_def last_index_def wf_log_def u64_def)
  have lead: "role n = Leader" "cur_term n = t" using assms(2) by (auto simp: send_decide_def Let_def split: if_splits)
  have len: "Suc k - nx \<le> Suc (last_index ?l') - nx" using assms(8) last by simp
  have entry: "term_at ?l' i = term_at ?l k \<and> command_at ?l' i = ''''" if "nx \<le> i" "i \<le> k" for i
    using that snap last assms(3,8) by (auto simp: term_at_def command_at_def)
  show ?thesis
    using lead n'(1,2) len entry assms(6,8) last
    by (auto simp: build_append_entries_def Let_def nth_append simp del: upt_Suc)
qed

theorem compaction_race_sends_blanks_witness:
  "send_decide 1 1 sample_leader = SendEntries \<and>
   (\<exists>n' req. compact 1 ''snap'' sample_leader = (True, n') \<and> build_append_entries 1 1 n' = Some req \<and>
      le_command (ae_entries req ! 0) = '''' \<and> le_index (ae_entries req ! 0) = 1)"
proof -
  have d: "send_decide 1 1 sample_leader = SendEntries"
    by (simp add: send_decide_def u64_sub_def u64_def)
  obtain n' where c: "compact 1 ''snap'' sample_leader = (True, n')"
    by (simp add: compact_def sample_leader_def sample_defs)
  from compaction_race_sends_blanks [OF sample_leader_simps(3) d _ _ c] obtain req where
    "build_append_entries 1 1 n' = Some req" "le_command (ae_entries req ! 0) = ''''" "le_index (ae_entries req ! 0) = 1"
    by auto
  with c d show ?thesis by blast
qed

lemma propose_wait_iff:
  "propose_wait i t ns \<longleftrightarrow>
     (\<exists>k < length ns. role (ns ! k) = Leader \<and> cur_term (ns ! k) = t \<and> i \<le> commit_index (ns ! k) \<and>
        (\<forall>j < k. role (ns ! j) = Leader \<and> cur_term (ns ! j) = t))"
proof (induction ns)
  case (Cons n ns)
  have ex_Suc: "(\<exists>k < Suc m. P k) \<longleftrightarrow> P 0 \<or> (\<exists>k < m. P (Suc k))" for P m
    by (metis gr0_conv_Suc less_Suc_eq_0_disj)
  have all_Suc: "(\<forall>j < Suc m. P j) \<longleftrightarrow> P 0 \<and> (\<forall>j < m. P (Suc j))" for P m
    by (metis less_Suc_eq_0_disj)
  show ?case
    by (auto simp: propose_poll_def Cons.IH ex_Suc all_Suc)
qed simp

text \<open>
  What the answer of \<open>propose\<close> means.  It is true exactly if, at some look before the
  deadline, the node was still leader of the proposing term with the commit index at or
  past the new entry, and had not been seen deposed before; a node that is not the
  leader refuses without touching its log.  On the leader the entry was appended, with
  the current term, at the index \<open>propose\<close> waits for.
\<close>

lemma propose_answer:
  "(role n \<noteq> Leader \<longrightarrow> propose_begin cmd n = Returns (None, n)) \<and>
   (propose_begin cmd n = Returns (Some (i, t), n') \<longrightarrow>
      role n = Leader \<and> t = cur_term n \<and> rn_log n' = append_log t cmd (rn_log n) \<and> i = last_index (rn_log n')) \<and>
   (propose_wait i t ns \<longleftrightarrow>
     (\<exists>k < length ns. role (ns ! k) = Leader \<and> cur_term (ns ! k) = t \<and> i \<le> commit_index (ns ! k) \<and>
        (\<forall>j < k. role (ns ! j) = Leader \<and> cur_term (ns ! j) = t)))"
  using propose_wait_iff [of i t ns]
  by (auto simp: propose_begin_def Let_def split: if_splits dest: advance_commit_frame)

end
