(* ===== verification/Json.thy ===== *)
theory Json
  imports Complex_Main
begin

text \<open>
  JSON documents as the code sees them through the vendored \<open>nlohmann::json\<close> 3.11
  (\<^verbatim>\<open>include/third_party/json.hpp\<close>): a value tree and the accessors the program uses, with an
  exception as \<open>None\<close>.  Parsing and printing text are not modelled; they are parameters of
  what uses them.  An object is the list of its members in key order, as \<open>std::map\<close> keeps
  them.
\<close>

datatype json =
    JNull
  | JBool bool
  | JInt int
  | JFloat rat
  | JStr string
  | JArr "json list"
  | JObj "(string \<times> json) list"

text \<open>\<open>at(key)\<close>: throws on anything but an object with that member.\<close>

fun json_at :: "string \<Rightarrow> json \<Rightarrow> json option" where
  "json_at key (JObj m) = map_of m key"
| "json_at key _ = None"

fun contains :: "string \<Rightarrow> json \<Rightarrow> bool" where
  "contains key (JObj m) \<longleftrightarrow> map_of m key \<noteq> None"
| "contains key _ \<longleftrightarrow> False"

text \<open>\<open>value(key, default)\<close> throws on a non-object and on a member of the wrong type.\<close>

fun json_value :: "string \<Rightarrow> (json \<Rightarrow> 'a option) \<Rightarrow> 'a \<Rightarrow> json \<Rightarrow> 'a option" where
  "json_value key get dflt (JObj m) = (case map_of m key of None \<Rightarrow> Some dflt | Some v \<Rightarrow> get v)"
| "json_value key get dflt _ = None"

text \<open>What a range-based \<open>for\<close> visits: a primitive counts as its own single element.\<close>

fun json_items :: "json \<Rightarrow> json list" where
  "json_items JNull = []"
| "json_items (JArr xs) = xs"
| "json_items (JObj m) = map snd m"
| "json_items j = [j]"

fun json_empty :: "json \<Rightarrow> bool" where
  "json_empty JNull \<longleftrightarrow> True"
| "json_empty (JArr xs) \<longleftrightarrow> xs = []"
| "json_empty (JObj m) \<longleftrightarrow> m = []"
| "json_empty _ \<longleftrightarrow> False"

text \<open>
  \<open>static_cast\<close> to a signed integer of \<open>w\<close> bits: integers wrap, a floating-point value is
  truncated (out of range the conversion is undefined in C++; the common hardware result,
  the smallest value, stands for it).
\<close>

definition wrap_signed :: "nat \<Rightarrow> int \<Rightarrow> int" where
  "wrap_signed w x = (x + 2 ^ (w - 1)) mod 2 ^ w - 2 ^ (w - 1)"

definition truncate_rat :: "rat \<Rightarrow> int" where
  "truncate_rat r = (if 0 \<le> r then \<lfloor>r\<rfloor> else \<lceil>r\<rceil>)"

definition float_to_signed :: "nat \<Rightarrow> rat \<Rightarrow> int" where
  "float_to_signed w r =
     (let t = truncate_rat r
      in if - (2 ^ (w - 1)) \<le> t \<and> t < 2 ^ (w - 1) then t else - (2 ^ (w - 1)))"

text \<open>\<open>get<int>()\<close> and \<open>get<long long>()\<close>: any number, and a boolean as 0 or 1.\<close>

fun get_signed :: "nat \<Rightarrow> json \<Rightarrow> int option" where
  "get_signed w (JInt i) = Some (wrap_signed w i)"
| "get_signed w (JFloat r) = Some (float_to_signed w r)"
| "get_signed w (JBool b) = Some (if b then 1 else 0)"
| "get_signed w _ = None"

abbreviation get_int :: "json \<Rightarrow> int option" where
  "get_int \<equiv> get_signed 32"

text \<open>\<open>get<uint64_t>()\<close>: numbers only.\<close>

fun get_uint64 :: "json \<Rightarrow> nat option" where
  "get_uint64 (JInt i) = Some (nat (i mod 2 ^ 64))"
| "get_uint64 (JFloat r) = Some (nat (truncate_rat r mod 2 ^ 64))"
| "get_uint64 _ = None"

fun get_string :: "json \<Rightarrow> string option" where
  "get_string (JStr s) = Some s"
| "get_string _ = None"

fun get_bool :: "json \<Rightarrow> bool option" where
  "get_bool (JBool b) = Some b"
| "get_bool _ = None"

lemma wrap_signed_id:
  assumes "0 < w" and "- (2 ^ (w - 1)) \<le> x" and "x < 2 ^ (w - 1)"
  shows "wrap_signed w x = x"
proof -
  have "(2::int) ^ w = 2 * 2 ^ (w - 1)" using assms(1) by (cases w) simp_all
  with assms(2,3) show ?thesis by (simp add: wrap_signed_def mod_pos_pos_trivial)
qed

lemma get_int_id [simp]: "- (2 ^ 31) \<le> x \<Longrightarrow> x < 2 ^ 31 \<Longrightarrow> get_int (JInt x) = Some x"
  by (simp add: wrap_signed_id)

lemma get_uint64_id [simp]: "n < 2 ^ 64 \<Longrightarrow> get_uint64 (JInt (int n)) = Some n"
  by (simp add: mod_pos_pos_trivial)

lemma contains_iff: "contains key j \<longleftrightarrow> json_at key j \<noteq> None"
  by (cases j) simp_all

text \<open>Reading a list with a function that may throw.\<close>

fun map_throw :: "('a \<Rightarrow> 'b option) \<Rightarrow> 'a list \<Rightarrow> 'b list option" where
  "map_throw f [] = Some []"
| "map_throw f (x # xs) =
     (case f x of None \<Rightarrow> None | Some y \<Rightarrow> (case map_throw f xs of None \<Rightarrow> None | Some ys \<Rightarrow> Some (y # ys)))"

lemma map_throw_map: "(\<And>x. x \<in> set xs \<Longrightarrow> f (g x) = Some (h x)) \<Longrightarrow> map_throw f (map g xs) = Some (map h xs)"
  by (induction xs) simp_all

end
