(* ===== verification/Coordinator.thy ===== *)
theory Coordinator
  imports Routing Raft_Node Json
begin

text \<open>
  \<^verbatim>\<open>cluster/coordinator_main.cpp\<close>, the topology: the list of shard replicas, the hash ring
  over the active ones, and the state machine that the Raft log drives (\<open>add_shard\<close>,
  \<open>remove_shard\<close>, \<open>set_primary\<close>, snapshots, compaction).  The global variables are a record;
  a pointer into the append-only \<open>g_shards\<close> is the element itself.  Text to JSON and back
  (\<open>parse\<close>, \<open>dump\<close>) are parameters.
\<close>

section \<open>State\<close>

record shard_client =
  shard_id :: int
  replica_id :: int
  sc_host :: string
  sc_port :: int
  active :: bool
  is_primary :: bool
  epoch :: nat

record coordinator =
  g_shards :: "shard_client list"
  active_ring :: hash_ring
  rebalancing :: bool
  g_local_applied_count :: nat
  g_snapshot_applied_index :: nat
  g_raft_commits :: nat

definition COMPACTION_THRESHOLD :: nat where "COMPACTION_THRESHOLD = 64"

definition make_shard_client :: "int \<Rightarrow> int \<Rightarrow> string \<Rightarrow> int \<Rightarrow> bool \<Rightarrow> shard_client" where
  "make_shard_client sid rid h p prim =
     \<lparr>shard_id = sid, replica_id = rid, sc_host = h, sc_port = p, active = True, is_primary = prim, epoch = 0\<rparr>"

definition live_shards :: "coordinator \<Rightarrow> shard_client list" where
  "live_shards c = filter active (g_shards c)"

definition ring_snapshot :: "coordinator \<Rightarrow> hash_ring" where
  "ring_snapshot c = active_ring c"

text \<open>A \<open>std::set<int>\<close> of the shard ids of a pool, in order.\<close>

definition shard_ids :: "shard_client list \<Rightarrow> int list" where
  "shard_ids pool = sort (remdups (map shard_id pool))"

text \<open>The last lines of every change of the active set.\<close>

definition rebuild_ring :: "coordinator \<Rightarrow> coordinator" where
  "rebuild_ring c = c\<lparr>active_ring := build (shard_ids (live_shards c))\<rparr>"

text \<open>
  \<open>replicas_for_shard\<close> sorts primaries first.  \<open>std::sort\<close> is an insertion sort on up to 16
  elements, so it keeps the order of the rest.
\<close>

definition replicas_for_shard :: "shard_client list \<Rightarrow> int \<Rightarrow> shard_client list" where
  "replicas_for_shard pool sid =
     (let out = filter (\<lambda>sc. shard_id sc = sid) pool
      in filter is_primary out @ filter (\<lambda>sc. \<not> is_primary sc) out)"

definition find_primary :: "shard_client list \<Rightarrow> int \<Rightarrow> shard_client option" where
  "find_primary pool sid = find (\<lambda>sc. shard_id sc = sid \<and> is_primary sc) pool"

text \<open>
  \<open>select_read_targets\<close>: for each shard id in order, the last primary for a strong read; for
  an eventual one the first replica that is not primary, else the first.
\<close>

definition read_target :: "string \<Rightarrow> shard_client list \<Rightarrow> shard_client option" where
  "read_target consistency replicas =
     (if consistency = ''strong''
      then find is_primary (rev replicas)
      else (case find (\<lambda>r. \<not> is_primary r) replicas of
              Some r \<Rightarrow> Some r
            | None \<Rightarrow> (case replicas of [] \<Rightarrow> None | r # _ \<Rightarrow> Some r)))"

definition select_read_targets :: "shard_client list \<Rightarrow> string \<Rightarrow> shard_client list" where
  "select_read_targets pool consistency =
     List.map_filter (\<lambda>sid. read_target consistency (filter (\<lambda>sc. shard_id sc = sid) pool)) (shard_ids pool)"

text \<open>
  \<open>ShardEndpoint\<close>, what the configuration file holds of a replica (no epoch), what
  \<open>persist_cluster_state\<close> writes into it, and the part of \<open>main\<close> that starts from it: the
  snapshot of the Raft node, if there is one, counts as applied.
\<close>

record shard_endpoint =
  ep_shard_id :: int
  ep_replica_id :: int
  ep_host :: string
  ep_port :: int
  ep_is_primary :: bool

definition persist_cluster_state :: "coordinator \<Rightarrow> shard_endpoint list" where
  "persist_cluster_state c =
     map (\<lambda>sc. \<lparr>ep_shard_id = shard_id sc, ep_replica_id = replica_id sc, ep_host = sc_host sc,
                 ep_port = sc_port sc, ep_is_primary = is_primary sc\<rparr>) (live_shards c)"

definition start_coordinator :: "shard_endpoint list \<Rightarrow> raft_node option \<Rightarrow> coordinator" where
  "start_coordinator endpoints raft =
     (let shards = map (\<lambda>ep. make_shard_client (ep_shard_id ep) (ep_replica_id ep) (ep_host ep) (ep_port ep)
                               (ep_is_primary ep)) endpoints
      in \<lparr>g_shards = shards, active_ring = build (sort (remdups (map ep_shard_id endpoints))),
          rebalancing = False, g_local_applied_count = 0,
          g_snapshot_applied_index = (case raft of None \<Rightarrow> 0 | Some n \<Rightarrow> st_snapshot_last_index (status n)),
          g_raft_commits = 0\<rparr>)"

section \<open>Snapshots\<close>

text \<open>The document \<open>serialize_raft_snapshot\<close> dumps, members in key order.\<close>

definition client_json :: "shard_client \<Rightarrow> json" where
  "client_json sc = JObj [(''epoch'', JInt (int (epoch sc))), (''host'', JStr (sc_host sc)),
     (''port'', JInt (sc_port sc)), (''primary'', JBool (is_primary sc)),
     (''replica_id'', JInt (replica_id sc)), (''shard_id'', JInt (shard_id sc))]"

definition serialize_raft_snapshot :: "coordinator \<Rightarrow> json" where
  "serialize_raft_snapshot c = JObj [(''shards'', JArr (map client_json (live_shards c)))]"

text \<open>The fields common to a snapshot's and a command's replica; \<open>None\<close> is an exception.\<close>

definition read_replica :: "int \<Rightarrow> nat \<Rightarrow> json \<Rightarrow> shard_client option" where
  "read_replica sid ep r =
     (case Option.bind (json_at ''replica_id'' r) get_int of
        None \<Rightarrow> None
      | Some rid \<Rightarrow> (case Option.bind (json_at ''host'' r) get_string of
          None \<Rightarrow> None
        | Some h \<Rightarrow> (case Option.bind (json_at ''port'' r) get_int of
            None \<Rightarrow> None
          | Some p \<Rightarrow> (case json_value ''primary'' get_bool False r of
              None \<Rightarrow> None
            | Some prim \<Rightarrow> Some ((make_shard_client sid rid h p prim)\<lparr>epoch := ep\<rparr>)))))"

definition read_snapshot_replica :: "json \<Rightarrow> shard_client option" where
  "read_snapshot_replica r =
     (case Option.bind (json_at ''shard_id'' r) get_int of
        None \<Rightarrow> None
      | Some sid \<Rightarrow> (case json_value ''epoch'' get_uint64 0 r of
          None \<Rightarrow> None
        | Some ep \<Rightarrow> read_replica sid ep r))"

definition deactivate :: "shard_client \<Rightarrow> shard_client" where
  "deactivate sc = sc\<lparr>active := False\<rparr>"

definition apply_raft_snapshot :: "(string \<Rightarrow> json option) \<Rightarrow> string \<Rightarrow> coordinator \<Rightarrow> coordinator" where
  "apply_raft_snapshot parse snap c =
     (if snap = '''' then c
      else
        case Option.bind (parse snap) (json_at ''shards'') of
          None \<Rightarrow> c
        | Some rs \<Rightarrow> (case map_throw read_snapshot_replica (json_items rs) of
            None \<Rightarrow> c
          | Some new_clients \<Rightarrow>
              rebuild_ring (c\<lparr>g_shards := map deactivate (g_shards c) @ new_clients\<rparr>)))"

section \<open>Commands\<close>

text \<open>
  One iteration of the loop in \<open>apply_pending_raft_commands\<close> on a parsed command; \<open>None\<close>
  is an exception, which leaves everything as it was.
\<close>

definition apply_add_shard :: "nat \<Rightarrow> json \<Rightarrow> coordinator \<Rightarrow> coordinator option" where
  "apply_add_shard command_epoch cmd c =
     (case Option.bind (json_at ''shard_id'' cmd) get_int of
        None \<Rightarrow> None
      | Some sid \<Rightarrow>
          if \<exists>sc \<in> set (g_shards c). shard_id sc = sid then Some c
          else (case Option.bind (json_at ''replicas'' cmd) (\<lambda>rs. map_throw (read_replica sid command_epoch) (json_items rs)) of
                  None \<Rightarrow> None
                | Some new_clients \<Rightarrow> Some (rebuild_ring (c\<lparr>g_shards := g_shards c @ new_clients\<rparr>))))"

definition apply_remove_shard :: "json \<Rightarrow> coordinator \<Rightarrow> coordinator option" where
  "apply_remove_shard cmd c =
     (case Option.bind (json_at ''shard_id'' cmd) get_int of
        None \<Rightarrow> None
      | Some sid \<Rightarrow>
          Some (rebuild_ring (c\<lparr>g_shards :=
            map (\<lambda>sc. if shard_id sc = sid then deactivate sc else sc) (g_shards c)\<rparr>)))"

definition apply_set_primary :: "nat \<Rightarrow> json \<Rightarrow> coordinator \<Rightarrow> coordinator option" where
  "apply_set_primary command_epoch cmd c =
     (case Option.bind (json_at ''shard_id'' cmd) get_int of
        None \<Rightarrow> None
      | Some sid \<Rightarrow> (case Option.bind (json_at ''replica_id'' cmd) get_int of
          None \<Rightarrow> None
        | Some rid \<Rightarrow>
            Some (c\<lparr>g_shards := map (\<lambda>sc. if shard_id sc \<noteq> sid then sc
              else sc\<lparr>is_primary := (replica_id sc = rid), epoch := command_epoch\<rparr>) (g_shards c)\<rparr>)))"

definition apply_command :: "nat \<Rightarrow> json \<Rightarrow> coordinator \<Rightarrow> coordinator option" where
  "apply_command command_epoch cmd c =
     (case Option.bind (json_at ''type'' cmd) get_string of
        None \<Rightarrow> None
      | Some ty \<Rightarrow>
          if ty = ''add_shard'' then apply_add_shard command_epoch cmd c
          else if ty = ''remove_shard'' then apply_remove_shard cmd c
          else if ty = ''set_primary'' then apply_set_primary command_epoch cmd c
          else Some c)"

text \<open>The loop body with its \<open>catch\<close>, and the loop over the commands from a given epoch on.\<close>

definition apply_raft_command :: "(string \<Rightarrow> json option) \<Rightarrow> nat \<Rightarrow> string \<Rightarrow> coordinator \<Rightarrow> coordinator" where
  "apply_raft_command parse command_epoch text_cmd c =
     (case Option.bind (parse text_cmd) (\<lambda>cmd. apply_command command_epoch cmd c) of
        None \<Rightarrow> c
      | Some c' \<Rightarrow> c')"

fun apply_raft_commands :: "(string \<Rightarrow> json option) \<Rightarrow> nat \<Rightarrow> string list \<Rightarrow> coordinator \<Rightarrow> coordinator" where
  "apply_raft_commands parse ep [] c = c"
| "apply_raft_commands parse ep (cmd # cmds) c =
     apply_raft_commands parse (Suc ep) cmds (apply_raft_command parse ep cmd c)"

text \<open>
  \<open>apply_pending_raft_commands\<close> in three parts: the snapshot catch-up, the commands that
  are new in the status it read, and the compaction at its end.
\<close>

definition catch_up_snapshot :: "(string \<Rightarrow> json option) \<Rightarrow> node_status \<Rightarrow> coordinator \<Rightarrow> coordinator" where
  "catch_up_snapshot parse st c =
     (if st_snapshot_last_index st > g_snapshot_applied_index c
      then (apply_raft_snapshot parse (st_snapshot_data st) c)
             \<lparr>g_snapshot_applied_index := st_snapshot_last_index st, g_local_applied_count := 0\<rparr>
      else c)"

definition apply_new_commands :: "(string \<Rightarrow> json option) \<Rightarrow> node_status \<Rightarrow> coordinator \<Rightarrow> coordinator" where
  "apply_new_commands parse st c =
     (let cmds = st_applied_commands st; cursor = g_local_applied_count c
      in (apply_raft_commands parse (st_snapshot_last_index st + cursor + 1) (drop cursor cmds)
            (c\<lparr>g_raft_commits := u64 (g_raft_commits c + (length cmds - cursor))\<rparr>))
           \<lparr>g_local_applied_count := length cmds\<rparr>)"

definition apply_pending_raft_commands ::
  "(string \<Rightarrow> json option) \<Rightarrow> (json \<Rightarrow> string) \<Rightarrow> raft_node \<Rightarrow> coordinator \<Rightarrow> raft_node \<times> coordinator" where
  "apply_pending_raft_commands parse dump n c =
     (let st = status n; c = catch_up_snapshot parse st c
      in if length (st_applied_commands st) \<le> g_local_applied_count c then (n, c)
         else
           let c = apply_new_commands parse st c
           in if g_local_applied_count c < COMPACTION_THRESHOLD then (n, c)
              else
                let compact_up_to = st_snapshot_last_index st + g_local_applied_count c;
                    (ok, n') = Raft_Node.compact compact_up_to (dump (serialize_raft_snapshot c)) n
                in (n', if ok then c\<lparr>g_local_applied_count := 0\<rparr> else c))"

section \<open>The ring follows the active shards\<close>

definition ring_ok :: "coordinator \<Rightarrow> bool" where
  "ring_ok c \<longleftrightarrow> active_ring c = build (shard_ids (live_shards c))"

lemma set_shard_ids [simp]: "set (shard_ids pool) = shard_id ` set pool"
  by (simp add: shard_ids_def)

lemma set_replicas_for_shard: "set (replicas_for_shard pool sid) = {sc \<in> set pool. shard_id sc = sid}"
  by (auto simp: replicas_for_shard_def Let_def)

lemma replicas_nonempty: "sc \<in> set pool \<Longrightarrow> replicas_for_shard pool (shard_id sc) \<noteq> []"
  using set_replicas_for_shard [of pool "shard_id sc"] by (metis (mono_tags, lifting) empty_iff list.set(1) mem_Collect_eq)

lemma shard_ids_cong: "map shard_id pool = map shard_id pool' \<Longrightarrow> shard_ids pool = shard_ids pool'"
  by (simp add: shard_ids_def)

lemma rebuild_ring_simps [simp]:
  "g_shards (rebuild_ring c) = g_shards c" "live_shards (rebuild_ring c) = live_shards c"
  "g_local_applied_count (rebuild_ring c) = g_local_applied_count c"
  "g_snapshot_applied_index (rebuild_ring c) = g_snapshot_applied_index c"
  "ring_ok (rebuild_ring c)"
  by (simp_all add: rebuild_ring_def live_shards_def ring_ok_def)

lemma live_filter_map:
  assumes "\<And>sc. active (f sc) = active sc"
  shows "filter active (map f xs) = map f (filter active xs)"
  using assms by (induction xs) simp_all

lemma live_deactivated [simp]: "filter active (map deactivate xs) = []"
  by (induction xs) (simp_all add: deactivate_def)

definition promote :: "int \<Rightarrow> int \<Rightarrow> nat \<Rightarrow> shard_client \<Rightarrow> shard_client" where
  "promote sid rid ep sc =
     (if shard_id sc \<noteq> sid then sc else sc\<lparr>is_primary := (replica_id sc = rid), epoch := ep\<rparr>)"

lemma promote_simps [simp]:
  "active (promote sid rid ep sc) = active sc" "shard_id (promote sid rid ep sc) = shard_id sc"
  "replica_id (promote sid rid ep sc) = replica_id sc"
  by (simp_all add: promote_def)

lemma apply_set_primary_cases:
  assumes "apply_set_primary ep cmd c = Some c'"
  obtains sid rid where "c' = c\<lparr>g_shards := map (promote sid rid ep) (g_shards c)\<rparr>"
    "Option.bind (json_at ''shard_id'' cmd) get_int = Some sid"
    "Option.bind (json_at ''replica_id'' cmd) get_int = Some rid"
proof -
  from assms obtain sid rid where i: "Option.bind (json_at ''shard_id'' cmd) get_int = Some sid"
    "Option.bind (json_at ''replica_id'' cmd) get_int = Some rid"
    by (auto simp: apply_set_primary_def split: option.splits)
  with assms have "c' = c\<lparr>g_shards := map (promote sid rid ep) (g_shards c)\<rparr>"
    by (auto simp: apply_set_primary_def promote_def cong: if_cong)
  then show thesis using i by (rule that)
qed

lemma apply_command_cases:
  assumes "apply_command ep cmd c = Some c'"
  shows "c' = c \<or> apply_add_shard ep cmd c = Some c' \<or> apply_remove_shard cmd c = Some c' \<or>
    apply_set_primary ep cmd c = Some c'"
  using assms by (auto simp: apply_command_def split: option.splits if_splits)

lemma apply_command_ring_ok:
  assumes "ring_ok c" and "apply_command ep cmd c = Some c'"
  shows "ring_ok c'"
  using apply_command_cases [OF assms(2)]
proof (elim disjE)
  assume "apply_add_shard ep cmd c = Some c'"
  with assms(1) show ?thesis by (auto simp: apply_add_shard_def split: option.splits if_splits)
next
  assume "apply_remove_shard cmd c = Some c'"
  then show ?thesis by (auto simp: apply_remove_shard_def split: option.splits)
next
  assume "apply_set_primary ep cmd c = Some c'"
  then obtain sid rid where c': "c' = c\<lparr>g_shards := map (promote sid rid ep) (g_shards c)\<rparr>"
    by (rule apply_set_primary_cases)
  have "shard_ids (live_shards c') = shard_ids (live_shards c)"
    by (rule shard_ids_cong) (simp add: c' live_shards_def live_filter_map)
  with assms(1) show ?thesis by (simp add: ring_ok_def c')
qed (use assms in simp)

lemma apply_raft_command_ring_ok: "ring_ok c \<Longrightarrow> ring_ok (apply_raft_command parse ep cmd c)"
  by (auto simp: apply_raft_command_def bind_eq_Some_conv split: option.splits intro: apply_command_ring_ok)

lemma apply_raft_commands_ring_ok: "ring_ok c \<Longrightarrow> ring_ok (apply_raft_commands parse ep cmds c)"
  by (induction cmds arbitrary: ep c) (simp_all add: apply_raft_command_ring_ok)

lemma apply_raft_snapshot_ring_ok: "ring_ok c \<Longrightarrow> ring_ok (apply_raft_snapshot parse s c)"
  by (simp add: apply_raft_snapshot_def split: option.splits)

lemma ring_ok_update [simp]:
  "ring_ok (c\<lparr>g_raft_commits := k\<rparr>) = ring_ok c"
  "ring_ok (c\<lparr>g_local_applied_count := k\<rparr>) = ring_ok c"
  "ring_ok (c\<lparr>g_snapshot_applied_index := k\<rparr>) = ring_ok c"
  "ring_ok (c\<lparr>rebalancing := b\<rparr>) = ring_ok c"
  by (simp_all add: ring_ok_def live_shards_def)

lemma apply_pending_ring_ok:
  assumes "ring_ok c"
  shows "ring_ok (snd (apply_pending_raft_commands parse dump n c))"
proof -
  have c: "ring_ok (catch_up_snapshot parse st c)" for st
    using assms by (simp add: catch_up_snapshot_def apply_raft_snapshot_ring_ok)
  then have "ring_ok (apply_new_commands parse st (catch_up_snapshot parse st c))" for st
    by (simp add: apply_new_commands_def apply_raft_commands_ring_ok Let_def)
  with c show ?thesis by (simp add: apply_pending_raft_commands_def Let_def split: prod.splits)
qed

section \<open>Snapshots carry the topology\<close>

definition client_wf :: "shard_client \<Rightarrow> bool" where
  "client_wf sc \<longleftrightarrow> is_i32 (shard_id sc) \<and> is_i32 (replica_id sc) \<and> is_i32 (sc_port sc) \<and> epoch sc < 2 ^ 64"

lemma read_client_json:
  assumes "client_wf sc" and "active sc"
  shows "read_snapshot_replica (client_json sc) = Some sc"
proof -
  have "get_int (JInt (shard_id sc)) = Some (shard_id sc)" "get_int (JInt (replica_id sc)) = Some (replica_id sc)"
    "get_int (JInt (sc_port sc)) = Some (sc_port sc)" "get_uint64 (JInt (int (epoch sc))) = Some (epoch sc)"
    using assms(1) by (simp_all add: client_wf_def is_i32_def del: get_signed.simps get_uint64.simps)
  with assms(2) show ?thesis
    by (simp add: read_snapshot_replica_def read_replica_def client_json_def make_shard_client_def
        del: get_signed.simps get_uint64.simps)
qed

lemma snapshot_live:
  assumes "parse (dump (serialize_raft_snapshot c)) = Some (serialize_raft_snapshot c)"
    and "dump (serialize_raft_snapshot c) \<noteq> ''''" and "\<forall>sc \<in> set (live_shards c). client_wf sc"
  shows "apply_raft_snapshot parse (dump (serialize_raft_snapshot c)) c' =
    rebuild_ring (c'\<lparr>g_shards := map deactivate (g_shards c') @ live_shards c\<rparr>)"
proof -
  have "map_throw read_snapshot_replica (map client_json (live_shards c)) = Some (map id (live_shards c))"
    using assms(3) by (intro map_throw_map) (auto simp: live_shards_def intro!: read_client_json)
  with assms(1,2) show ?thesis
    by (simp add: apply_raft_snapshot_def) (simp add: serialize_raft_snapshot_def)
qed

lemma live_after_snapshot [simp]:
  "live_shards (c'\<lparr>g_shards := map deactivate (g_shards c') @ live_shards c\<rparr>) = live_shards c"
  by (simp add: live_shards_def)

section \<open>Replay after a snapshot\<close>

text \<open>
  Shard ids that \<open>g_shards\<close> still knows although none of their replicas is active: the
  \<open>exists\<close> test of \<open>add_shard\<close> counts them.
\<close>

definition dead :: "coordinator \<Rightarrow> int set" where
  "dead c = shard_id ` set (g_shards c) - shard_id ` set (live_shards c)"

definition added_id :: "json \<Rightarrow> int option" where
  "added_id cmd =
     (if Option.bind (json_at ''type'' cmd) get_string = Some ''add_shard''
      then Option.bind (json_at ''shard_id'' cmd) get_int else None)"

text \<open>The commands do not add a shard whose id was removed before.\<close>

fun no_readd :: "(string \<Rightarrow> json option) \<Rightarrow> nat \<Rightarrow> string list \<Rightarrow> coordinator \<Rightarrow> bool" where
  "no_readd parse ep [] c \<longleftrightarrow> True"
| "no_readd parse ep (cmd # cmds) c \<longleftrightarrow>
     (case Option.bind (parse cmd) added_id of None \<Rightarrow> True | Some sid \<Rightarrow> sid \<notin> dead c) \<and>
     no_readd parse (Suc ep) cmds (apply_raft_command parse ep cmd c)"

lemma known_ids: "shard_id ` set (g_shards c) = shard_id ` set (live_shards c) \<union> dead c"
  by (auto simp: dead_def live_shards_def)

lemma read_replica_simps:
  "read_replica sid ep r = Some sc \<Longrightarrow> active sc \<and> shard_id sc = sid \<and> epoch sc = ep"
  by (auto simp: read_replica_def make_shard_client_def split: option.splits)

lemma map_throw_Some: "map_throw f xs = Some ys \<Longrightarrow> y \<in> set ys \<Longrightarrow> \<exists>x \<in> set xs. f x = Some y"
  by (induction xs arbitrary: ys) (auto split: option.splits)

lemma new_clients:
  assumes "map_throw (read_replica sid ep) rs = Some new" and "sc \<in> set new"
  shows "active sc \<and> shard_id sc = sid \<and> epoch sc = ep"
  using map_throw_Some [OF assms] read_replica_simps by blast

lemma apply_add_shard_cases:
  assumes "apply_add_shard ep cmd c = Some c'"
  shows "c' = c \<or> (\<exists>sid new. sid \<notin> shard_id ` set (g_shards c) \<and>
    c' = rebuild_ring (c\<lparr>g_shards := g_shards c @ new\<rparr>) \<and>
    (\<forall>sc \<in> set new. active sc \<and> shard_id sc = sid \<and> epoch sc = ep))"
proof -
  obtain sid where sid: "Option.bind (json_at ''shard_id'' cmd) get_int = Some sid"
    using assms by (auto simp: apply_add_shard_def split: option.splits)
  show ?thesis
  proof (cases "\<exists>sc \<in> set (g_shards c). shard_id sc = sid")
    case True
    with assms sid show ?thesis by (simp add: apply_add_shard_def)
  next
    case False
    with assms sid obtain rs new where "map_throw (read_replica sid ep) rs = Some new"
      "c' = rebuild_ring (c\<lparr>g_shards := g_shards c @ new\<rparr>)"
      by (auto simp: apply_add_shard_def bind_eq_Some_conv split: option.splits)
    moreover from this(1) have "\<forall>sc \<in> set new. active sc \<and> shard_id sc = sid \<and> epoch sc = ep"
      using new_clients by blast
    moreover have "sid \<notin> shard_id ` set (g_shards c)" using False by blast
    ultimately show ?thesis by blast
  qed
qed

text \<open>What a command means to a reader of the live list alone.\<close>

definition view_rel :: "coordinator \<Rightarrow> coordinator \<Rightarrow> bool" where
  "view_rel c c' \<longleftrightarrow> live_shards c' = live_shards c \<and> dead c' \<subseteq> dead c"

lemma view_rel_append:
  assumes "view_rel c c'" and "\<forall>sc \<in> set new. active sc \<and> shard_id sc \<notin> dead c"
  shows "view_rel (rebuild_ring (c\<lparr>g_shards := g_shards c @ new\<rparr>))
                  (rebuild_ring (c'\<lparr>g_shards := g_shards c' @ new\<rparr>))"
proof -
  have new: "filter active new = new" using assms(2) by simp
  have "dead (rebuild_ring (d\<lparr>g_shards := g_shards d @ new\<rparr>)) = dead d - shard_id ` set new" for d
    using new by (auto simp: dead_def live_shards_def)
  with assms new show ?thesis by (auto simp: view_rel_def live_shards_def)
qed

lemma live_remove:
  "filter active (map (\<lambda>sc. if shard_id sc = sid then deactivate sc else sc) xs) =
     filter (\<lambda>sc. shard_id sc \<noteq> sid) (filter active xs)"
  by (induction xs) (auto simp: deactivate_def)

lemma view_rel_remove:
  assumes "view_rel c c'"
  shows "view_rel
    (rebuild_ring (c\<lparr>g_shards := map (\<lambda>sc. if shard_id sc = sid then deactivate sc else sc) (g_shards c)\<rparr>))
    (rebuild_ring (c'\<lparr>g_shards := map (\<lambda>sc. if shard_id sc = sid then deactivate sc else sc) (g_shards c')\<rparr>))"
proof -
  let ?rm = "\<lambda>d. rebuild_ring (d\<lparr>g_shards := map (\<lambda>sc. if shard_id sc = sid then deactivate sc else sc) (g_shards d)\<rparr>)"
  have "map shard_id (g_shards (?rm d)) = map shard_id (g_shards d)" for d :: coordinator
    by (simp add: deactivate_def)
  then have ids: "shard_id ` set (g_shards (?rm d)) = shard_id ` set (g_shards d)" for d :: coordinator
    by (metis list.set_map)
  have live: "live_shards (?rm d) = filter (\<lambda>sc. shard_id sc \<noteq> sid) (live_shards d)" for d :: coordinator
    by (simp add: live_shards_def live_remove)
  have "dead (?rm d) = dead d \<union> ({sid} \<inter> shard_id ` set (g_shards d))" for d :: coordinator
    unfolding dead_def ids live by (auto simp: live_shards_def)
  then show ?thesis
    using assms known_ids [of c] known_ids [of c'] live by (auto simp: view_rel_def)
qed

lemma view_rel_promote:
  assumes "view_rel c c'"
  shows "view_rel (c\<lparr>g_shards := map (promote sid rid ep) (g_shards c)\<rparr>)
                  (c'\<lparr>g_shards := map (promote sid rid ep) (g_shards c')\<rparr>)"
proof -
  have live: "live_shards (d\<lparr>g_shards := map (promote sid rid ep) (g_shards d)\<rparr>) = map (promote sid rid ep) (live_shards d)"
    for d :: coordinator by (simp add: live_shards_def live_filter_map)
  have "dead (d\<lparr>g_shards := map (promote sid rid ep) (g_shards d)\<rparr>) = dead d" for d :: coordinator
    unfolding dead_def live by (simp add: image_image)
  with live assms show ?thesis by (simp add: view_rel_def)
qed

lemma apply_set_primary_promote:
  "apply_set_primary ep cmd c =
     (case (Option.bind (json_at ''shard_id'' cmd) get_int, Option.bind (json_at ''replica_id'' cmd) get_int) of
        (Some sid, Some rid) \<Rightarrow> Some (c\<lparr>g_shards := map (promote sid rid ep) (g_shards c)\<rparr>)
      | _ \<Rightarrow> None)"
proof -
  have "promote sid rid ep = (\<lambda>sc. if shard_id sc \<noteq> sid then sc else sc\<lparr>is_primary := (replica_id sc = rid), epoch := ep\<rparr>)"
    for sid rid by (rule ext) (simp add: promote_def)
  then show ?thesis by (simp only: apply_set_primary_def prod.case split: option.splits)
qed

lemma apply_add_view:
  assumes rel: "view_rel c c'" and sid: "Option.bind (json_at ''shard_id'' cmd) get_int = Some sid"
    and new: "sid \<notin> dead c"
  shows "rel_option view_rel (apply_add_shard ep cmd c) (apply_add_shard ep cmd c')"
proof -
  have "sid \<in> shard_id ` set (g_shards c) \<longleftrightarrow> sid \<in> shard_id ` set (g_shards c')"
    using rel new known_ids [of c] known_ids [of c'] by (auto simp: view_rel_def)
  then have ex: "(\<exists>sc \<in> set (g_shards c). shard_id sc = sid) \<longleftrightarrow> (\<exists>sc \<in> set (g_shards c'). shard_id sc = sid)"
    by (auto simp: image_iff)
  let ?rs = "Option.bind (json_at ''replicas'' cmd) (\<lambda>rs. map_throw (read_replica sid ep) (json_items rs))"
  show ?thesis
  proof (cases "(\<exists>sc \<in> set (g_shards c). shard_id sc = sid) \<or> ?rs = None")
    case True
    with rel ex sid show ?thesis by (auto simp: apply_add_shard_def)
  next
    case False
    then obtain clients where clients: "?rs = Some clients" by auto
    then have "\<forall>sc \<in> set clients. active sc \<and> shard_id sc \<notin> dead c"
      using new new_clients by (auto simp: bind_eq_Some_conv)
    from view_rel_append [OF rel this] False ex sid clients show ?thesis
      by (simp add: apply_add_shard_def)
  qed
qed

lemma apply_command_view:
  assumes rel: "view_rel c c'" and new: "\<And>sid. added_id cmd = Some sid \<Longrightarrow> sid \<notin> dead c"
  shows "rel_option view_rel (apply_command ep cmd c) (apply_command ep cmd c')"
proof (cases "Option.bind (json_at ''type'' cmd) get_string")
  case None
  then show ?thesis by (simp add: apply_command_def)
next
  case (Some ty)
  let ?sid = "Option.bind (json_at ''shard_id'' cmd) get_int"
  have "rel_option view_rel (apply_add_shard ep cmd c) (apply_add_shard ep cmd c')" if "ty = ''add_shard''"
  proof (cases ?sid)
    case None
    then show ?thesis by (simp add: apply_add_shard_def)
  next
    case sid: (Some sid)
    with new Some that have "sid \<notin> dead c" by (simp add: added_id_def)
    with rel sid show ?thesis by (rule apply_add_view)
  qed
  moreover have "rel_option view_rel (apply_remove_shard cmd c) (apply_remove_shard cmd c')"
    using view_rel_remove [OF rel] by (cases ?sid) (simp_all add: apply_remove_shard_def)
  moreover have "rel_option view_rel (apply_set_primary ep cmd c) (apply_set_primary ep cmd c')"
    using view_rel_promote [OF rel] by (simp add: apply_set_primary_promote split: option.splits)
  ultimately show ?thesis using rel Some by (simp add: apply_command_def)
qed

lemma apply_raft_command_view:
  assumes "view_rel c c'" and "case Option.bind (parse cmd) added_id of None \<Rightarrow> True | Some sid \<Rightarrow> sid \<notin> dead c"
  shows "view_rel (apply_raft_command parse ep cmd c) (apply_raft_command parse ep cmd c')"
proof (cases "parse cmd")
  case None
  with assms show ?thesis by (simp add: apply_raft_command_def)
next
  case (Some j)
  with assms have "rel_option view_rel (apply_command ep j c) (apply_command ep j c')"
    by (intro apply_command_view) auto
  with Some assms(1) show ?thesis
    by (cases "apply_command ep j c"; cases "apply_command ep j c'") (auto simp: apply_raft_command_def)
qed

lemma apply_raft_commands_view:
  "view_rel c c' \<Longrightarrow> no_readd parse ep cmds c \<Longrightarrow>
   view_rel (apply_raft_commands parse ep cmds c) (apply_raft_commands parse ep cmds c')"
proof (induction cmds arbitrary: ep c c')
  case (Cons cmd cmds)
  then show ?case using apply_raft_command_view [of c c' parse cmd ep] by simp
qed simp

section \<open>Epochs and the append-only list\<close>

text \<open>
  One replica record grows into another: the same replica, no lower epoch, and not active
  again once inactive.
\<close>

definition client_le :: "shard_client \<Rightarrow> shard_client \<Rightarrow> bool" where
  "client_le a b \<longleftrightarrow> shard_id b = shard_id a \<and> replica_id b = replica_id a \<and> sc_host b = sc_host a \<and>
     sc_port b = sc_port a \<and> epoch a \<le> epoch b \<and> (active b \<longrightarrow> active a)"

definition shards_le :: "coordinator \<Rightarrow> coordinator \<Rightarrow> bool" where
  "shards_le c c' \<longleftrightarrow> length (g_shards c) \<le> length (g_shards c') \<and>
     (\<forall>i < length (g_shards c). client_le (g_shards c ! i) (g_shards c' ! i))"

definition epochs_upto :: "nat \<Rightarrow> coordinator \<Rightarrow> bool" where
  "epochs_upto e c \<longleftrightarrow> (\<forall>sc \<in> set (g_shards c). epoch sc \<le> e)"

lemma client_le_refl [simp]: "client_le a a"
  by (simp add: client_le_def)

lemma shards_le_refl [simp]: "shards_le c c"
  by (simp add: shards_le_def)

lemma client_le_trans: "client_le x y \<Longrightarrow> client_le y z \<Longrightarrow> client_le x z"
  by (auto simp: client_le_def)

lemma shards_le_trans: "shards_le a b \<Longrightarrow> shards_le b c \<Longrightarrow> shards_le a c"
  unfolding shards_le_def by (meson client_le_trans le_trans less_le_trans)

lemma shards_le_append: "shards_le c (rebuild_ring (c\<lparr>g_shards := g_shards c @ new\<rparr>))"
  by (simp add: shards_le_def nth_append)

lemma shards_le_map:
  assumes "\<And>sc. sc \<in> set (g_shards c) \<Longrightarrow> client_le sc (f sc)" and "g_shards c' = map f (g_shards c)"
  shows "shards_le c c'"
  using assms by (simp add: shards_le_def)

lemma apply_command_epochs:
  assumes "apply_command ep cmd c = Some c'" and "epochs_upto e c" and "e \<le> ep"
  shows "shards_le c c' \<and> epochs_upto ep c'"
  using apply_command_cases [OF assms(1)]
proof (elim disjE)
  assume "apply_add_shard ep cmd c = Some c'"
  then have "c' = c \<or> (\<exists>new. c' = rebuild_ring (c\<lparr>g_shards := g_shards c @ new\<rparr>) \<and> (\<forall>sc \<in> set new. epoch sc = ep))"
    by (auto dest: apply_add_shard_cases)
  with assms(2,3) show ?thesis by (force simp: epochs_upto_def shards_le_append)
next
  assume "apply_remove_shard cmd c = Some c'"
  then have "\<exists>sid. g_shards c' = map (\<lambda>sc. if shard_id sc = sid then deactivate sc else sc) (g_shards c)"
    by (cases "Option.bind (json_at ''shard_id'' cmd) get_int") (auto simp: apply_remove_shard_def)
  then obtain sid where c': "g_shards c' = map (\<lambda>sc. if shard_id sc = sid then deactivate sc else sc) (g_shards c)" ..
  have "shards_le c c'" by (rule shards_le_map [OF _ c']) (simp add: client_le_def deactivate_def)
  with assms(2,3) show ?thesis by (auto simp: epochs_upto_def c' deactivate_def)
next
  assume "apply_set_primary ep cmd c = Some c'"
  then obtain sid rid where c': "c' = c\<lparr>g_shards := map (promote sid rid ep) (g_shards c)\<rparr>"
    by (rule apply_set_primary_cases)
  have "shards_le c c'"
    by (rule shards_le_map [where f = "promote sid rid ep"])
       (use assms(2,3) in \<open>auto simp: c' client_le_def promote_def epochs_upto_def\<close>)
  with assms(2,3) show ?thesis by (auto simp: epochs_upto_def c' promote_def)
next
  assume "c' = c"
  with assms(2,3) show ?thesis by (auto simp: epochs_upto_def)
qed

lemma apply_raft_command_epochs:
  assumes "epochs_upto e c" and "e \<le> ep"
  shows "shards_le c (apply_raft_command parse ep cmd c) \<and> epochs_upto ep (apply_raft_command parse ep cmd c)"
proof (cases "Option.bind (parse cmd) (\<lambda>j. apply_command ep j c)")
  case None
  with assms show ?thesis by (auto simp: apply_raft_command_def epochs_upto_def)
next
  case (Some c')
  then obtain j where "apply_command ep j c = Some c'" by (auto simp: bind_eq_Some_conv)
  from apply_command_epochs [OF this assms] Some show ?thesis by (simp add: apply_raft_command_def)
qed

lemma apply_raft_commands_epochs:
  assumes "epochs_upto e c" and "e < ep"
  shows "shards_le c (apply_raft_commands parse ep cmds c) \<and>
    epochs_upto (ep + length cmds - 1) (apply_raft_commands parse ep cmds c)"
  using assms
proof (induction cmds arbitrary: e ep c)
  case Nil
  then show ?case by (auto simp: epochs_upto_def)
next
  case (Cons cmd cmds)
  have step: "shards_le c (apply_raft_command parse ep cmd c)" "epochs_upto ep (apply_raft_command parse ep cmd c)"
    using apply_raft_command_epochs [of e c ep parse cmd] Cons.prems by simp_all
  from Cons.IH [OF step(2), of "Suc ep"] step(1) show ?case by (auto intro: shards_le_trans)
qed

section \<open>Properties\<close>

text \<open>The poller and the handlers over time: one call after another, on whatever the node is then.\<close>

fun apply_runs ::
  "(string \<Rightarrow> json option) \<Rightarrow> (json \<Rightarrow> string) \<Rightarrow> raft_node list \<Rightarrow> coordinator \<Rightarrow> coordinator" where
  "apply_runs parse dump [] c = c"
| "apply_runs parse dump (n # ns) c = apply_runs parse dump ns (snd (apply_pending_raft_commands parse dump n c))"

lemma apply_runs_ring_ok: "ring_ok c \<Longrightarrow> ring_ok (apply_runs parse dump ns c)"
  by (induction ns arbitrary: c) (simp_all add: apply_pending_ring_ok)

lemma start_ring_ok: "ring_ok (start_coordinator eps raft)"
  by (simp add: ring_ok_def start_coordinator_def live_shards_def shard_ids_def make_shard_client_def Let_def comp_def)

lemma route_to_live:
  assumes "ring_ok c" and "live_shards c \<noteq> []"
  shows "\<exists>sid. route (ring_snapshot c) key = Some sid \<and> replicas_for_shard (live_shards c) sid \<noteq> []"
proof -
  have ring: "ring_snapshot c = build (shard_ids (live_shards c))"
    using assms(1) by (simp add: ring_ok_def ring_snapshot_def)
  have "shard_ids (live_shards c) \<noteq> []" using assms(2) set_shard_ids [of "live_shards c"] by (auto simp del: set_shard_ids)
  from hr.owner_mem [OF this, of key] obtain sid where
    sid: "sid \<in> shard_id ` set (live_shards c)" "route (ring_snapshot c) key = Some sid"
    by (auto simp: ring)
  moreover from sid(1) obtain sc where "sc \<in> set (live_shards c)" "shard_id sc = sid" by auto
  then have "replicas_for_shard (live_shards c) sid \<noteq> []" using replicas_nonempty by blast
  ultimately show ?thesis by blast
qed

lemma ring_ok_points:
  assumes "ring_ok c"
  shows "sorted (ring (ring_snapshot c))"
    and "point_count (ring_snapshot c) = card (shard_id ` set (live_shards c)) * VIRTUAL_NODES_PER_SHARD"
    and "set (ring (ring_snapshot c)) =
      {(chained_vnode_point sid v, sid) | sid v. sid \<in> shard_id ` set (live_shards c) \<and> v < VIRTUAL_NODES_PER_SHARD}"
    and "live_shards c = [] \<Longrightarrow> route (ring_snapshot c) key = None"
proof -
  have ring: "ring_snapshot c = build (shard_ids (live_shards c))"
    using assms by (simp add: ring_ok_def ring_snapshot_def)
  have "length (shard_ids (live_shards c)) = card (shard_id ` set (live_shards c))"
    by (simp add: shard_ids_def length_remdups_card_conv)
  then show "point_count (ring_snapshot c) = card (shard_id ` set (live_shards c)) * VIRTUAL_NODES_PER_SHARD"
    by (simp add: ring build_sorted_points)
  show "sorted (ring (ring_snapshot c))" by (simp add: ring)
  show "set (ring (ring_snapshot c)) =
      {(chained_vnode_point sid v, sid) | sid v. sid \<in> shard_id ` set (live_shards c) \<and> v < VIRTUAL_NODES_PER_SHARD}"
    by (simp only: ring set_ring_build set_shard_ids points_of_def)
  show "live_shards c = [] \<Longrightarrow> route (ring_snapshot c) key = None"
    by (simp add: ring shard_ids_def build_def route_def lower_bound_def)
qed

text \<open>
  C21: every key has a live shard to go to.  Whatever the Raft log made the coordinator do
  since it started, the ring covers exactly the active shards: its points, in order, are
  the 200 chained hashes of each shard id that has an active replica, and no others.  So
  if no shard is active no key has an owner, and otherwise \<open>route\<close> is defined on every key and the
  shard it names has active replicas.
\<close>

theorem keys_route_to_live_shards:
  "let c = apply_runs parse dump ns (start_coordinator eps raft); owners = shard_id ` set (live_shards c)
   in sorted (ring (ring_snapshot c)) \<and> point_count (ring_snapshot c) = card owners * VIRTUAL_NODES_PER_SHARD \<and>
      set (ring (ring_snapshot c)) =
        {(chained_vnode_point sid v, sid) | sid v. sid \<in> owners \<and> v < VIRTUAL_NODES_PER_SHARD} \<and>
      (if live_shards c = [] then route (ring_snapshot c) key = None
       else \<exists>sid. route (ring_snapshot c) key = Some sid \<and> replicas_for_shard (live_shards c) sid \<noteq> [])"
proof -
  let ?c = "apply_runs parse dump ns (start_coordinator eps raft)"
  have ok: "ring_ok ?c" by (intro apply_runs_ring_ok start_ring_ok)
  then show ?thesis
    using route_to_live [OF ok, of key] ring_ok_points [OF ok] by (simp only: Let_def split: if_split) auto
qed

definition sample_endpoint :: "int \<Rightarrow> int \<Rightarrow> bool \<Rightarrow> shard_endpoint" where
  "sample_endpoint sid rid prim =
     \<lparr>ep_shard_id = sid, ep_replica_id = rid, ep_host = ''h'', ep_port = 9090, ep_is_primary = prim\<rparr>"

text \<open>
  A snapshot carries the whole visible topology.  If the dumped document parses back,
  a coordinator that installs another's snapshot has, whatever it held before, exactly
  the other's active replicas, with their roles and epochs and in their order, and the
  same ring.
\<close>

lemma snapshot_transfers_topology:
  assumes "parse (dump (serialize_raft_snapshot c)) = Some (serialize_raft_snapshot c)"
    and "dump (serialize_raft_snapshot c) \<noteq> ''''" and "\<forall>sc \<in> set (live_shards c). client_wf sc"
  shows "live_shards (apply_raft_snapshot parse (dump (serialize_raft_snapshot c)) c') = live_shards c \<and>
    active_ring (apply_raft_snapshot parse (dump (serialize_raft_snapshot c)) c') = build (shard_ids (live_shards c))"
proof -
  let ?c = "rebuild_ring (c'\<lparr>g_shards := map deactivate (g_shards c') @ live_shards c\<rparr>)"
  have "ring_ok ?c" by (rule rebuild_ring_simps)
  then have "active_ring ?c = build (shard_ids (live_shards c))" by (simp add: ring_ok_def)
  moreover have "apply_raft_snapshot parse (dump (serialize_raft_snapshot c)) c' = ?c"
    by (rule snapshot_live) fact+
  ultimately show ?thesis by simp
qed

text \<open>
  C20: restoring a snapshot and replaying the rest is the same as replaying everything, for
  whoever looks at the active replicas.  A coordinator \<open>c'\<close> that installs the snapshot of \<open>c\<close> and
  then applies the following commands shows the same active replicas, roles and epochs as
  \<open>c\<close> after the same commands, provided none of them adds a shard whose id had been removed before
  and \<open>c'\<close> knows no shards that \<open>c\<close> does not.
\<close>

theorem snapshot_then_replay:
  assumes "parse (dump (serialize_raft_snapshot c)) = Some (serialize_raft_snapshot c)"
    and "dump (serialize_raft_snapshot c) \<noteq> ''''" and "\<forall>sc \<in> set (live_shards c). client_wf sc"
    and "shard_id ` set (g_shards c') \<subseteq> shard_id ` set (g_shards c)" and "no_readd parse ep cmds c"
  shows "live_shards (apply_raft_commands parse ep cmds (apply_raft_snapshot parse (dump (serialize_raft_snapshot c)) c')) =
    live_shards (apply_raft_commands parse ep cmds c)"
proof -
  let ?c = "rebuild_ring (c'\<lparr>g_shards := map deactivate (g_shards c') @ live_shards c\<rparr>)"
  have "shard_id ` set (g_shards ?c) \<subseteq> shard_id ` set (g_shards c)"
    using assms(4) by (auto simp: deactivate_def live_shards_def)
  then have "view_rel c ?c" by (auto simp: view_rel_def dead_def)
  from apply_raft_commands_view [OF this assms(5)]
  have "live_shards (apply_raft_commands parse ep cmds ?c) = live_shards (apply_raft_commands parse ep cmds c)"
    by (simp add: view_rel_def)
  moreover have "apply_raft_snapshot parse (dump (serialize_raft_snapshot c)) c' = ?c"
    by (rule snapshot_live) fact+
  ultimately show ?thesis by simp
qed

text \<open>Commands as the handlers build them.\<close>

definition add_shard_command :: "int \<Rightarrow> json \<Rightarrow> json" where
  "add_shard_command sid replicas =
     JObj [(''replicas'', replicas), (''shard_id'', JInt sid), (''type'', JStr ''add_shard'')]"

definition remove_shard_command :: "int \<Rightarrow> json" where
  "remove_shard_command sid = JObj [(''shard_id'', JInt sid), (''type'', JStr ''remove_shard'')]"

definition set_primary_command :: "int \<Rightarrow> int \<Rightarrow> json" where
  "set_primary_command sid rid =
     JObj [(''replica_id'', JInt rid), (''shard_id'', JInt sid), (''type'', JStr ''set_primary'')]"

definition replica_json :: "int \<Rightarrow> string \<Rightarrow> int \<Rightarrow> bool \<Rightarrow> json" where
  "replica_json rid h p prim =
     JObj [(''host'', JStr h), (''port'', JInt p), (''primary'', JBool prim), (''replica_id'', JInt rid)]"

lemmas command_defs = apply_raft_command_def apply_command_def apply_add_shard_def apply_remove_shard_def
  apply_set_primary_def add_shard_command_def remove_shard_command_def set_primary_command_def
  replica_json_def read_replica_def

text \<open>A toy text format, enough to write commands down: one letter per command.\<close>

definition sample_parse :: "json \<Rightarrow> string \<Rightarrow> json option" where
  "sample_parse snap s =
     (if s = ''a'' then Some (add_shard_command 1 (JArr [replica_json 0 ''h'' 9090 True]))
      else if s = ''r'' then Some (remove_shard_command 1)
      else if s = ''p'' then Some (set_primary_command 0 1)
      else if s = ''s'' then Some snap else None)"

lemma sample_parse_simps [simp]:
  "sample_parse snap ''a'' = Some (add_shard_command 1 (JArr [replica_json 0 ''h'' 9090 True]))"
  "sample_parse snap ''r'' = Some (remove_shard_command 1)"
  "sample_parse snap ''p'' = Some (set_primary_command 0 1)"
  "sample_parse snap ''s'' = Some snap"
  by (simp_all add: sample_parse_def)

definition sample_coord :: coordinator where
  "sample_coord = start_coordinator [sample_endpoint 0 0 True, sample_endpoint 0 1 False] None"

lemma sample_coord_shards [simp]:
  "g_shards sample_coord = [make_shard_client 0 0 ''h'' 9090 True, make_shard_client 0 1 ''h'' 9090 False]"
  "live_shards sample_coord = [make_shard_client 0 0 ''h'' 9090 True, make_shard_client 0 1 ''h'' 9090 False]"
  by (simp_all add: sample_coord_def start_coordinator_def sample_endpoint_def make_shard_client_def
      live_shards_def Let_def)

text \<open>
  The coordinator of one shard polls a node that has applied the addition of shard 1, then
  one that has applied its removal as well.
\<close>

lemma sample_polls:
  "shard_id ` set (live_shards (apply_runs (sample_parse JNull) (\<lambda>_. ''s'') [sample_leader] sample_coord)) = {0, 1}"
  "shard_id ` set (live_shards (apply_runs (sample_parse JNull) (\<lambda>_. ''s'')
     [sample_leader, sample_leader\<lparr>applied_commands := [''a'', ''r'']\<rparr>] sample_coord)) = {0}"
  by (simp_all add: apply_pending_raft_commands_def catch_up_snapshot_def apply_new_commands_def status_def
      sample_leader_def sample_defs sample_coord_def start_coordinator_def sample_endpoint_def COMPACTION_THRESHOLD_def
      command_defs deactivate_def wrap_signed_id make_shard_client_def live_shards_def rebuild_ring_def Let_def)

theorem keys_route_to_live_shards_witness:
  "let poll = (\<lambda>ns. apply_runs (sample_parse JNull) (\<lambda>_. ''s'') ns sample_coord);
       c = poll [sample_leader]; c' = poll [sample_leader, sample_leader\<lparr>applied_commands := [''a'', ''r'']\<rparr>]
   in point_count (ring_snapshot c) = 400 \<and> snd ` set (ring (ring_snapshot c)) = {0, 1} \<and>
      (\<exists>sid. route (ring_snapshot c) ''k'' = Some sid) \<and>
      point_count (ring_snapshot c') = 200 \<and> snd ` set (ring (ring_snapshot c')) = {0} \<and>
      (\<exists>sid. route (ring_snapshot c') ''k'' = Some sid)"
proof -
  let ?poll = "\<lambda>ns. apply_runs (sample_parse JNull) (\<lambda>_. ''s'') ns sample_coord"
  have owners: "snd ` {(chained_vnode_point sid v, sid) | sid v. sid \<in> S \<and> v < VIRTUAL_NODES_PER_SHARD} = S" for S
    unfolding points_of_def [symmetric] using points_of_first snd_points_of by (force intro: image_eqI)
  have p: "point_count (ring_snapshot (?poll ns)) = card S * 200 \<and> snd ` set (ring (ring_snapshot (?poll ns))) = S \<and>
      (\<exists>sid. route (ring_snapshot (?poll ns)) ''k'' = Some sid)"
    if "shard_id ` set (live_shards (?poll ns)) = S" "S \<noteq> {}" for ns S
  proof -
    have "live_shards (?poll ns) \<noteq> []" using that by auto
    with keys_route_to_live_shards [of "sample_parse JNull" "\<lambda>_. ''s''" ns
        "[sample_endpoint 0 0 True, sample_endpoint 0 1 False]" None "''k''", folded sample_coord_def] that(1)
    show ?thesis by (auto simp only: Let_def owners if_False) (simp_all add: VIRTUAL_NODES_PER_SHARD_def)
  qed
  from p [OF sample_polls(1)] p [OF sample_polls(2)] show ?thesis by (simp add: Let_def)
qed

theorem snapshot_then_replay_witness:
  "let parse = sample_parse (serialize_raft_snapshot sample_coord); dump = (\<lambda>_. ''s'')
   in live_shards (apply_raft_commands parse 1 [''p'', ''a'']
        (apply_raft_snapshot parse (dump (serialize_raft_snapshot sample_coord)) (start_coordinator [] None))) =
      [\<lparr>shard_id = 0, replica_id = 0, sc_host = ''h'', sc_port = 9090, active = True, is_primary = False, epoch = 1\<rparr>,
       \<lparr>shard_id = 0, replica_id = 1, sc_host = ''h'', sc_port = 9090, active = True, is_primary = True, epoch = 1\<rparr>,
       \<lparr>shard_id = 1, replica_id = 0, sc_host = ''h'', sc_port = 9090, active = True, is_primary = True, epoch = 2\<rparr>]"
proof -
  let ?parse = "sample_parse (serialize_raft_snapshot sample_coord)"
  have wf: "\<forall>sc \<in> set (live_shards sample_coord). client_wf sc"
    by (simp add: client_wf_def make_shard_client_def is_i32_def)
  have nr: "no_readd ?parse 1 [''p'', ''a''] sample_coord"
    by (simp add: added_id_def command_defs dead_def wrap_signed_id make_shard_client_def
        live_shards_def)
  have run: "live_shards (apply_raft_commands ?parse 1 [''p'', ''a''] sample_coord) =
      [\<lparr>shard_id = 0, replica_id = 0, sc_host = ''h'', sc_port = 9090, active = True, is_primary = False, epoch = 1\<rparr>,
       \<lparr>shard_id = 0, replica_id = 1, sc_host = ''h'', sc_port = 9090, active = True, is_primary = True, epoch = 1\<rparr>,
       \<lparr>shard_id = 1, replica_id = 0, sc_host = ''h'', sc_port = 9090, active = True, is_primary = True, epoch = 2\<rparr>]"
    by (simp add: command_defs wrap_signed_id make_shard_client_def live_shards_def
        rebuild_ring_def)
  have "live_shards (apply_raft_commands ?parse 1 [''p'', ''a'']
        (apply_raft_snapshot ?parse ((\<lambda>_. ''s'') (serialize_raft_snapshot sample_coord)) (start_coordinator [] None))) =
      live_shards (apply_raft_commands ?parse 1 [''p'', ''a''] sample_coord)"
    by (rule snapshot_then_replay) (use wf nr in \<open>simp_all add: start_coordinator_def Let_def\<close>)
  with run show ?thesis by (simp add: Let_def)
qed

text \<open>
  C29: two coordinators can disagree for good.  \<open>add_shard\<close> is ignored if \<open>g_shards\<close> still lists
  the id as removed, but a snapshot does not carry removed shards.  One coordinator applies
  add, remove, add; another installs the snapshot taken after the remove and applies the
  same last command: the first does not have the shard, the second does, and they route
  keys differently from then on.
\<close>

theorem readd_after_remove_diverges:
  "let c = apply_raft_commands (sample_parse JNull) 1 [''a'', ''r''] sample_coord;
       parse = sample_parse (serialize_raft_snapshot c);
       c' = apply_raft_snapshot parse ''s'' (start_coordinator [] None);
       d = apply_raft_commands parse 3 [''a''] c; d' = apply_raft_commands parse 3 [''a''] c'
   in live_shards c' = live_shards c \<and> shard_ids (live_shards d) = [0] \<and> shard_ids (live_shards d') = [0, 1]"
proof -
  define c where "c = apply_raft_commands (sample_parse JNull) 1 [''a'', ''r''] sample_coord"
  let ?parse = "sample_parse (serialize_raft_snapshot c)"
  have gs: "g_shards c = g_shards sample_coord @ [(make_shard_client 1 0 ''h'' 9090 True)\<lparr>epoch := 1, active := False\<rparr>]"
    by (simp add: c_def command_defs wrap_signed_id make_shard_client_def deactivate_def rebuild_ring_def)
  then have live: "live_shards c = live_shards sample_coord"
    by (simp add: live_shards_def make_shard_client_def)
  have wf: "\<forall>sc \<in> set (live_shards c). client_wf sc"
    by (simp add: live client_wf_def make_shard_client_def is_i32_def)
  have c': "apply_raft_snapshot ?parse ((\<lambda>_. ''s'') (serialize_raft_snapshot c)) (start_coordinator [] None) =
      rebuild_ring ((start_coordinator [] None)\<lparr>g_shards :=
        map deactivate (g_shards (start_coordinator [] None)) @ live_shards c\<rparr>)"
    by (rule snapshot_live) (use wf in simp_all)
  have e: "g_shards (start_coordinator [] None) = []" by (simp add: start_coordinator_def Let_def)
  have d: "apply_raft_command ?parse 3 ''a'' c = c"
    by (simp add: command_defs wrap_signed_id gs make_shard_client_def)
  have d': "live_shards (apply_raft_command ?parse 3 ''a'' (rebuild_ring ((start_coordinator [] None)\<lparr>g_shards := live_shards c\<rparr>))) =
      live_shards c @ [(make_shard_client 1 0 ''h'' 9090 True)\<lparr>epoch := 3\<rparr>]"
    by (simp add: command_defs wrap_signed_id live make_shard_client_def)
       (simp add: live_shards_def)
  have ids: "shard_ids (live_shards c) = [0]"
    "shard_ids (live_shards c @ [(make_shard_client 1 0 ''h'' 9090 True)\<lparr>epoch := 3\<rparr>]) = [0, 1]"
    by (simp_all add: live make_shard_client_def shard_ids_def)
  show ?thesis
    unfolding Let_def c_def [symmetric]
    using c' d d' ids live_after_snapshot [of "start_coordinator [] None" c] by (simp add: e)
qed

text \<open>
  \<open>g_shards\<close> is append-only and epochs only grow.  Applying the new commands of a
  status keeps every replica at its position with its identity, never lowers an epoch and
  never reactivates a replica; afterwards no epoch is above the index of the last command
  applied.
\<close>

lemma replicas_append_only_epochs_grow:
  assumes "epochs_upto (st_snapshot_last_index st + g_local_applied_count c) c"
    and "g_local_applied_count c \<le> length (st_applied_commands st)"
  shows "shards_le c (apply_new_commands parse st c) \<and>
    epochs_upto (st_snapshot_last_index st + length (st_applied_commands st)) (apply_new_commands parse st c)"
proof -
  let ?n = "st_snapshot_last_index st + g_local_applied_count c"
  let ?c = "c\<lparr>g_raft_commits := u64 (g_raft_commits c + (length (st_applied_commands st) - g_local_applied_count c))\<rparr>"
  have "epochs_upto ?n ?c" using assms(1) by (simp add: epochs_upto_def)
  from apply_raft_commands_epochs [OF this, of "?n + 1" parse "drop (g_local_applied_count c) (st_applied_commands st)"]
  show ?thesis using assms(2) by (simp add: apply_new_commands_def epochs_upto_def shards_le_def Let_def)
qed

text \<open>
  \<open>set_primary\<close> leaves exactly one primary.  After the command every replica of that
  shard has the command's epoch and is primary exactly if it is the one named; every other
  shard's replicas and the ring are as before.
\<close>

lemma set_primary_exact:
  assumes "parse t = Some (set_primary_command sid rid)" and "is_i32 sid" and "is_i32 rid"
  shows "let c' = apply_raft_command parse ep t c in
    active_ring c' = active_ring c \<and> length (g_shards c') = length (g_shards c) \<and>
    (\<forall>i < length (g_shards c). let sc = g_shards c ! i; sc' = g_shards c' ! i in
       if shard_id sc = sid then sc' = sc\<lparr>is_primary := (replica_id sc = rid), epoch := ep\<rparr> else sc' = sc)"
  using assms
  by (simp add: command_defs is_i32_def wrap_signed_id Let_def)

text \<open>
  A restart forgets the epochs.  The configuration file has no epoch, and the node's
  snapshot counts as applied, so a restarted coordinator knows the same active replicas
  with epoch 0; replaying the committed \<open>add_shard\<close> of a shard that is in the file does
  not restore it, because the shard exists.  A shard node that has seen a later epoch
  refuses every write of this coordinator until the next \<open>set_primary\<close>.
\<close>

lemma restart_forgets_epochs:
  assumes "parse t = Some (add_shard_command sid replicas)" and "is_i32 sid"
    and "sid \<in> shard_id ` set (live_shards c)" and "st_snapshot_last_index (status n) = st_snapshot_last_index st"
  shows "let c0 = start_coordinator (persist_cluster_state c) (Some n) in
    live_shards c0 = map (\<lambda>sc. sc\<lparr>epoch := 0\<rparr>) (live_shards c) \<and>
    catch_up_snapshot parse st c0 = c0 \<and> apply_raft_command parse ep t c0 = c0"
proof -
  let ?c0 = "start_coordinator (persist_cluster_state c) (Some n)"
  have "map (\<lambda>sc. make_shard_client (shard_id sc) (replica_id sc) (sc_host sc) (sc_port sc) (is_primary sc))
      (filter active xs) = map (\<lambda>sc. sc\<lparr>epoch := 0\<rparr>) (filter active xs)" for xs
    by (auto simp: make_shard_client_def)
  then have gs: "g_shards ?c0 = map (\<lambda>sc. sc\<lparr>epoch := 0\<rparr>) (live_shards c)"
    by (simp add: start_coordinator_def persist_cluster_state_def live_shards_def comp_def Let_def)
  then have live: "live_shards ?c0 = map (\<lambda>sc. sc\<lparr>epoch := 0\<rparr>) (live_shards c)"
    by (simp add: live_shards_def [of ?c0]) (simp add: live_shards_def)
  have "\<exists>sc \<in> set (g_shards ?c0). shard_id sc = sid" using assms(3) by (auto simp: gs)
  then have "apply_raft_command parse ep t ?c0 = ?c0"
    using assms(1,2) by (simp add: command_defs is_i32_def wrap_signed_id)
  moreover have "catch_up_snapshot parse st ?c0 = ?c0"
    using assms(4) by (simp add: catch_up_snapshot_def start_coordinator_def Let_def)
  ultimately show ?thesis using live by (simp add: Let_def)
qed

end
