(* ===== verification/Raft_Cluster.thy ===== *)
theory Raft_Cluster
  imports Raft_Node
begin

text \<open>
  The Raft cluster: several nodes of \<open>Raft_Node\<close> and the calls in flight between them.  An
  action is one critical section of one node, or the loss of a message, or a crash with a
  restart from the two files; the gRPC layer (\<^verbatim>\<open>cluster/raft_service_impl.hpp\<close> forwards each
  call to the node's handler) may delay, reorder and lose calls and answers but delivers
  each at most once.  The theorems are about every interleaving of actions.
\<close>

section \<open>State\<close>

text \<open>
  What the ticker thread is doing: waiting, about to start an election (\<open>tick_loop\<close> has
  read the clock and released the mutex), or inside \<open>start_election\<close>, with the futures that
  are still pending and the peers whose future returned \<open>true\<close>.
\<close>

datatype ticker = Idle | Starting | Running election "int list" "int list"

text \<open>
  Calls in flight, by sender and receiver.  An answer carries what the waiting thread
  still needs of its request.  A \<open>SendTask\<close> is a thread about to enter
  \<open>send_append_entries_to_peer\<close>; a \<open>BuildTask\<close> is one between its two critical sections.
\<close>

datatype message =
    VoteReq int int request_vote_request
  | VoteResp int int nat request_vote_response
  | SendTask int int nat nat
  | BuildTask int int nat nat
  | EntriesReq int int append_entries_request
  | EntriesResp int int nat nat nat append_entries_response
  | SnapReq int int install_snapshot_request
  | SnapResp int int nat nat install_snapshot_response

text \<open>
  \<open>ballots\<close> is a history variable no action reads: who voted for whom in which term.
\<close>

record cluster =
  node :: "int \<Rightarrow> raft_node"
  ticker_of :: "int \<Rightarrow> ticker"
  msgs :: "message list"
  ballots :: "(int \<times> nat \<times> int) list"

abbreviation ids :: "raft_peer list \<Rightarrow> int set" where
  "ids cfg \<equiv> set (map node_id cfg)"

definition cluster_init :: "raft_peer list \<Rightarrow> (int \<Rightarrow> clock) \<Rightarrow> cluster" where
  "cluster_init cfg cl = \<lparr>node = (\<lambda>i. fst (snd (RaftNode WriteOk WriteOk (cl i) i cfg
       ''raft_state'' ''raft_log'' Map.empty))),
     ticker_of = (\<lambda>_. Idle), msgs = [], ballots = []\<rparr>"

section \<open>Actions\<close>

datatype action =
    TickAct int clock
  | BeginElection int clock
  | DeliverVote int int request_vote_request clock
  | VoteAnswer int int nat request_vote_response
  | VoteFails int int
  | FinishElection int clock
  | Replicate int
  | RunSend int int nat nat
  | RunBuild int int nat nat
  | DeliverEntries int int append_entries_request clock
  | EntriesAnswer int int nat nat nat append_entries_response
  | DeliverSnap int int install_snapshot_request clock
  | SnapAnswer int int nat nat install_snapshot_response
  | ProposeAct int string
  | CompactAct int nat string
  | Lose message
  | Restart int clock

text \<open>When an action can happen.\<close>

fun enabled :: "raft_peer list \<Rightarrow> action \<Rightarrow> cluster \<Rightarrow> bool" where
  "enabled cfg (TickAct i c) s \<longleftrightarrow> i \<in> ids cfg \<and> ticker_of s i = Idle"
| "enabled cfg (BeginElection i c) s \<longleftrightarrow> i \<in> ids cfg \<and> ticker_of s i = Starting \<and>
     cur_term (node s i) + 1 < 2 ^ 64"
| "enabled cfg (DeliverVote i j req c) s \<longleftrightarrow> VoteReq i j req \<in> set (msgs s)"
| "enabled cfg (VoteAnswer j i t resp) s \<longleftrightarrow> VoteResp j i t resp \<in> set (msgs s) \<and>
     (case ticker_of s i of Running e pending granted \<Rightarrow> election_term e = t \<and> j \<in> set pending | _ \<Rightarrow> False)"
| "enabled cfg (VoteFails i j) s \<longleftrightarrow> i \<in> ids cfg \<and>
     (case ticker_of s i of Running e pending granted \<Rightarrow> j \<in> set pending | _ \<Rightarrow> False)"
| "enabled cfg (FinishElection i c) s \<longleftrightarrow> i \<in> ids cfg \<and>
     (case ticker_of s i of Running e pending granted \<Rightarrow> pending = [] | _ \<Rightarrow> False) \<and>
     last_index (rn_log (node s i)) + 1 < 2 ^ 64"
| "enabled cfg (Replicate i) s \<longleftrightarrow> i \<in> ids cfg"
| "enabled cfg (RunSend i j t nx) s \<longleftrightarrow> SendTask i j t nx \<in> set (msgs s)"
| "enabled cfg (RunBuild i j t nx) s \<longleftrightarrow> BuildTask i j t nx \<in> set (msgs s)"
| "enabled cfg (DeliverEntries i j req c) s \<longleftrightarrow> EntriesReq i j req \<in> set (msgs s)"
| "enabled cfg (EntriesAnswer j i t prev sent resp) s \<longleftrightarrow>
     EntriesResp j i t prev sent resp \<in> set (msgs s) \<and> prev + sent + 1 < 2 ^ 64"
| "enabled cfg (DeliverSnap i j req c) s \<longleftrightarrow> SnapReq i j req \<in> set (msgs s)"
| "enabled cfg (SnapAnswer j i t idx resp) s \<longleftrightarrow>
     SnapResp j i t idx resp \<in> set (msgs s) \<and> idx + 1 < 2 ^ 64"
| "enabled cfg (ProposeAct i cmd) s \<longleftrightarrow> i \<in> ids cfg"
| "enabled cfg (CompactAct i k data) s \<longleftrightarrow> i \<in> ids cfg"
| "enabled cfg (Lose m) s \<longleftrightarrow> m \<in> set (msgs s)"
| "enabled cfg (Restart i c) s \<longleftrightarrow> i \<in> ids cfg"

text \<open>
  The files of a node, whose last write succeeded, and the threads that die with a process:
  its own sending tasks and everything that waits for an answer.
\<close>

definition disk_of :: "raft_node \<Rightarrow> disk" where
  "disk_of n = [log_path (rn_log n) \<mapsto> encode_log (rn_log n),
                state_path (rn_state n) \<mapsto> encode_state (rn_state n)]"

definition restart :: "clock \<Rightarrow> raft_node \<Rightarrow> raft_node" where
  "restart c n = fst (snd (RaftNode WriteOk WriteOk c (self_id n) (peers n)
     (state_path (rn_state n)) (log_path (rn_log n)) (disk_of n)))"

fun dies_with :: "int \<Rightarrow> message \<Rightarrow> bool" where
  "dies_with i (VoteResp j k t r) \<longleftrightarrow> k = i"
| "dies_with i (SendTask k j t nx) \<longleftrightarrow> k = i"
| "dies_with i (BuildTask k j t nx) \<longleftrightarrow> k = i"
| "dies_with i (EntriesResp j k t p n r) \<longleftrightarrow> k = i"
| "dies_with i (SnapResp j k t x r) \<longleftrightarrow> k = i"
| "dies_with i _ \<longleftrightarrow> False"

definition set_node :: "int \<Rightarrow> raft_node \<Rightarrow> cluster \<Rightarrow> cluster" where
  "set_node i n s = s\<lparr>node := (node s)(i := n)\<rparr>"

definition set_ticker :: "int \<Rightarrow> ticker \<Rightarrow> cluster \<Rightarrow> cluster" where
  "set_ticker i tk s = s\<lparr>ticker_of := (ticker_of s)(i := tk)\<rparr>"

definition swap_msgs :: "message list \<Rightarrow> message list \<Rightarrow> cluster \<Rightarrow> cluster" where
  "swap_msgs gone new s = s\<lparr>msgs := fold remove1 gone (msgs s) @ new\<rparr>"

definition cast :: "int \<Rightarrow> nat \<Rightarrow> int \<Rightarrow> cluster \<Rightarrow> cluster" where
  "cast voter t candidate s = s\<lparr>ballots := (voter, t, candidate) # ballots s\<rparr>"

lemmas cluster_defs = set_node_def set_ticker_def swap_msgs_def cast_def

text \<open>
  What an action does.  A call is consumed when it is delivered and its answer is put in
  flight; the thread that waits for an answer consumes it.
\<close>

fun effect :: "action \<Rightarrow> cluster \<Rightarrow> cluster outcome" where
  "effect (TickAct i c) s =
     (let ((start_election, replicate), n) = tick c (node s i)
      in Returns (set_ticker i (if start_election then Starting else Idle) (set_node i n s)))"
| "effect (BeginElection i c) s =
     (let (e, n) = election_begin c (node s i)
      in Returns (cast i (election_term e) i
           (swap_msgs [] (map (\<lambda>p. VoteReq i p (vote_request e n)) (stub_ids n))
           (set_ticker i (Running e (stub_ids n) []) (set_node i n s)))))"
| "effect (DeliverVote i j req c) s =
     (let (resp, n) = handle_request_vote c req (node s j);
          s = swap_msgs [VoteReq i j req] [VoteResp j i (rv_term req) resp] (set_node j n s)
      in Returns (if vote_granted resp then cast j (rv_term req) (candidate_id req) s else s))"
| "effect (VoteAnswer j i t resp) s =
     (case ticker_of s i of
        Running e pending granted \<Rightarrow>
          (let (yes, n) = on_vote_response e (Some resp) (node s i)
           in Returns (swap_msgs [VoteResp j i t resp] []
                (set_ticker i (Running e (remove1 j pending) (if yes then j # granted else granted))
                (set_node i n s))))
      | _ \<Rightarrow> Returns s)"
| "effect (VoteFails i j) s =
     (case ticker_of s i of
        Running e pending granted \<Rightarrow>
          (let (yes, n) = on_vote_response e None (node s i)
           in Returns (set_ticker i (Running e (remove1 j pending) (if yes then j # granted else granted))
                (set_node i n s)))
      | _ \<Rightarrow> Returns s)"
| "effect (FinishElection i c) s =
     (case ticker_of s i of
        Running e pending granted \<Rightarrow>
          Returns (set_ticker i Idle (set_node i (election_finish c e (length granted) (node s i)) s))
      | _ \<Rightarrow> Returns s)"
| "effect (Replicate i) s =
     bind_outcome (replicate_to_followers (node s i)) (\<lambda>r.
       case r of
         None \<Rightarrow> Returns s
       | Some (t, nexts) \<Rightarrow> Returns (swap_msgs [] (map (\<lambda>(p, nx). SendTask i p t nx) nexts) s))"
| "effect (RunSend i j t nx) s =
     Returns (swap_msgs [SendTask i j t nx]
       (case send_decide t nx (node s i) of
          SendNothing \<Rightarrow> []
        | SendSnapshot req \<Rightarrow> [SnapReq i j req]
        | SendEntries \<Rightarrow> [BuildTask i j t nx]) s)"
| "effect (RunBuild i j t nx) s =
     Returns (swap_msgs [BuildTask i j t nx]
       (case build_append_entries t nx (node s i) of
          None \<Rightarrow> []
        | Some req \<Rightarrow> [EntriesReq i j req]) s)"
| "effect (DeliverEntries i j req c) s =
     (let (resp, n) = handle_append_entries c req (node s j)
      in Returns (swap_msgs [EntriesReq i j req]
           [EntriesResp j i (ae_term req) (prev_log_index req) (length (ae_entries req)) resp] (set_node j n s)))"
| "effect (EntriesAnswer j i t prev sent resp) s =
     bind_outcome (on_append_response t j prev sent resp (node s i)) (\<lambda>n.
       Returns (swap_msgs [EntriesResp j i t prev sent resp] [] (set_node i n s)))"
| "effect (DeliverSnap i j req c) s =
     (let (resp, n) = handle_install_snapshot c req (node s j)
      in Returns (swap_msgs [SnapReq i j req] [SnapResp j i (is_term req) (last_included_index req) resp]
           (set_node j n s)))"
| "effect (SnapAnswer j i t idx resp) s =
     Returns (swap_msgs [SnapResp j i t idx resp] []
       (set_node i (on_snapshot_response t j idx resp (node s i)) s))"
| "effect (ProposeAct i cmd) s =
     bind_outcome (propose_begin cmd (node s i)) (\<lambda>r. Returns (set_node i (snd r) s))"
| "effect (CompactAct i k data) s = Returns (set_node i (snd (compact k data (node s i))) s)"
| "effect (Lose m) s = Returns (swap_msgs [m] [] s)"
| "effect (Restart i c) s =
     Returns (set_ticker i Idle (set_node i (restart c (node s i))
       (s\<lparr>msgs := filter (\<lambda>m. \<not> dies_with i m) (msgs s)\<rparr>)))"

inductive cluster_step :: "raft_peer list \<Rightarrow> cluster \<Rightarrow> cluster \<Rightarrow> bool" for cfg where
  act: "enabled cfg a s \<Longrightarrow> effect a s = Returns s' \<Longrightarrow> cluster_step cfg s s'"

inductive reachable :: "raft_peer list \<Rightarrow> cluster \<Rightarrow> bool" for cfg where
  init: "reachable cfg (cluster_init cfg cl)"
| step: "reachable cfg s \<Longrightarrow> cluster_step cfg s s' \<Longrightarrow> reachable cfg s'"

inductive_cases cluster_stepE: "cluster_step cfg s s'"

fun cluster_run :: "raft_peer list \<Rightarrow> action list \<Rightarrow> cluster \<Rightarrow> cluster option" where
  "cluster_run cfg [] s = Some s"
| "cluster_run cfg (a # as) s =
     (if enabled cfg a s
      then (case effect a s of Returns s' \<Rightarrow> cluster_run cfg as s' | Undefined \<Rightarrow> None)
      else None)"

lemma cluster_run_reachable:
  "cluster_run cfg as s = Some s' \<Longrightarrow> reachable cfg s \<Longrightarrow> reachable cfg s'"
  by (induction cfg as s rule: cluster_run.induct)
     (auto split: if_splits outcome.splits intro: reachable.step cluster_step.act)

section \<open>What one node guarantees\<close>

text \<open>The numbers in a request or an answer fit the 64-bit and 32-bit fields that carry them.\<close>

fun event_wf :: "node_event \<Rightarrow> bool" where
  "event_wf (RequestVote c rv) \<longleftrightarrow> rv_term rv < 2 ^ 64 \<and> is_i32 (candidate_id rv)"
| "event_wf (AppendEntries c ae) \<longleftrightarrow> ae_term ae < 2 ^ 64"
| "event_wf (InstallSnapshot c isq) \<longleftrightarrow> is_term isq < 2 ^ 64"
| "event_wf (VoteResponse e resp) \<longleftrightarrow> (case resp of None \<Rightarrow> True | Some r \<Rightarrow> rvr_term r < 2 ^ 64)"
| "event_wf (AppendResponse trm peer prev sent ar) \<longleftrightarrow> aer_term ar < 2 ^ 64"
| "event_wf (SnapshotResponse trm peer snap_idx sr) \<longleftrightarrow> isr_term sr < 2 ^ 64"
| "event_wf _ \<longleftrightarrow> True"

lemma wf_state_ps_set [simp]: "wf_state (ps_set t v ps) \<longleftrightarrow> t < 2 ^ 64 \<and> is_i32 v"
  by (simp add: wf_state_def)

lemma is_i32_no_vote [simp]: "is_i32 (- 1)"
  by (simp add: is_i32_def)

lemma wf_state_become_follower [simp]:
  "wf_state (rn_state (become_follower_locked t n)) \<longleftrightarrow> t < 2 ^ 64"
  by (simp add: become_follower_locked_def)

lemma wf_state_observe [simp]:
  "wf_state (rn_state n) \<Longrightarrow> wf_state (rn_state (observe_term t n)) \<longleftrightarrow> t < 2 ^ 64 \<or> t \<le> cur_term n"
  by (auto simp: observe_term_def)

lemma exec_wf_state:
  assumes "exec ev n = Returns n'" and "event_wf ev" and "wf_state (rn_state n)" and "is_i32 (self_id n)"
  shows "wf_state (rn_state n')"
proof (cases ev)
  case (RequestVote c rv)
  with assms show ?thesis by (auto simp: handle_request_vote_def wf_state_def Let_def)
next
  case (AppendEntries c ae)
  with assms show ?thesis by (auto simp: handle_append_entries_def Let_def)
next
  case (InstallSnapshot c isq)
  with assms show ?thesis by (auto simp: handle_install_snapshot_def Let_def)
next
  case (Propose cmd)
  with assms show ?thesis
    by (auto simp: propose_begin_def Let_def split: if_splits dest!: advance_commit_frame(3))
next
  case (ElectionBegin c)
  with assms show ?thesis by (auto simp: election_begin_def u64_def Let_def)
next
  case (AppendResponse trm peer prev sent ar)
  with assms show ?thesis
    by (auto simp: on_append_response_def Let_def split: if_splits dest!: advance_commit_frame(3))
qed (use assms in \<open>auto simp: tick_def compact_def on_vote_response_def election_finish_def
       on_snapshot_response_def Let_def split: if_splits option.splits\<close>)

text \<open>Only the end of an election makes a leader, and a leader keeps its term.\<close>

lemma exec_leader_kept:
  assumes "exec ev n = Returns n'" and "role n' = Leader" and "\<And>c e g. ev \<noteq> ElectionFinish c e g"
  shows "role n = Leader \<and> cur_term n' = cur_term n"
proof (cases ev)
  case (Propose cmd)
  with assms show ?thesis
    by (auto simp: propose_begin_def Let_def split: if_splits dest: advance_commit_frame)
next
  case (AppendResponse trm peer prev sent ar)
  with assms show ?thesis
    by (auto simp: on_append_response_def Let_def split: if_splits dest: advance_commit_frame)
qed (use assms in \<open>auto simp: tick_def compact_def on_vote_response_def election_begin_def
       handle_request_vote_def handle_append_entries_def handle_install_snapshot_def
       on_snapshot_response_def Let_def split: if_splits option.splits\<close>)

section \<open>The invariant\<close>

definition config_ok :: "raft_peer list \<Rightarrow> bool" where
  "config_ok cfg \<longleftrightarrow> distinct (map node_id cfg) \<and> (\<forall>i \<in> ids cfg. is_i32 i \<and> i \<noteq> - 1)"

definition node_inv :: "raft_peer list \<Rightarrow> int \<Rightarrow> raft_node \<Rightarrow> bool" where
  "node_inv cfg i n \<longleftrightarrow> self_id n = i \<and> peers n = cfg \<and> leader_wf n \<and> wf_state (rn_state n)"

text \<open>A ballot is still on the voter's record, or the voter has moved to a later term.\<close>

definition ballot_ok :: "raft_peer list \<Rightarrow> (int \<Rightarrow> raft_node) \<Rightarrow> int \<times> nat \<times> int \<Rightarrow> bool" where
  "ballot_ok cfg nd b = (case b of (j, t, a) \<Rightarrow> a \<in> ids cfg \<and>
     (t < cur_term (nd j) \<or> (t = cur_term (nd j) \<and> vote (nd j) = a)))"

definition leader_ok :: "raft_peer list \<Rightarrow> (int \<times> nat \<times> int) set \<Rightarrow> int \<Rightarrow> raft_node \<Rightarrow> bool" where
  "leader_ok cfg bs i n \<longleftrightarrow> (role n = Leader \<longrightarrow>
     majority_of (ids cfg) {j \<in> ids cfg. (j, cur_term n, i) \<in> bs})"

fun ticker_ok :: "raft_peer list \<Rightarrow> (int \<times> nat \<times> int) set \<Rightarrow> int \<Rightarrow> role_t \<Rightarrow> ticker \<Rightarrow> bool" where
  "ticker_ok cfg bs i r Idle \<longleftrightarrow> True"
| "ticker_ok cfg bs i r Starting \<longleftrightarrow> r \<noteq> Leader"
| "ticker_ok cfg bs i r (Running e pending granted) \<longleftrightarrow> r \<noteq> Leader \<and>
     distinct (pending @ granted) \<and> set (pending @ granted) \<subseteq> ids cfg - {i} \<and>
     (i, election_term e, i) \<in> bs \<and> (\<forall>j \<in> set granted. (j, election_term e, i) \<in> bs)"

fun msg_ok :: "raft_peer list \<Rightarrow> (int \<times> nat \<times> int) set \<Rightarrow> message \<Rightarrow> bool" where
  "msg_ok cfg bs (VoteReq i j req) \<longleftrightarrow> i \<in> ids cfg \<and> j \<in> ids cfg \<and> candidate_id req = i \<and> rv_term req < 2 ^ 64"
| "msg_ok cfg bs (VoteResp j i t resp) \<longleftrightarrow> i \<in> ids cfg \<and> j \<in> ids cfg \<and> rvr_term resp < 2 ^ 64 \<and>
     (vote_granted resp \<longrightarrow> (j, t, i) \<in> bs)"
| "msg_ok cfg bs (SendTask i j t nx) \<longleftrightarrow> i \<in> ids cfg \<and> j \<in> ids cfg - {i} \<and> t < 2 ^ 64"
| "msg_ok cfg bs (BuildTask i j t nx) \<longleftrightarrow> i \<in> ids cfg \<and> j \<in> ids cfg - {i} \<and> t < 2 ^ 64"
| "msg_ok cfg bs (EntriesReq i j req) \<longleftrightarrow> i \<in> ids cfg \<and> j \<in> ids cfg - {i} \<and> ae_term req < 2 ^ 64"
| "msg_ok cfg bs (EntriesResp j i t prev sent resp) \<longleftrightarrow> i \<in> ids cfg \<and> j \<in> ids cfg - {i} \<and> aer_term resp < 2 ^ 64"
| "msg_ok cfg bs (SnapReq i j req) \<longleftrightarrow> i \<in> ids cfg \<and> j \<in> ids cfg - {i} \<and> is_term req < 2 ^ 64"
| "msg_ok cfg bs (SnapResp j i t idx resp) \<longleftrightarrow> i \<in> ids cfg \<and> j \<in> ids cfg - {i} \<and> isr_term resp < 2 ^ 64"

definition once_per_term :: "(int \<times> nat \<times> int) set \<Rightarrow> bool" where
  "once_per_term bs \<longleftrightarrow> (\<forall>j t a b. (j, t, a) \<in> bs \<longrightarrow> (j, t, b) \<in> bs \<longrightarrow> a = b)"

definition cluster_inv :: "raft_peer list \<Rightarrow> cluster \<Rightarrow> bool" where
  "cluster_inv cfg s \<longleftrightarrow>
     (\<forall>i \<in> ids cfg. node_inv cfg i (node s i) \<and> leader_ok cfg (set (ballots s)) i (node s i) \<and>
        ticker_ok cfg (set (ballots s)) i (role (node s i)) (ticker_of s i)) \<and>
     (\<forall>b \<in> set (ballots s). ballot_ok cfg (node s) b) \<and> once_per_term (set (ballots s)) \<and>
     (\<forall>m \<in> set (msgs s). msg_ok cfg (set (ballots s)) m)"

lemma leader_ok_mono: "leader_ok cfg bs i n \<Longrightarrow> bs \<subseteq> bs' \<Longrightarrow> leader_ok cfg bs' i n"
proof -
  assume l: "leader_ok cfg bs i n" and sub: "bs \<subseteq> bs'"
  have "{j \<in> ids cfg. (j, cur_term n, i) \<in> bs} \<subseteq> {j \<in> ids cfg. (j, cur_term n, i) \<in> bs'}"
    using sub by blast
  then have "card {j \<in> ids cfg. (j, cur_term n, i) \<in> bs} \<le> card {j \<in> ids cfg. (j, cur_term n, i) \<in> bs'}"
    by (intro card_mono) auto
  with l show ?thesis by (auto simp: leader_ok_def majority_of_def)
qed

lemma ticker_ok_mono: "ticker_ok cfg bs i r tk \<Longrightarrow> bs \<subseteq> bs' \<Longrightarrow> ticker_ok cfg bs' i r tk"
  by (cases tk) auto

lemma msg_ok_mono: "msg_ok cfg bs m \<Longrightarrow> bs \<subseteq> bs' \<Longrightarrow> msg_ok cfg bs' m"
  by (cases m) auto

text \<open>
  One node moves, possibly casting a vote: what has to be shown of the mover, its ticker
  and the new messages for the invariant to go on holding.
\<close>

lemma inv_move:
  assumes inv: "cluster_inv cfg s" and cfg: "config_ok cfg" and i: "i \<in> ids cfg"
    and le: "term_vote_le (node s i) n'" and node': "node_inv cfg i n'"
    and new: "set new \<subseteq> {(i, cur_term n', vote n')}" "new \<noteq> [] \<Longrightarrow> vote n' \<in> ids cfg"
    and bs: "bs = set new \<union> set (ballots s)"
    and lead: "leader_ok cfg bs i n'" and tick: "ticker_ok cfg bs i (role n') tk"
    and ms: "\<And>m. m \<in> set ms \<Longrightarrow> m \<in> set (msgs s) \<or> msg_ok cfg bs m"
    and s': "node s' = (node s)(i := n')" "ticker_of s' = (ticker_of s)(i := tk)"
      "msgs s' = ms" "ballots s' = new @ ballots s"
  shows "cluster_inv cfg s'"
proof -
  have sub: "set (ballots s) \<subseteq> set (ballots s')" and bs': "set (ballots s') = bs"
    by (simp_all add: s' bs)
  have ok: "ballot_ok cfg (node s') b" if "b \<in> set (ballots s')" for b
  proof (cases "b \<in> set new")
    case True
    with new i show ?thesis by (cases new) (auto simp: ballot_ok_def s')
  next
    case False
    with that have "ballot_ok cfg (node s) b" using inv by (simp add: cluster_inv_def s')
    moreover obtain j t a where b: "b = (j, t, a)" by (cases b)
    ultimately have *: "a \<in> ids cfg" "t < cur_term (node s j) \<or> (t = cur_term (node s j) \<and> vote (node s j) = a)"
      by (simp_all add: ballot_ok_def)
    moreover have "a \<noteq> - 1" using *(1) cfg by (auto simp: config_ok_def)
    ultimately show ?thesis using le by (auto simp: ballot_ok_def b s' term_vote_le_def)
  qed
  have "once_per_term bs"
    unfolding once_per_term_def
  proof (intro allI impI)
    fix j t a b assume ab: "(j, t, a) \<in> bs" "(j, t, b) \<in> bs"
    show "a = b"
    proof (cases "(j, t, a) \<in> set new \<or> (j, t, b) \<in> set new")
      case True
      then have "j = i" "t = cur_term n'" using new(1) by auto
      moreover have "ballot_ok cfg (node s') (j, t, a)" "ballot_ok cfg (node s') (j, t, b)"
        using ab ok bs' by blast+
      ultimately show ?thesis by (simp add: ballot_ok_def s')
    next
      case False
      with ab inv show ?thesis by (auto simp: bs cluster_inv_def once_per_term_def)
    qed
  qed
  moreover have "msg_ok cfg bs m" if "m \<in> set ms" for m
    using ms [OF that] inv sub unfolding bs' by (auto simp: cluster_inv_def intro: msg_ok_mono)
  moreover have "node_inv cfg k (node s' k) \<and> leader_ok cfg bs k (node s' k) \<and>
      ticker_ok cfg bs k (role (node s' k)) (ticker_of s' k)" if "k \<in> ids cfg" for k
    using that inv node' lead tick sub unfolding bs'
    by (cases "k = i") (auto simp: cluster_inv_def s' intro: leader_ok_mono ticker_ok_mono)
  ultimately show ?thesis using ok unfolding cluster_inv_def bs' s'(3) by blast
qed

text \<open>The common case: a critical section that neither votes nor ends an election.\<close>

lemma leader_ok_kept:
  assumes "leader_ok cfg bs i n" and "role n' = Leader \<Longrightarrow> role n = Leader \<and> cur_term n' = cur_term n"
  shows "leader_ok cfg bs i n'"
  using assms by (auto simp: leader_ok_def)

lemma ticker_ok_kept:
  assumes "ticker_ok cfg bs i r tk" and "r' = Leader \<Longrightarrow> r = Leader"
  shows "ticker_ok cfg bs i r' tk"
  using assms by (cases tk) auto

lemma exec_node_inv:
  assumes "node_inv cfg i n" and "config_ok cfg" and "i \<in> ids cfg" and "event_ok ev n" and "event_wf ev"
  obtains n' where "exec ev n = Returns n'" and "node_inv cfg i n'" and "term_vote_le n n'"
proof -
  have "peers_ok n" and "leader_wf n" and w: "wf_state (rn_state n)" and "is_i32 (self_id n)"
    using assms(1-3) by (auto simp: node_inv_def peers_ok_def config_ok_def)
  with exec_leader_wf [OF _ _ assms(4)] obtain n' where n': "exec ev n = Returns n'" "leader_wf n'" by blast
  have "wf_state (rn_state n')" by (rule exec_wf_state) fact+
  moreover have le: "term_vote_le n n'" by (rule exec_term_vote_le) fact+
  ultimately have "node_inv cfg i n'" using assms(1) n'(2) by (simp add: node_inv_def term_vote_le_def)
  with n'(1) show thesis using le by (rule that)
qed

lemma inv_nodeD:
  assumes "cluster_inv cfg s" and "i \<in> ids cfg"
  shows "node_inv cfg i (node s i)" "leader_ok cfg (set (ballots s)) i (node s i)"
    "ticker_ok cfg (set (ballots s)) i (role (node s i)) (ticker_of s i)"
  using assms by (auto simp: cluster_inv_def)

lemma inv_msgD: "cluster_inv cfg s \<Longrightarrow> m \<in> set (msgs s) \<Longrightarrow> msg_ok cfg (set (ballots s)) m"
  by (simp add: cluster_inv_def)

lemma inv_exec:
  assumes inv: "cluster_inv cfg s" and cfg: "config_ok cfg" and i: "i \<in> ids cfg"
    and ev: "exec ev (node s i) = Returns n'" "event_ok ev (node s i)" "event_wf ev"
    and nofin: "\<And>c e g. ev \<noteq> ElectionFinish c e g"
    and tk: "ticker_ok cfg (set (ballots s)) i (role (node s i)) tk \<or> ticker_ok cfg (set (ballots s)) i (role n') tk"
    and ms: "\<And>m. m \<in> set ms \<Longrightarrow> m \<in> set (msgs s) \<or> msg_ok cfg (set (ballots s)) m"
    and s': "node s' = (node s)(i := n')" "ticker_of s' = (ticker_of s)(i := tk)"
      "msgs s' = ms" "ballots s' = ballots s"
  shows "cluster_inv cfg s'"
proof (rule inv_move [OF inv cfg i, where new = "[]"])
  obtain m where "exec ev (node s i) = Returns m" "node_inv cfg i m" "term_vote_le (node s i) m"
    using exec_node_inv [OF inv_nodeD(1) [OF inv i] cfg i ev(2,3)] by blast
  with ev(1) show "term_vote_le (node s i) n'" "node_inv cfg i n'" by simp_all
  have kept: "role n' = Leader \<Longrightarrow> role (node s i) = Leader \<and> cur_term n' = cur_term (node s i)"
    using exec_leader_kept [OF ev(1)] nofin by blast
  show "leader_ok cfg (set (ballots s)) i n'"
    using inv_nodeD(2) [OF inv i] kept by (rule leader_ok_kept)
  show "ticker_ok cfg (set (ballots s)) i (role n') tk"
    using tk kept by (auto intro: ticker_ok_kept)
qed (use ms s' in auto)

text \<open>An election that ends with enough votes has a majority of ballots behind it.\<close>

lemma granted_majority:
  assumes "distinct granted" and "set granted \<subseteq> ids cfg - {i}" and "i \<in> ids cfg" and "distinct (map node_id cfg)"
    and "majority (length cfg) \<le> 1 + length granted"
    and "(i, t, i) \<in> bs" and "\<forall>j \<in> set granted. (j, t, i) \<in> bs"
  shows "majority_of (ids cfg) {j \<in> ids cfg. (j, t, i) \<in> bs}"
proof -
  have "insert i (set granted) \<subseteq> {j \<in> ids cfg. (j, t, i) \<in> bs}" using assms(2,3,6,7) by blast
  then have "card (insert i (set granted)) \<le> card {j \<in> ids cfg. (j, t, i) \<in> bs}"
    by (intro card_mono) auto
  moreover have "card (insert i (set granted)) = 1 + length granted"
    using assms(1,2) distinct_card [of granted] by (subst card_insert_disjoint) auto
  moreover have "card (ids cfg) = length cfg" using assms(4) distinct_card by fastforce
  ultimately show ?thesis using assms(5) by (auto simp: majority_of_def)
qed

lemma election_finish_frame:
  "self_id (election_finish c e g n) = self_id n" "peers (election_finish c e g n) = peers n"
  "rn_state (election_finish c e g n) = rn_state n"
  by (simp_all add: election_finish_def Let_def)

lemma inv_finish:
  assumes inv: "cluster_inv cfg s" and cfg: "config_ok cfg" and i: "i \<in> ids cfg"
    and tk: "ticker_of s i = Running e [] granted"
    and ok: "last_index (rn_log (node s i)) + 1 < 2 ^ 64"
    and s': "node s' = (node s)(i := election_finish c e (length granted) (node s i))"
      "ticker_of s' = (ticker_of s)(i := Idle)" "msgs s' = msgs s" "ballots s' = ballots s"
  shows "cluster_inv cfg s'"
proof (rule inv_move [OF inv cfg i, where new = "[]"])
  let ?n = "node s i" and ?n' = "election_finish c e (length granted) (node s i)"
  let ?ev = "ElectionFinish c e (length granted)"
  have n: "node_inv cfg i ?n" by (rule inv_nodeD(1)) fact+
  obtain m where "exec ?ev ?n = Returns m" "node_inv cfg i m" "term_vote_le ?n m"
    using exec_node_inv [OF n cfg i, of ?ev] ok by auto
  then show "term_vote_le ?n ?n'" "node_inv cfg i ?n'" by simp_all
  have run: "distinct granted" "set granted \<subseteq> ids cfg - {i}" "(i, election_term e, i) \<in> set (ballots s)"
    "\<forall>j \<in> set granted. (j, election_term e, i) \<in> set (ballots s)" "role ?n \<noteq> Leader"
    using inv_nodeD(3) [OF inv i] tk by auto
  show "leader_ok cfg (set (ballots s)) i ?n'"
    unfolding leader_ok_def
  proof
    assume "role ?n' = Leader"
    then have "cur_term ?n = election_term e" "majority (length cfg) \<le> 1 + length granted"
      using run(5) n by (auto simp: election_finish_def node_inv_def Let_def split: if_splits)
    with granted_majority [OF run(1,2) i _ _ run(3,4)] cfg
    show "majority_of (ids cfg) {j \<in> ids cfg. (j, cur_term ?n', i) \<in> set (ballots s)}"
      by (simp add: config_ok_def election_finish_frame)
  qed
qed (use s' in auto)

lemma inv_begin:
  assumes inv: "cluster_inv cfg s" and cfg: "config_ok cfg" and i: "i \<in> ids cfg"
    and tk: "ticker_of s i = Starting" and ok: "cur_term (node s i) + 1 < 2 ^ 64"
    and eff: "effect (BeginElection i c) s = Returns s'"
  shows "cluster_inv cfg s'"
proof -
  obtain e n' where en: "election_begin c (node s i) = (e, n')" by (cases "election_begin c (node s i)")
  have n: "node_inv cfg i (node s i)" by (rule inv_nodeD(1)) fact+
  have role: "role (node s i) \<noteq> Leader" using inv_nodeD(3) [OF inv i] tk by simp
  have n': "cur_term n' = election_term e" "vote n' = i" "role n' = Candidate" "election_term e < 2 ^ 64"
    using en n by (auto simp: election_begin_def node_inv_def u64_def Let_def)
  obtain m where "exec (ElectionBegin c) (node s i) = Returns m" "node_inv cfg i m" "term_vote_le (node s i) m"
    using exec_node_inv [OF n cfg i, of "ElectionBegin c"] ok role by auto
  then have step: "term_vote_le (node s i) n'" "node_inv cfg i n'" by (simp_all add: en)
  let ?new = "[(i, election_term e, i)]"
  have s': "s' = cast i (election_term e) i (swap_msgs [] (map (\<lambda>p. VoteReq i p (vote_request e n')) (stub_ids n'))
      (set_ticker i (Running e (stub_ids n') []) (set_node i n' s)))"
    using eff by (simp add: en)
  have stubs: "distinct (stub_ids n')" by (simp add: stub_ids_def)
  have ids': "set (stub_ids n') = ids cfg - {i}" using step(2) by (simp add: node_inv_def)
  have self: "self_id n' = i" using step(2) by (simp add: node_inv_def)
  show ?thesis
  proof (rule inv_move [OF inv cfg i step, where new = ?new and tk = "Running e (stub_ids n') []"])
    show "ticker_ok cfg (set ?new \<union> set (ballots s)) i (role n') (Running e (stub_ids n') [])"
      using stubs ids' n' by simp
  next
    fix m assume "m \<in> set (msgs s')"
    then consider "m \<in> set (msgs s)" | p where "p \<in> set (stub_ids n')" "m = VoteReq i p (vote_request e n')"
      by (auto simp: s' cluster_defs simp del: set_stub_ids)
    then show "m \<in> set (msgs s) \<or> msg_ok cfg (set ?new \<union> set (ballots s)) m"
      by cases (use ids' n'(4) i self in \<open>simp_all add: vote_request_def del: set_stub_ids\<close>)
  next
    show "leader_ok cfg (set ?new \<union> set (ballots s)) i n'" using n'(3) by (simp add: leader_ok_def)
  qed (use n' i in \<open>simp_all add: s' cluster_defs\<close>)
qed

lemma remove1_subset: "x \<in> set (remove1 y xs) \<Longrightarrow> x \<in> set xs"
  by (induction xs) (auto split: if_splits)

lemma granted_ballot:
  assumes "handle_request_vote c req n = (resp, n')" and "vote_granted resp"
  shows "cur_term n' = rv_term req" "vote n' = candidate_id req"
  using assms by (auto simp: handle_request_vote_def Let_def split: if_splits)

lemma vote_response_term:
  assumes "handle_request_vote c req n = (resp, n')"
  shows "rvr_term resp = cur_term n'"
  using assms by (auto simp: handle_request_vote_def Let_def split: if_splits)

lemma inv_deliver_vote:
  assumes inv: "cluster_inv cfg s" and cfg: "config_ok cfg" and m: "VoteReq i j req \<in> set (msgs s)"
    and eff: "effect (DeliverVote i j req c) s = Returns s'"
  shows "cluster_inv cfg s'"
proof -
  obtain resp n' where h: "handle_request_vote c req (node s j) = (resp, n')"
    by (cases "handle_request_vote c req (node s j)")
  have ok: "i \<in> ids cfg" "j \<in> ids cfg" "candidate_id req = i" "rv_term req < 2 ^ 64"
    using inv_msgD [OF inv m] by simp_all
  have ev: "event_wf (RequestVote c req)" using ok cfg by (auto simp: config_ok_def)
  obtain n2 where n2: "exec (RequestVote c req) (node s j) = Returns n2" "node_inv cfg j n2" "term_vote_le (node s j) n2"
    using exec_node_inv [OF inv_nodeD(1) [OF inv ok(2)] cfg ok(2), of "RequestVote c req"] ev by auto
  then have step: "term_vote_le (node s j) n'" "node_inv cfg j n'" by (simp_all add: h)
  have kept: "role n' = Leader \<Longrightarrow> role (node s j) = Leader \<and> cur_term n' = cur_term (node s j)"
    using exec_leader_kept [OF n2(1)] n2(1) by (simp add: h)
  have resp: "rvr_term resp < 2 ^ 64"
    using vote_response_term [OF h] step(2) by (simp add: node_inv_def wf_state_def)
  let ?new = "if vote_granted resp then [(j, rv_term req, i)] else []"
  let ?bs = "set ?new \<union> set (ballots s)"
  have s': "node s' = (node s)(j := n')" "ticker_of s' = (ticker_of s)(j := ticker_of s j)"
    "msgs s' = remove1 (VoteReq i j req) (msgs s) @ [VoteResp j i (rv_term req) resp]" "ballots s' = ?new @ ballots s"
    using eff ok(3) by (auto simp: h cluster_defs Let_def)
  show ?thesis
  proof (rule inv_move [OF inv cfg ok(2) step _ _ refl _ _ _ s'])
    show "set ?new \<subseteq> {(j, cur_term n', vote n')}" and "?new \<noteq> [] \<Longrightarrow> vote n' \<in> ids cfg"
      using granted_ballot [OF h] ok(1,3) by (auto split: if_splits)
    have "leader_ok cfg (set (ballots s)) j n'"
      using inv_nodeD(2) [OF inv ok(2)] kept by (rule leader_ok_kept)
    then show "leader_ok cfg ?bs j n'" by (rule leader_ok_mono) blast
    have "ticker_ok cfg (set (ballots s)) j (role n') (ticker_of s j)"
      using inv_nodeD(3) [OF inv ok(2)] by (rule ticker_ok_kept) (use kept in blast)
    then show "ticker_ok cfg ?bs j (role n') (ticker_of s j)" by (rule ticker_ok_mono) blast
  qed (use ok resp in \<open>auto dest: remove1_subset\<close>)
qed

text \<open>A restart reads back the term and the vote, and comes up as a follower.\<close>

lemma restart_frame:
  assumes "wf_state (rn_state n)"
  shows "rn_state (restart c n) = rn_state n" "role (restart c n) = Follower"
    "self_id (restart c n) = self_id n" "peers (restart c n) = peers n"
  using assms
  by (auto simp: restart_def RaftNode_def disk_of_def open_state_def decode_encode_state new_state_def
      Let_def split: prod.splits)

lemma inv_restart:
  assumes inv: "cluster_inv cfg s" and cfg: "config_ok cfg" and i: "i \<in> ids cfg"
    and eff: "effect (Restart i c) s = Returns s'"
  shows "cluster_inv cfg s'"
proof (rule inv_move [OF inv cfg i, where new = "[]" and n' = "restart c (node s i)" and tk = Idle])
  have n: "node_inv cfg i (node s i)" by (rule inv_nodeD(1)) fact+
  then have w: "wf_state (rn_state (node s i))" by (simp add: node_inv_def)
  show "term_vote_le (node s i) (restart c (node s i))" by (simp add: term_vote_le_def restart_frame [OF w])
  show "node_inv cfg i (restart c (node s i))"
    using n by (simp add: node_inv_def restart_frame [OF w])
  show "leader_ok cfg (set (ballots s)) i (restart c (node s i))"
    by (simp add: leader_ok_def restart_frame [OF w])
qed (use eff in \<open>auto simp: cluster_defs\<close>)

lemma replicate_tasks:
  assumes "replicate_to_followers n = Returns (Some (t, nexts))"
  shows "t = cur_term n" "fst ` set nexts \<subseteq> set (stub_ids n)"
  using assms by (auto simp: replicate_to_followers_def simp del: set_stub_ids split: if_splits)

lemma inv_msgs:
  assumes "cluster_inv cfg s" and "\<And>m. m \<in> set ms \<Longrightarrow> m \<in> set (msgs s) \<or> msg_ok cfg (set (ballots s)) m"
    and "s' = s\<lparr>msgs := ms\<rparr>"
  shows "cluster_inv cfg s'"
  using assms by (auto simp: cluster_inv_def)

lemma inv_vote_answer:
  assumes inv: "cluster_inv cfg s" and cfg: "config_ok cfg" and i: "i \<in> ids cfg"
    and tk: "ticker_of s i = Running e pending granted" "j \<in> set pending"
    and resp: "case resp of None \<Rightarrow> True | Some r \<Rightarrow>
       rvr_term r < 2 ^ 64 \<and> (vote_granted r \<longrightarrow> (j, election_term e, i) \<in> set (ballots s))"
    and ev: "on_vote_response e resp (node s i) = (yes, n')"
    and ms: "set ms \<subseteq> set (msgs s)"
    and s': "node s' = (node s)(i := n')"
      "ticker_of s' = (ticker_of s)(i := Running e (remove1 j pending) (if yes then j # granted else granted))"
      "msgs s' = ms" "ballots s' = ballots s"
  shows "cluster_inv cfg s'"
proof (rule inv_exec [OF inv cfg i, where ev = "VoteResponse e resp"])
  have run: "role (node s i) \<noteq> Leader" "distinct (pending @ granted)" "set (pending @ granted) \<subseteq> ids cfg - {i}"
    "(i, election_term e, i) \<in> set (ballots s)" "\<forall>j \<in> set granted. (j, election_term e, i) \<in> set (ballots s)"
    using inv_nodeD(3) [OF inv i] tk(1) by simp_all
  have "(j, election_term e, i) \<in> set (ballots s)" if yes
    using that resp ev by (auto simp: on_vote_response_def split: option.splits if_splits)
  with run tk(2) have "ticker_ok cfg (set (ballots s)) i (role (node s i))
      (Running e (remove1 j pending) (if yes then j # granted else granted))"
    by auto
  then show "ticker_ok cfg (set (ballots s)) i (role (node s i))
      (Running e (remove1 j pending) (if yes then j # granted else granted)) \<or>
    ticker_ok cfg (set (ballots s)) i (role n')
      (Running e (remove1 j pending) (if yes then j # granted else granted))" ..
qed (use resp ev ms s' in \<open>auto split: option.splits\<close>)

text \<open>An action of a leader or follower that only moves one node and swaps messages.\<close>

lemma inv_handler:
  assumes inv: "cluster_inv cfg s" and cfg: "config_ok cfg" and i: "i \<in> ids cfg"
    and ev: "exec ev (node s i) = Returns n'" "event_ok ev (node s i)" "event_wf ev"
    and nofin: "\<And>c e g. ev \<noteq> ElectionFinish c e g"
    and new: "\<And>m. m \<in> set new \<Longrightarrow> cur_term n' < 2 ^ 64 \<Longrightarrow> msg_ok cfg (set (ballots s)) m"
    and s': "s' = swap_msgs gone new (set_node i n' s)"
  shows "cluster_inv cfg s'"
proof (rule inv_exec [OF inv cfg i ev nofin, where tk = "ticker_of s i"])
  have sub: "set (fold remove1 gone ms) \<subseteq> set ms" for gone ms :: "message list"
  proof (induction gone arbitrary: ms)
    case (Cons g gone)
    then show ?case using remove1_subset [of _ g ms] by fastforce
  qed simp
  obtain m where "exec ev (node s i) = Returns m" "node_inv cfg i m"
    using exec_node_inv [OF inv_nodeD(1) [OF inv i] cfg i ev(2,3)] by blast
  then have "cur_term n' < 2 ^ 64" using ev(1) by (simp add: node_inv_def wf_state_def)
  then show "m \<in> set (msgs s) \<or> msg_ok cfg (set (ballots s)) m" if "m \<in> set (msgs s')" for m
    using that new sub by (auto simp: s' cluster_defs)
  show "ticker_ok cfg (set (ballots s)) i (role (node s i)) (ticker_of s i) \<or>
      ticker_ok cfg (set (ballots s)) i (role n') (ticker_of s i)"
    using inv_nodeD(3) [OF inv i] by blast
qed (simp_all add: s' cluster_defs)

lemma append_response_term:
  assumes "handle_append_entries c req n = (resp, n')"
  shows "aer_term resp = cur_term n'"
  using assms by (auto simp: handle_append_entries_def Let_def split: if_splits)

lemma snapshot_response_term:
  assumes "handle_install_snapshot c req n = (resp, n')"
  shows "isr_term resp = cur_term n'"
  using assms by (auto simp: handle_install_snapshot_def Let_def split: if_splits)

lemma set_swap_msgs: "m \<in> set (msgs (swap_msgs [g] new s)) \<Longrightarrow> m \<in> set (msgs s) \<or> m \<in> set new"
  by (auto simp: swap_msgs_def dest: remove1_subset)

lemma inv_replicate:
  assumes inv: "cluster_inv cfg s" and i: "i \<in> ids cfg" and eff: "effect (Replicate i) s = Returns s'"
  shows "cluster_inv cfg s'"
proof -
  obtain r where r: "replicate_to_followers (node s i) = Returns r"
    using eff by (cases "replicate_to_followers (node s i)") auto
  show ?thesis
  proof (cases r)
    case None
    with eff r inv show ?thesis by simp
  next
    case (Some p)
    obtain t nexts where p: "p = (t, nexts)" by (cases p)
    have n: "node_inv cfg i (node s i)" by (rule inv_nodeD(1)) fact+
    have nexts: "t < 2 ^ 64" "fst ` set nexts \<subseteq> ids cfg - {i}"
      using replicate_tasks [of "node s i" t nexts] r Some p n by (simp_all add: node_inv_def wf_state_def)
    have s': "s' = s\<lparr>msgs := msgs s @ map (\<lambda>(p, nx). SendTask i p t nx) nexts\<rparr>"
      using eff r Some p by (simp add: swap_msgs_def)
    show ?thesis
      by (rule inv_msgs [OF inv _ s']) (use nexts i in \<open>fastforce\<close>)
  qed
qed

lemma inv_run_send:
  assumes inv: "cluster_inv cfg s" and m: "SendTask i j t nx \<in> set (msgs s)"
    and eff: "effect (RunSend i j t nx) s = Returns s'"
  shows "cluster_inv cfg s'"
proof (rule inv_msgs [OF inv])
  have ok: "i \<in> ids cfg" "j \<in> ids cfg - {i}" "t < 2 ^ 64" using inv_msgD [OF inv m] by simp_all
  show "s' = s\<lparr>msgs := msgs s'\<rparr>" using eff by (auto simp: swap_msgs_def)
  fix m assume "m \<in> set (msgs s')"
  then show "m \<in> set (msgs s) \<or> msg_ok cfg (set (ballots s)) m"
    using eff ok
    by (auto simp: send_decide_def snapshot_request_def Let_def split: if_splits dest!: set_swap_msgs)
qed

lemma inv_run_build:
  assumes inv: "cluster_inv cfg s" and m: "BuildTask i j t nx \<in> set (msgs s)"
    and eff: "effect (RunBuild i j t nx) s = Returns s'"
  shows "cluster_inv cfg s'"
proof (rule inv_msgs [OF inv])
  have ok: "i \<in> ids cfg" "j \<in> ids cfg - {i}" "t < 2 ^ 64" using inv_msgD [OF inv m] by simp_all
  show "s' = s\<lparr>msgs := msgs s'\<rparr>" using eff by (auto simp: swap_msgs_def)
  fix m assume "m \<in> set (msgs s')"
  then show "m \<in> set (msgs s) \<or> msg_ok cfg (set (ballots s)) m"
    using eff ok
    by (auto simp: build_append_entries_def Let_def split: if_splits dest!: set_swap_msgs)
qed

lemma inv_deliver_entries:
  assumes inv: "cluster_inv cfg s" and cfg: "config_ok cfg" and m: "EntriesReq i j req \<in> set (msgs s)"
    and eff: "effect (DeliverEntries i j req c) s = Returns s'"
  shows "cluster_inv cfg s'"
proof -
  obtain resp n' where h: "handle_append_entries c req (node s j) = (resp, n')"
    by (cases "handle_append_entries c req (node s j)")
  have ok: "i \<in> ids cfg" "j \<in> ids cfg - {i}" "ae_term req < 2 ^ 64" using inv_msgD [OF inv m] by simp_all
  show ?thesis
    by (rule inv_handler [OF inv cfg, where ev = "AppendEntries c req" and i = j and n' = n'
          and gone = "[EntriesReq i j req]"
          and new = "[EntriesResp j i (ae_term req) (prev_log_index req) (length (ae_entries req)) resp]"])
       (use eff h ok append_response_term [OF h] in auto)
qed

lemma inv_deliver_snap:
  assumes inv: "cluster_inv cfg s" and cfg: "config_ok cfg" and m: "SnapReq i j req \<in> set (msgs s)"
    and eff: "effect (DeliverSnap i j req c) s = Returns s'"
  shows "cluster_inv cfg s'"
proof -
  obtain resp n' where h: "handle_install_snapshot c req (node s j) = (resp, n')"
    by (cases "handle_install_snapshot c req (node s j)")
  have ok: "i \<in> ids cfg" "j \<in> ids cfg - {i}" "is_term req < 2 ^ 64" using inv_msgD [OF inv m] by simp_all
  show ?thesis
    by (rule inv_handler [OF inv cfg, where ev = "InstallSnapshot c req" and i = j and n' = n'
          and gone = "[SnapReq i j req]"
          and new = "[SnapResp j i (is_term req) (last_included_index req) resp]"])
       (use eff h ok snapshot_response_term [OF h] in auto)
qed

lemma inv_answers:
  assumes inv: "cluster_inv cfg s" and cfg: "config_ok cfg"
  shows "enabled cfg (EntriesAnswer j i t prev sent ar) s \<Longrightarrow>
      effect (EntriesAnswer j i t prev sent ar) s = Returns s' \<Longrightarrow> cluster_inv cfg s'"
    and "enabled cfg (SnapAnswer j i t idx sr) s \<Longrightarrow>
      effect (SnapAnswer j i t idx sr) s = Returns s' \<Longrightarrow> cluster_inv cfg s'"
proof -
  assume en: "enabled cfg (EntriesAnswer j i t prev sent ar) s"
    and eff: "effect (EntriesAnswer j i t prev sent ar) s = Returns s'"
  then have m: "i \<in> ids cfg" "j \<in> ids cfg - {i}" "aer_term ar < 2 ^ 64" "prev + sent + 1 < 2 ^ 64"
    using inv_msgD [OF inv, of "EntriesResp j i t prev sent ar"] by simp_all
  then have "event_ok (AppendResponse t j prev sent ar) (node s i)"
    using inv_nodeD(1) [OF inv m(1)] by (simp add: node_inv_def)
  moreover obtain n' where "exec (AppendResponse t j prev sent ar) (node s i) = Returns n'"
    "s' = swap_msgs [EntriesResp j i t prev sent ar] [] (set_node i n' s)"
    using eff by auto
  ultimately show "cluster_inv cfg s'" using m
    by (intro inv_handler [OF inv cfg, where ev = "AppendResponse t j prev sent ar" and new = "[]"
          and gone = "[EntriesResp j i t prev sent ar]"]) auto
next
  assume en: "enabled cfg (SnapAnswer j i t idx sr) s" and eff: "effect (SnapAnswer j i t idx sr) s = Returns s'"
  then have m: "i \<in> ids cfg" "j \<in> ids cfg - {i}" "isr_term sr < 2 ^ 64" "idx + 1 < 2 ^ 64"
    using inv_msgD [OF inv, of "SnapResp j i t idx sr"] by simp_all
  then have "event_ok (SnapshotResponse t j idx sr) (node s i)"
    using inv_nodeD(1) [OF inv m(1)] by (simp add: node_inv_def)
  with eff m show "cluster_inv cfg s'"
    by (intro inv_handler [OF inv cfg, where ev = "SnapshotResponse t j idx sr" and new = "[]"
          and gone = "[SnapResp j i t idx sr]"]) auto
qed

lemma inv_local:
  assumes inv: "cluster_inv cfg s" and cfg: "config_ok cfg" and i: "i \<in> ids cfg"
  shows "effect (ProposeAct i cmd) s = Returns s' \<Longrightarrow> cluster_inv cfg s'"
    and "effect (CompactAct i k data) s = Returns s' \<Longrightarrow> cluster_inv cfg s'"
proof -
  assume "effect (ProposeAct i cmd) s = Returns s'"
  then obtain n' where "exec (Propose cmd) (node s i) = Returns n'" "s' = set_node i n' s" by auto
  then show "cluster_inv cfg s'"
    by (intro inv_handler [OF inv cfg i, where ev = "Propose cmd" and new = "[]" and gone = "[]"])
       (auto simp: swap_msgs_def)
next
  assume "effect (CompactAct i k data) s = Returns s'"
  then show "cluster_inv cfg s'"
    by (intro inv_handler [OF inv cfg i, where ev = "Compact k data" and new = "[]" and gone = "[]"])
       (auto simp: swap_msgs_def)
qed

lemma inv_tick:
  assumes inv: "cluster_inv cfg s" and cfg: "config_ok cfg" and i: "i \<in> ids cfg"
    and eff: "effect (TickAct i c) s = Returns s'"
  shows "cluster_inv cfg s'"
proof -
  obtain st rp n' where h: "tick c (node s i) = ((st, rp), n')" by (metis prod.exhaust)
  have tk: "ticker_ok cfg (set (ballots s)) i (role (node s i)) (if st then Starting else Idle)"
    using h by (auto simp: tick_def split: if_splits)
  show ?thesis
    by (rule inv_exec [OF inv cfg i, where ev = "Tick c" and n' = n' and tk = "if st then Starting else Idle"])
       (use tk h eff in \<open>auto simp: cluster_defs\<close>)
qed

lemma inv_step:
  assumes inv: "cluster_inv cfg s" and cfg: "config_ok cfg" and en: "enabled cfg a s" and eff: "effect a s = Returns s'"
  shows "cluster_inv cfg s'"
proof (cases a)
  case (VoteAnswer j i t resp)
  with en obtain e pending granted where tk: "ticker_of s i = Running e pending granted"
    and m: "VoteResp j i t resp \<in> set (msgs s)" "election_term e = t" "j \<in> set pending"
    by (auto split: ticker.splits)
  obtain yes n' where h: "on_vote_response e (Some resp) (node s i) = (yes, n')"
    by (cases "on_vote_response e (Some resp) (node s i)")
  have ok: "i \<in> ids cfg" using inv_msgD [OF inv m(1)] by simp
  show ?thesis
    by (rule inv_vote_answer [OF inv cfg ok tk m(3) _ h, where ms = "msgs s'"])
       (use eff inv_msgD [OF inv m(1)] m(2) VoteAnswer in \<open>auto simp: tk h cluster_defs dest: remove1_subset\<close>)
next
  case (VoteFails i j)
  with en obtain e pending granted where tk: "ticker_of s i = Running e pending granted"
    and m: "i \<in> ids cfg" "j \<in> set pending"
    by (auto split: ticker.splits)
  obtain yes n' where h: "on_vote_response e None (node s i) = (yes, n')"
    by (cases "on_vote_response e None (node s i)")
  show ?thesis
    by (rule inv_vote_answer [OF inv cfg m(1) tk m(2) _ h, where ms = "msgs s'"])
       (use eff VoteFails in \<open>auto simp: tk h cluster_defs\<close>)
next
  case (FinishElection i c)
  with en obtain e granted where tk: "ticker_of s i = Running e [] granted"
    and m: "i \<in> ids cfg" "last_index (rn_log (node s i)) + 1 < 2 ^ 64"
    by (auto split: ticker.splits)
  show ?thesis
    by (rule inv_finish [OF inv cfg m(1) tk m(2)]) (use eff FinishElection in \<open>auto simp: tk cluster_defs\<close>)
next
  case (Lose m)
  with eff have "s' = s\<lparr>msgs := remove1 m (msgs s)\<rparr>" by (auto simp: swap_msgs_def)
  from inv_msgs [OF inv _ this] show ?thesis by (blast dest: remove1_subset)
next
  case (EntriesAnswer j i t prev sent ar)
  with en eff show ?thesis by (blast intro: inv_answers [OF inv cfg])
next
  case (SnapAnswer j i t idx sr)
  with en eff show ?thesis by (blast intro: inv_answers [OF inv cfg])
qed (insert en eff, (simp only: enabled.simps, blast intro: inv_tick [OF inv cfg] inv_begin [OF inv cfg]
      inv_deliver_vote [OF inv cfg] inv_replicate [OF inv] inv_run_send [OF inv] inv_run_build [OF inv]
      inv_deliver_entries [OF inv cfg] inv_deliver_snap [OF inv cfg] inv_local [OF inv cfg] inv_restart [OF inv cfg])+)

lemma inv_init:
  assumes "config_ok cfg"
  shows "cluster_inv cfg (cluster_init cfg cl)"
  using assms
  by (auto simp: cluster_inv_def cluster_init_def once_per_term_def node_inv_def leader_ok_def RaftNode_def open_state_def
      persist_state_def new_state_def open_log_def persist_log_def write_file_def wf_state_def Let_def
      reset_election_deadline_locked_def)

lemma reachable_inv:
  assumes "reachable cfg s" and "config_ok cfg"
  shows "cluster_inv cfg s"
  using assms(1)
proof (induction rule: reachable.induct)
  case (init cl)
  show ?case by (rule inv_init) fact
next
  case (step s s')
  from step.hyps(2) show ?case
    by (rule cluster_stepE) (use step.IH assms(2) in \<open>blast intro: inv_step\<close>)
qed

text \<open>No action that can happen is undefined.\<close>

lemma exec_defined:
  assumes "cluster_inv cfg s" and "config_ok cfg" and "i \<in> ids cfg" and "event_ok ev (node s i)" and "event_wf ev"
  shows "exec ev (node s i) \<noteq> Undefined"
  using exec_node_inv [OF inv_nodeD(1) [OF assms(1,3)] assms(2-5)] by (metis outcome.distinct(1))

lemma bind_undefined: "(\<And>x. f x \<noteq> Undefined) \<Longrightarrow> bind_outcome r f = Undefined \<longleftrightarrow> r = Undefined"
  by (cases r) auto

lemma replicate_defined:
  assumes "leader_wf n"
  shows "replicate_to_followers n \<noteq> Undefined"
proof (cases "role n = Leader")
  case True
  with assms have "map fst (next_index n) = stub_ids n" by (simp add: leader_wf_def)
  then have "set (stub_ids n) = fst ` set (next_index n)" by (metis list.set_map)
  then have "\<forall>p \<in> set (stub_ids n). map_of (next_index n) p \<noteq> None"
    by (simp only: map_of_eq_None_iff) blast
  then show ?thesis by (simp only: replicate_to_followers_def if_True) simp
qed (simp add: replicate_to_followers_def)

lemma effect_defined:
  assumes inv: "cluster_inv cfg s" and cfg: "config_ok cfg" and en: "enabled cfg a s"
  shows "effect a s \<noteq> Undefined"
proof (cases a)
  case (EntriesAnswer j i t prev sent ar)
  then have m: "i \<in> ids cfg" "j \<in> ids cfg - {i}" "aer_term ar < 2 ^ 64" "prev + sent + 1 < 2 ^ 64"
    using en inv_msgD [OF inv, of "EntriesResp j i t prev sent ar"] by simp_all
  then have "event_ok (AppendResponse t j prev sent ar) (node s i)"
    using inv_nodeD(1) [OF inv m(1)] by (simp add: node_inv_def)
  from exec_defined [OF inv cfg m(1) this] m(3) EntriesAnswer show ?thesis by (simp add: bind_undefined)
next
  case (ProposeAct i cmd)
  with en exec_defined [OF inv cfg, of i "Propose cmd"] show ?thesis by (simp add: bind_undefined)
next
  case (Replicate i)
  with en inv_nodeD(1) [OF inv, of i] replicate_defined [of "node s i"]
  show ?thesis by (auto simp: bind_undefined node_inv_def split: option.splits)
qed (auto simp: Let_def split: prod.splits ticker.splits)

section \<open>A run\<close>

text \<open>
  A run of three nodes on which the theorems are tried: node 0 is elected in term 1 with
  the vote of node 1 (\<open>elect_run\<close>), and proposes two commands.
\<close>

definition sample_cluster :: cluster where
  "sample_cluster = cluster_init sample_peers (\<lambda>_. \<lparr>now = 0, draw = 300\<rparr>)"

definition elect_run :: "action list" where
  "elect_run =
     [TickAct 0 sample_clock, BeginElection 0 sample_clock,
      DeliverVote 0 1 (sample_vote_request 0) sample_clock,
      VoteAnswer 1 0 1 \<lparr>rvr_term = 1, vote_granted = True\<rparr>, VoteFails 0 2,
      FinishElection 0 sample_clock]"

lemmas run_simps = sample_cluster_def cluster_init_def RaftNode_def open_state_def open_log_def
  persist_state_def persist_log_def write_file_def sample_defs Let_def cluster_defs
  tick_def election_begin_def reset_election_deadline_locked_def ps_set_def stub_ids_def vote_request_def
  handle_request_vote_def observe_term_def become_follower_locked_def on_vote_response_def
  election_finish_def majority_def last_index_def last_term_def u64_def

lemma elect_run_result:
  "map_option (\<lambda>s. (role (node s 0), cur_term (node s 0))) (cluster_run sample_peers elect_run sample_cluster) =
     Some (Leader, 1)"
  by (simp add: elect_run_def run_simps)

text \<open>
  The run behind the loss of a committed entry.  Node 0 sends \<open>AppendEntries\<close> with entry
  \<open>a\<close>, then, before that is answered, one with \<open>a, b\<close>, and the second overtakes the first.
\<close>

definition sample_entry :: "nat \<Rightarrow> nat \<Rightarrow> string \<Rightarrow> log_entry" where
  "sample_entry t i cmd = \<lparr>le_term = t, le_index = i, le_command = cmd\<rparr>"

definition sample_entries :: "nat \<Rightarrow> int \<Rightarrow> nat \<Rightarrow> nat \<Rightarrow> log_entry list \<Rightarrow> append_entries_request" where
  "sample_entries t leader prev prev_t es = \<lparr>ae_term = t, ae_leader_id = leader, prev_log_index = prev,
     prev_log_term = prev_t, ae_entries = es, leader_commit = 0\<rparr>"

definition commit_run :: "action list" where
  "commit_run = (let a = sample_entry 1 1 ''a''; b = sample_entry 1 2 ''b'' in
     [ProposeAct 0 ''a'', Replicate 0, RunSend 0 1 1 1, RunBuild 0 1 1 1,
      ProposeAct 0 ''b'', Replicate 0, RunSend 0 1 1 1, RunBuild 0 1 1 1,
      DeliverEntries 0 1 (sample_entries 1 0 0 0 [a, b]) sample_clock,
      EntriesAnswer 1 0 1 0 2 \<lparr>aer_term = 1, success = True\<rparr>])"

definition overtake_run :: "action list" where
  "overtake_run = (let a = sample_entry 1 1 ''a''; c = sample_entry 2 2 ''c''; later = \<lparr>now = 2000, draw = 300\<rparr>;
       req = \<lparr>rv_term = 2, candidate_id = 1, rv_last_log_index = 1, rv_last_log_term = 1\<rparr> in
     [DeliverEntries 0 1 (sample_entries 1 0 0 0 [a]) sample_clock,
      TickAct 1 later, BeginElection 1 later, DeliverVote 1 2 req later,
      VoteAnswer 2 1 2 \<lparr>rvr_term = 2, vote_granted = True\<rparr>, VoteFails 1 0, FinishElection 1 later,
      ProposeAct 1 ''c'', Replicate 1, RunSend 1 2 2 2, RunBuild 1 2 2 2,
      DeliverEntries 1 2 (sample_entries 2 1 1 1 [c]) later,
      EntriesAnswer 2 1 2 1 1 \<lparr>aer_term = 2, success = False\<rparr>,
      Replicate 1, RunSend 1 2 2 1, RunBuild 1 2 2 1,
      DeliverEntries 1 2 (sample_entries 2 1 0 0 [a, c]) later,
      EntriesAnswer 2 1 2 0 2 \<lparr>aer_term = 2, success = True\<rparr>])"

lemmas replication_simps = sample_entry_def sample_entries_def propose_begin_def append_log_def
  advance_commit_index_locked_def compute_new_commit_index_def vector_at_def term_at_def command_at_def
  replicate_to_followers_def send_decide_def u64_sub_def build_append_entries_def handle_append_entries_def
  prev_mismatch_def has_real_entry_at_def store_entries_def truncate_and_append_def to_persisted_def
  apply_committed_closed on_append_response_def om_touch_def om_at_def

lemma commit_run_result:
  "map_option (\<lambda>s. propose_poll 2 1 (node s 0))
     (cluster_run sample_peers (elect_run @ commit_run) sample_cluster) = Some (Some True)"
  by (simp add: elect_run_def commit_run_def run_simps replication_simps propose_poll_def)

lemma answer_run_result:
  "map_option (\<lambda>s. (role (node s 0), map fst (next_index (node s 0)), commit_index (node s 0)))
     (cluster_run sample_peers (elect_run @ butlast commit_run) sample_cluster) = Some (Leader, [1, 2], 0)"
  by (simp add: elect_run_def commit_run_def run_simps replication_simps)

lemma overtake_run_result:
  "map_option (\<lambda>s. ((commit_index (node s 0), applied_commands (node s 0)),
                    (commit_index (node s 1), applied_commands (node s 1))))
     (cluster_run sample_peers (elect_run @ commit_run @ overtake_run) sample_cluster) =
   Some ((2, [''a'', ''b'']), (2, [''a'', ''c'']))"
  by (simp add: elect_run_def commit_run_def overtake_run_def run_simps replication_simps)

lemma sample_reachable:
  "cluster_run sample_peers acts sample_cluster = Some s \<Longrightarrow> reachable sample_peers s"
  by (erule cluster_run_reachable) (simp add: sample_cluster_def reachable.init)

lemma sample_config_ok: "config_ok sample_peers"
  by (simp add: config_ok_def sample_peers_def is_i32_def)

lemma cluster_run_append:
  "cluster_run cfg (as @ bs) s = Option.bind (cluster_run cfg as s) (cluster_run cfg bs)"
  by (induction cfg as s rule: cluster_run.induct) (auto split: outcome.splits)

section \<open>Properties\<close>

text \<open>
  C1: election safety.  In every reachable state of the cluster, whatever was delayed,
  reordered or lost and whichever nodes crashed and restarted from their files, two
  leaders of the same term are the same node.  It rests on the vote being on record
  before it is sent and on any two majorities meeting.
\<close>

theorem election_safety:
  assumes "config_ok cfg" and "reachable cfg s" and "i \<in> ids cfg" and "k \<in> ids cfg"
    and "role (node s i) = Leader" and "role (node s k) = Leader"
    and "cur_term (node s i) = cur_term (node s k)"
  shows "i = k"
proof -
  let ?t = "cur_term (node s k)" and ?bs = "set (ballots s)"
  have inv: "cluster_inv cfg s" by (rule reachable_inv) fact+
  have "majority_of (ids cfg) {j \<in> ids cfg. (j, ?t, i) \<in> ?bs}"
    and "majority_of (ids cfg) {j \<in> ids cfg. (j, ?t, k) \<in> ?bs}"
    using inv_nodeD(2) [OF inv assms(3)] inv_nodeD(2) [OF inv assms(4)] assms(5-7)
    by (simp_all add: leader_ok_def)
  then show ?thesis
  proof (rule maj.unique_choice [where votes = "{(j, a). (j, ?t, a) \<in> ?bs}"])
    fix v x y
    assume "(v, x) \<in> {(j, a). (j, ?t, a) \<in> ?bs}" and "(v, y) \<in> {(j, a). (j, ?t, a) \<in> ?bs}"
    then show "x = y" using inv by (auto simp: cluster_inv_def once_per_term_def)
  qed auto
qed

theorem election_safety_witness:
  "\<exists>s. cluster_run sample_peers elect_run sample_cluster = Some s \<and> role (node s 0) = Leader \<and>
     (\<forall>k \<in> {0, 1, 2}. role (node s k) = Leader \<and> cur_term (node s k) = cur_term (node s 0) \<longrightarrow> k = 0)"
proof -
  obtain s where s: "cluster_run sample_peers elect_run sample_cluster = Some s" and l: "role (node s 0) = Leader"
    using elect_run_result by auto
  have ids: "ids sample_peers = {0, 1, 2}" by (simp add: sample_peers_def)
  have "k = 0" if "k \<in> {0, 1, 2}" "role (node s k) = Leader" "cur_term (node s k) = cur_term (node s 0)" for k
    using election_safety [OF sample_config_ok sample_reachable [OF s], of k 0] that l unfolding ids by blast
  with s l show ?thesis by blast
qed

text \<open>
  C16: no action of the cluster is undefined.  Whatever can happen in a reachable state has
  a defined result: no vector is read past its end and no peer is looked up in vain.
\<close>

theorem cluster_never_undefined:
  assumes "config_ok cfg" and "reachable cfg s" and "enabled cfg a s"
  shows "\<exists>s'. effect a s = Returns s'"
  using effect_defined [OF reachable_inv [OF assms(2,1)] assms(1,3)] by (cases "effect a s") auto

text \<open>
  The elected leader of the run takes the answer of its follower, which reads the maps of
  \<open>next_index_\<close> and \<open>match_index_\<close> and the log vector, and replicates; the same node with the map lost has
  no defined replication, so reachability is what rules that out.
\<close>

theorem cluster_never_undefined_witness:
  "\<exists>s. reachable sample_peers s \<and> role (node s 0) = Leader \<and>
     (let answer = EntriesAnswer 1 0 1 0 2 \<lparr>aer_term = 1, success = True\<rparr> in
        enabled sample_peers answer s \<and> (\<exists>s'. effect answer s = Returns s')) \<and>
     enabled sample_peers (Replicate 0) s \<and> (\<exists>s'. effect (Replicate 0) s = Returns s') \<and>
     effect (Replicate 0) (set_node 0 ((node s 0)\<lparr>next_index := []\<rparr>) s) = Undefined"
proof -
  let ?a = "EntriesAnswer 1 0 1 0 2 \<lparr>aer_term = 1, success = True\<rparr>"
  obtain s where s: "cluster_run sample_peers (elect_run @ butlast commit_run) sample_cluster = Some s"
    and l: "role (node s 0) = Leader" "map fst (next_index (node s 0)) = [1, 2]"
    using answer_run_result by auto
  note r = sample_reachable [OF s]
  have "last commit_run = ?a" "commit_run \<noteq> []" by (simp_all add: commit_run_def Let_def)
  then have "elect_run @ commit_run = (elect_run @ butlast commit_run) @ [?a]" by (metis append.assoc append_butlast_last_id)
  moreover obtain s1 where "cluster_run sample_peers (elect_run @ commit_run) sample_cluster = Some s1"
    using commit_run_result by auto
  ultimately have "cluster_run sample_peers [?a] s = Some s1" 
    using cluster_run_append [of sample_peers "elect_run @ butlast commit_run" "[?a]" sample_cluster] s
    by (simp only: bind.bind_lunit)
  then have en: "enabled sample_peers ?a s" by (simp only: cluster_run.simps split: if_splits) simp
  have en2: "enabled sample_peers (Replicate 0) s" by (simp add: sample_peers_def)
  have "stub_ids (node s 0) = [1, 2]"
    using reachable_inv [OF r sample_config_ok] l
    by (auto simp: cluster_inv_def node_inv_def leader_wf_def sample_peers_def)
  then have "effect (Replicate 0) (set_node 0 ((node s 0)\<lparr>next_index := []\<rparr>) s) = Undefined"
    using l(1) by (auto simp: set_node_def replicate_to_followers_def stub_ids_def)
  with r l(1) en en2 cluster_never_undefined [OF sample_config_ok r en] cluster_never_undefined [OF sample_config_ok r en2]
  show ?thesis by (simp only: Let_def) blast
qed

text \<open>
  C4: a committed command can be lost.  \<open>handle_append_entries\<close> truncates at the previous
  index even if the entries that follow do not conflict, so an \<open>AppendEntries\<close> that is
  overtaken by a longer one of the same leader cuts off an entry the follower has already
  acknowledged.  Three nodes, one overtaken request, no crash: node 0 has committed and
  applied \<open>a, b\<close> (its \<open>propose\<close> of \<open>b\<close> returned true), then node 1, elected by node 2,
  commits and applies \<open>a, c\<close> at the same indices.
\<close>

theorem committed_command_lost:
  "\<exists>s1 s2. reachable sample_peers s1 \<and> cluster_run sample_peers overtake_run s1 = Some s2 \<and>
     propose_poll 2 1 (node s1 0) = Some True \<and>
     reachable sample_peers s2 \<and> commit_index (node s2 0) = 2 \<and> commit_index (node s2 1) = 2 \<and>
     applied_commands (node s2 0) = [''a'', ''b''] \<and> applied_commands (node s2 1) = [''a'', ''c'']"
proof -
  obtain s1 where s1: "cluster_run sample_peers (elect_run @ commit_run) sample_cluster = Some s1"
    and p: "propose_poll 2 1 (node s1 0) = Some True"
    using commit_run_result by auto
  from overtake_run_result obtain s2 where
    s2: "cluster_run sample_peers (elect_run @ commit_run @ overtake_run) sample_cluster = Some s2"
    and res: "commit_index (node s2 0) = 2 \<and> commit_index (node s2 1) = 2 \<and>
      applied_commands (node s2 0) = [''a'', ''b''] \<and> applied_commands (node s2 1) = [''a'', ''c'']"
    by auto
  have "cluster_run sample_peers overtake_run s1 = Some s2"
    using s1 s2 by (simp add: cluster_run_append flip: append_assoc)
  with s1 s2 p res show ?thesis using sample_reachable by blast
qed

text \<open>
  C18: the fields of every node stay within their C++ types, and stay consistent, in every reachable
  state: identity and configuration never change, the term is a \<open>uint64_t\<close> and the vote an
  \<open>int\<close>, and a leader has exactly one \<open>next_index_\<close> and one
  \<open>match_index_\<close> for each other member, the former at least 1.
\<close>

theorem cluster_well_typed:
  assumes "config_ok cfg" and "reachable cfg s" and "i \<in> ids cfg"
  shows "self_id (node s i) = i \<and> peers (node s i) = cfg \<and> cur_term (node s i) < 2 ^ 64 \<and> is_i32 (vote (node s i)) \<and>
    (role (node s i) = Leader \<longrightarrow>
       map fst (next_index (node s i)) = stub_ids (node s i) \<and> map fst (match_index (node s i)) = stub_ids (node s i) \<and>
       set (stub_ids (node s i)) = ids cfg - {i} \<and> distinct (stub_ids (node s i)) \<and> (\<forall>kv \<in> set (next_index (node s i)). 1 \<le> snd kv))"
proof -
  have "node_inv cfg i (node s i)" using reachable_inv [OF assms(2,1)] assms(3) unfolding cluster_inv_def by blast
  then show ?thesis by (auto simp: node_inv_def leader_wf_def wf_state_def stub_ids_def)
qed

theorem cluster_well_typed_witness:
  "\<exists>s. cluster_run sample_peers elect_run sample_cluster = Some s \<and> role (node s 0) = Leader \<and>
     map fst (next_index (node s 0)) = stub_ids (node s 0) \<and> set (stub_ids (node s 0)) = {1, 2} \<and>
     (\<forall>kv \<in> set (next_index (node s 0)). 1 \<le> snd kv)"
proof -
  obtain s where s: "cluster_run sample_peers elect_run sample_cluster = Some s" and l: "role (node s 0) = Leader"
    using elect_run_result by auto
  have "ids sample_peers = {0, 1, 2}" by (simp add: sample_peers_def)
  with s l cluster_well_typed [OF sample_config_ok sample_reachable [OF s], of 0]
  show ?thesis by auto
qed

end
