(* ===== verification/Raft_Matching.thy ===== *)
theory Raft_Matching
  imports Raft_Cluster "HOL-Library.Sublist"
begin

text \<open>
  The logs of the cluster.  A history variable records the log of the leader of every term;
  every log of the cluster, stored or in flight, is made of prefixes of those.  From it
  follows the log matching property of Raft for every run that does not compact logs
  (a compaction between the two critical sections of \<open>send_append_entries_to_peer\<close> sends
  blank entries, \<open>compaction_race_sends_blanks\<close>).  \<open>Raft_Safety\<close> builds on it.
\<close>

section \<open>Actions as events of one node\<close>

text \<open>The node an action moves, and the critical section it runs there.\<close>

fun event_of :: "action \<Rightarrow> cluster \<Rightarrow> (int \<times> node_event) option" where
  "event_of (TickAct i c) s = Some (i, Tick c)"
| "event_of (BeginElection i c) s = Some (i, ElectionBegin c)"
| "event_of (DeliverVote i j req c) s = Some (j, RequestVote c req)"
| "event_of (VoteAnswer j i t resp) s =
     (case ticker_of s i of Running e pending granted \<Rightarrow> Some (i, VoteResponse e (Some resp)) | _ \<Rightarrow> None)"
| "event_of (VoteFails i j) s =
     (case ticker_of s i of Running e pending granted \<Rightarrow> Some (i, VoteResponse e None) | _ \<Rightarrow> None)"
| "event_of (FinishElection i c) s =
     (case ticker_of s i of Running e pending granted \<Rightarrow> Some (i, ElectionFinish c e (length granted)) | _ \<Rightarrow> None)"
| "event_of (DeliverEntries i j req c) s = Some (j, AppendEntries c req)"
| "event_of (EntriesAnswer j i t prev sent resp) s = Some (i, AppendResponse t j prev sent resp)"
| "event_of (DeliverSnap i j req c) s = Some (j, InstallSnapshot c req)"
| "event_of (SnapAnswer j i t idx resp) s = Some (i, SnapshotResponse t j idx resp)"
| "event_of (ProposeAct i cmd) s = Some (i, Propose cmd)"
| "event_of (CompactAct i k data) s = Some (i, Compact k data)"
| "event_of _ s = None"

lemma effect_node:
  assumes "effect a s = Returns s'" and "event_of a s = Some (i, ev)"
  shows "exec ev (node s i) = Returns (node s' i)" "node s' = (node s)(i := node s' i)"
  using assms by (cases a; auto simp: cluster_defs Let_def split: prod.splits ticker.splits if_splits)+

lemma effect_no_node:
  assumes "effect a s = Returns s'" and "event_of a s = None" and "\<And>i c. a \<noteq> Restart i c"
  shows "node s' = node s"
  using assms by (cases a) (auto simp: cluster_defs Let_def split: prod.splits ticker.splits if_splits option.splits outcome.splits)

lemma event_of_iff:
  "event_of a s = Some (i, AppendEntries c req) \<longleftrightarrow> (\<exists>k. a = DeliverEntries k i req c)"
  "event_of a s = Some (i, InstallSnapshot c isq) \<longleftrightarrow> (\<exists>k. a = DeliverSnap k i isq c)"
  "event_of a s = Some (i, Propose cmd) \<longleftrightarrow> a = ProposeAct i cmd"
  "event_of a s = Some (i, Compact k data) \<longleftrightarrow> a = CompactAct i k data"
  "event_of a s = Some (i, RequestVote c rv) \<longleftrightarrow> (\<exists>k. a = DeliverVote k i rv c)"
  "event_of a s = Some (i, ElectionBegin c) \<longleftrightarrow> a = BeginElection i c"
  "event_of a s = Some (i, ElectionFinish c e g) \<longleftrightarrow>
     a = FinishElection i c \<and> (\<exists>pending granted. ticker_of s i = Running e pending granted \<and> g = length granted)"
  "event_of a s = Some (i, AppendResponse t j prev sent ar) \<longleftrightarrow> a = EntriesAnswer j i t prev sent ar"
  by (cases a; auto split: ticker.splits)+

lemma event_of_ok:
  assumes inv: "cluster_inv cfg s" and en: "enabled cfg a s" and ev: "event_of a s = Some (i, ev)"
  shows "i \<in> ids cfg" "event_ok ev (node s i)"
proof -
  have "i \<in> ids cfg \<and> event_ok ev (node s i)"
  proof (cases a)
    case (EntriesAnswer j k t prev sent resp)
    with en ev inv_msgD [OF inv, of "EntriesResp j k t prev sent resp"] inv_nodeD(1) [OF inv, of k]
    show ?thesis by (auto simp: node_inv_def)
  next
    case (SnapAnswer j k t idx resp)
    with en ev inv_msgD [OF inv, of "SnapResp j k t idx resp"] inv_nodeD(1) [OF inv, of k]
    show ?thesis by (auto simp: node_inv_def)
  next
    case (BeginElection k c)
    with en ev inv_nodeD(3) [OF inv, of k] show ?thesis by auto
  qed (use en ev inv_msgD [OF inv] in \<open>auto split: ticker.splits dest!: inv_msgD [OF inv]\<close>)
  then show "i \<in> ids cfg" "event_ok ev (node s i)" by simp_all
qed

section \<open>Logs of leaders\<close>

text \<open>
  \<open>reigns t\<close> is the leader of term \<open>t\<close>, if there was one, and its log.  A log follows the
  reigns if up to each of its entries it is a prefix of the log of the leader of that
  entry's term.
\<close>

type_synonym reigns = "nat \<rightharpoonup> int \<times> persisted_entry list"

abbreviation log_of :: "raft_node \<Rightarrow> persisted_entry list" where
  "log_of n \<equiv> entries (rn_log n)"

definition follows :: "reigns \<Rightarrow> persisted_entry list \<Rightarrow> bool" where
  "follows W es \<longleftrightarrow> (\<forall>k < length es. \<exists>a L. W (entry_term (es ! k)) = Some (a, L) \<and> prefix (take (Suc k) es) L)"

definition extends :: "reigns \<Rightarrow> reigns \<Rightarrow> bool" where
  "extends W W' \<longleftrightarrow> (\<forall>t a L. W t = Some (a, L) \<longrightarrow> (\<exists>L'. W' t = Some (a, L') \<and> prefix L L'))"

definition sized :: "persisted_entry list \<Rightarrow> bool" where
  "sized es \<longleftrightarrow> length es < 2 ^ 64 \<and> (\<forall>e \<in> set es. wf_entry e)"

definition terms_upto :: "nat \<Rightarrow> persisted_entry list \<Rightarrow> bool" where
  "terms_upto t es \<longleftrightarrow> sorted (map entry_term es) \<and> (\<forall>e \<in> set es. entry_term e \<le> t)"

text \<open>What every log of the cluster satisfies, in a node of term \<open>t\<close>.\<close>

definition good_log :: "reigns \<Rightarrow> nat \<Rightarrow> persisted_entry list \<Rightarrow> bool" where
  "good_log W t es \<longleftrightarrow> follows W es \<and> sized es \<and> terms_upto t es"

lemma extends_refl [simp]: "extends W W"
  by (auto simp: extends_def)

lemma extendsD: "extends W W' \<Longrightarrow> W t = Some (a, L) \<Longrightarrow> \<exists>L'. W' t = Some (a, L') \<and> prefix L L'"
  by (simp add: extends_def)

lemma follows_extends: "follows W es \<Longrightarrow> extends W W' \<Longrightarrow> follows W' es"
  unfolding follows_def extends_def by (meson prefix_order.trans)

lemma good_log_extends: "good_log W t es \<Longrightarrow> extends W W' \<Longrightarrow> t \<le> t' \<Longrightarrow> good_log W' t' es"
  by (auto simp: good_log_def terms_upto_def intro: follows_extends)

lemma follows_Nil [simp]: "follows W []"
  by (simp add: follows_def)

lemma good_log_Nil [simp]: "good_log W t []"
  by (simp add: good_log_def sized_def terms_upto_def)

lemma follows_take: "follows W es \<Longrightarrow> follows W (take n es)"
  by (auto simp: follows_def min_absorb1)

lemma good_log_take: "good_log W t es \<Longrightarrow> good_log W t (take n es)"
  by (auto simp: good_log_def sized_def terms_upto_def follows_take sorted_wrt_take take_map [symmetric]
      dest: in_set_takeD)

lemma follows_prefix: "follows W es \<Longrightarrow> prefix fs es \<Longrightarrow> follows W fs"
  by (metis follows_take prefix_def append_eq_conv_conj)

text \<open>Log matching: one term at one index, one log up to there.\<close>

lemma follows_match:
  assumes "follows W es" and "follows W fs" and "k < length es" and "k < length fs"
    and "entry_term (es ! k) = entry_term (fs ! k)"
  shows "take (Suc k) es = take (Suc k) fs"
proof -
  obtain a L where "prefix (take (Suc k) es) L" "prefix (take (Suc k) fs) L"
    using assms unfolding follows_def by (metis option.inject prod.inject)
  moreover have "length (take (Suc k) es) = length (take (Suc k) fs)" using assms(3,4) by simp
  ultimately show ?thesis by (metis append_eq_append_conv prefix_def)
qed

lemma follows_snoc:
  assumes "follows W es" and "W (entry_term e) = Some (a, L)" and "prefix (es @ [e]) L"
  shows "follows W (es @ [e])"
  unfolding follows_def
proof (intro allI impI)
  fix k assume "k < length (es @ [e])"
  then consider "k < length es" | "k = length es" by fastforce
  then show "\<exists>a L. W (entry_term ((es @ [e]) ! k)) = Some (a, L) \<and> prefix (take (Suc k) (es @ [e])) L"
    using assms by cases (auto simp: follows_def nth_append)
qed

text \<open>
  The leader of a term, and its log, seen from the state after a node moved.  \<open>crown\<close> is
  how the history variable follows the cluster.
\<close>

definition crown :: "int \<Rightarrow> raft_node \<Rightarrow> reigns \<Rightarrow> reigns" where
  "crown i n W = (if role n = Leader then W(cur_term n \<mapsto> (i, log_of n)) else W)"

lemma crown_extends:
  assumes "role n = Leader \<Longrightarrow> W (cur_term n) = None \<or> (\<exists>L. W (cur_term n) = Some (i, L) \<and> prefix L (log_of n))"
  shows "extends W (crown i n W)"
  using assms by (auto simp: extends_def crown_def)

lemma crown_same: "role n = Leader \<Longrightarrow> W (cur_term n) = Some (i, log_of n) \<Longrightarrow> crown i n W = W"
  by (auto simp: crown_def)

section \<open>What one node does to its log\<close>

lemma exec_candidate:
  assumes "exec ev n = Returns n'" and "event_ok ev n" and "role n' = Candidate"
  shows "(role n = Candidate \<and> cur_term n' = cur_term n) \<or> cur_term n < cur_term n'"
  using assms
  by (cases ev)
     (auto simp: tick_def compact_def on_vote_response_def election_begin_def election_finish_def
       handle_request_vote_def handle_append_entries_def handle_install_snapshot_def on_snapshot_response_def
       propose_begin_def on_append_response_def wrap_simps Let_def
       split: if_splits option.splits dest: advance_commit_frame)

lemma exec_leader:
  assumes "exec ev n = Returns n'" and "role n' = Leader"
  shows "cur_term n' = cur_term n \<and>
    (role n = Leader \<or> (\<exists>c e g. ev = ElectionFinish c e g \<and> role n = Candidate \<and> rn_log n' = rn_log n))"
proof (cases "\<exists>c e g. ev = ElectionFinish c e g")
  case True
  with assms show ?thesis by (auto simp: election_finish_def Let_def split: if_splits)
next
  case False
  with exec_leader_kept [OF assms] show ?thesis by blast
qed

text \<open>The two ways a log changes when nothing is compacted.\<close>

definition stores :: "append_entries_request \<Rightarrow> raft_node \<Rightarrow> raft_node \<Rightarrow> bool" where
  "stores req n n' \<longleftrightarrow> cur_term n \<le> ae_term req \<and> cur_term n' = ae_term req \<and> role n' = Follower \<and>
     \<not> prev_mismatch req (rn_log n) \<and> ae_entries req \<noteq> [] \<and>
     rn_log n' = truncate_and_append (prev_log_index req) (map to_persisted (ae_entries req)) (rn_log n)"

lemma exec_log:
  assumes "exec ev n = Returns n'" and "\<And>k data. ev \<noteq> Compact k data" and "\<And>c isq. ev \<noteq> InstallSnapshot c isq"
  obtains "rn_log n' = rn_log n"
  | cmd where "ev = Propose cmd" "role n = Leader" "rn_log n' = append_log (cur_term n) cmd (rn_log n)"
  | c req where "ev = AppendEntries c req" "stores req n n'"
proof (cases ev)
  case (Propose cmd)
  with assms(1) that show thesis
    by (auto simp: propose_begin_def Let_def split: if_splits dest: advance_commit_frame)
next
  case (AppendResponse trm peer prev sent ar)
  with assms(1) that(1) show thesis
    by (auto simp: on_append_response_def Let_def split: if_splits dest: advance_commit_frame)
next
  case (AppendEntries c req)
  with assms(1) have n': "n' = snd (handle_append_entries c req n)" by simp
  show thesis
  proof (cases "ae_term req < cur_term n \<or> prev_mismatch req (rn_log n) \<or> ae_entries req = []")
    case True
    with n' have "rn_log n' = rn_log n"
      by (auto simp: handle_append_entries_def store_entries_def Let_def)
    then show thesis by (rule that(1))
  next
    case False
    with n' have "stores req n n'"
      by (auto simp: stores_def handle_append_entries_def store_entries_def Let_def)
    with AppendEntries show thesis by (rule that(3))
  qed
qed (use assms that(1) in \<open>auto simp: tick_def on_vote_response_def election_begin_def election_finish_def
       handle_request_vote_def on_snapshot_response_def Let_def split: if_splits option.splits\<close>)

lemma exec_grows:
  assumes "exec ev n = Returns n'" and "\<And>k data. ev \<noteq> Compact k data" and "\<And>c isq. ev \<noteq> InstallSnapshot c isq"
    and "role n' = Leader"
  shows "prefix (log_of n) (log_of n')"
  using assms(1-3) by (rule exec_log) (use assms(4) in \<open>auto simp: append_log_def stores_def\<close>)

section \<open>The invariant\<close>

text \<open>
  The runs the theorems are about: no compaction, and what a proposal adds stays within the
  32-bit length and 64-bit index of the log file.
\<close>

fun uncompacted :: "action \<Rightarrow> cluster \<Rightarrow> bool" where
  "uncompacted (CompactAct i k data) s \<longleftrightarrow> False"
| "uncompacted (ProposeAct i cmd) s \<longleftrightarrow> length cmd < 2 ^ 32 \<and> length (log_of (node s i)) + 1 < 2 ^ 64"
| "uncompacted _ s \<longleftrightarrow> True"

text \<open>A request of a leader is a piece of its log, or it says nothing.\<close>

definition piece_of :: "append_entries_request \<Rightarrow> persisted_entry list \<Rightarrow> bool" where
  "piece_of req L \<longleftrightarrow> prev_log_index req + length (ae_entries req) \<le> length L \<and>
     map to_persisted (ae_entries req) = take (length (ae_entries req)) (drop (prev_log_index req) L) \<and>
     (0 < prev_log_index req \<longrightarrow> prev_log_term req = entry_term (L ! (prev_log_index req - 1)))"

definition empty_piece :: "append_entries_request \<Rightarrow> bool" where
  "empty_piece req \<longleftrightarrow> ae_entries req = [] \<and> 0 < prev_log_index req \<and> prev_log_term req = 0"

fun msg_match :: "reigns \<Rightarrow> message \<Rightarrow> bool" where
  "msg_match W (SendTask i j t nx) \<longleftrightarrow> 1 \<le> nx"
| "msg_match W (BuildTask i j t nx) \<longleftrightarrow> 1 \<le> nx"
| "msg_match W (EntriesReq i j req) \<longleftrightarrow>
     (\<exists>a L. W (ae_term req) = Some (a, L) \<and> (piece_of req L \<or> empty_piece req))"
| "msg_match W (SnapReq i j req) \<longleftrightarrow> False"
| "msg_match W (SnapResp j i t idx resp) \<longleftrightarrow> False"
| "msg_match W _ \<longleftrightarrow> True"

definition node_match :: "reigns \<Rightarrow> int \<Rightarrow> raft_node \<Rightarrow> bool" where
  "node_match W i n \<longleftrightarrow> snapshot_last_index (rn_log n) = 0 \<and> snapshot_last_term (rn_log n) = 0 \<and>
     snapshot_data (rn_log n) = '''' \<and> good_log W (cur_term n) (log_of n) \<and>
     log_path (rn_log n) \<noteq> state_path (rn_state n) \<and> (role n \<noteq> Follower \<longrightarrow> 0 < cur_term n) \<and> (role n = Leader \<longrightarrow> W (cur_term n) = Some (i, log_of n))"

definition reign_ok :: "raft_peer list \<Rightarrow> reigns \<Rightarrow> cluster \<Rightarrow> nat \<Rightarrow> int \<Rightarrow> persisted_entry list \<Rightarrow> bool" where
  "reign_ok cfg W s t a L \<longleftrightarrow> 0 < t \<and> good_log W t L \<and>
     majority_of (ids cfg) {j \<in> ids cfg. (j, t, a) \<in> set (ballots s)} \<and>
     (t < cur_term (node s a) \<or> t = cur_term (node s a) \<and> role (node s a) \<noteq> Candidate)"

definition match_inv :: "raft_peer list \<Rightarrow> reigns \<Rightarrow> cluster \<Rightarrow> bool" where
  "match_inv cfg W s \<longleftrightarrow> (\<forall>t a L. W t = Some (a, L) \<longrightarrow> reign_ok cfg W s t a L) \<and>
     (\<forall>i \<in> ids cfg. node_match W i (node s i)) \<and> (\<forall>m \<in> set (msgs s). msg_match W m)"

lemma match_reignD: "match_inv cfg W s \<Longrightarrow> W t = Some (a, L) \<Longrightarrow> reign_ok cfg W s t a L"
  and match_nodeD: "match_inv cfg W s \<Longrightarrow> i \<in> ids cfg \<Longrightarrow> node_match W i (node s i)"
  and match_msgD: "match_inv cfg W s \<Longrightarrow> m \<in> set (msgs s) \<Longrightarrow> msg_match W m"
  by (auto simp: match_inv_def)

lemma piece_of_prefix:
  assumes "piece_of req L" and "prefix L L'"
  shows "piece_of req L'"
proof -
  obtain M where L': "L' = L @ M" using assms(2) by (auto simp: prefix_def)
  show ?thesis using assms(1) by (auto simp: piece_of_def L' nth_append)
qed

lemma msg_match_extends: "msg_match W m \<Longrightarrow> extends W W' \<Longrightarrow> msg_match W' m"
  by (cases m) (auto dest!: extendsD intro: piece_of_prefix)

lemma majority_of_mono:
  assumes "majority_of N P" and "P \<subseteq> Q" and "Q \<subseteq> N"
  shows "majority_of N Q"
proof -
  have "finite Q" using assms by (auto simp: majority_of_def intro: finite_subset)
  then have "card P \<le> card Q" using assms(2) by (rule card_mono)
  with assms(1,3) show ?thesis by (auto simp: majority_of_def)
qed

lemma reign_unique:
  assumes inv: "match_inv cfg W s" "cluster_inv cfg s'" and bs: "set (ballots s) \<subseteq> set (ballots s')"
    and W: "W t = Some (a, L)" and b: "majority_of (ids cfg) {j \<in> ids cfg. (j, t, b) \<in> set (ballots s')}"
  shows "a = b"
proof (rule maj.unique_choice [where votes = "{(j, a). (j, t, a) \<in> set (ballots s')}"])
  show "majority_of (ids cfg) {j \<in> ids cfg. (j, t, a) \<in> set (ballots s')}"
    by (rule majority_of_mono) (use match_reignD [OF inv(1) W] bs in \<open>auto simp: reign_ok_def\<close>)
  show "x = y" if "(v, x) \<in> {(j, a). (j, t, a) \<in> set (ballots s')}"
    and "(v, y) \<in> {(j, a). (j, t, a) \<in> set (ballots s')}" for v x y
    using that inv(2) by (auto simp: cluster_inv_def once_per_term_def)
qed (use b in auto)

text \<open>One node moves: what has to be shown of it for the invariant to go on holding.\<close>

definition moves_to :: "raft_node \<Rightarrow> raft_node \<Rightarrow> bool" where
  "moves_to n n' \<longleftrightarrow> cur_term n \<le> cur_term n' \<and>
     log_path (rn_log n') = log_path (rn_log n) \<and> state_path (rn_state n') = state_path (rn_state n) \<and>
     (role n' = Candidate \<longrightarrow> (role n = Candidate \<and> cur_term n' = cur_term n) \<or> cur_term n < cur_term n') \<and>
     (role n' = Leader \<longrightarrow> cur_term n' = cur_term n \<and> role n \<noteq> Follower \<and> prefix (log_of n) (log_of n'))"

lemma moves_extends:
  assumes inv: "match_inv cfg W s" "cluster_inv cfg s'" and i: "i \<in> ids cfg"
    and mv: "moves_to (node s i) (node s' i)" and bs: "set (ballots s) \<subseteq> set (ballots s')"
  shows "extends W (crown i (node s' i) W)"
proof (rule crown_extends)
  let ?n = "node s i" and ?n' = "node s' i"
  assume lead: "role ?n' = Leader"
  then have t: "cur_term ?n' = cur_term ?n" "role ?n \<noteq> Follower" "prefix (log_of ?n) (log_of ?n')"
    using mv by (auto simp: moves_to_def)
  show "W (cur_term ?n') = None \<or> (\<exists>L. W (cur_term ?n') = Some (i, L) \<and> prefix L (log_of ?n'))"
  proof (cases "role ?n = Leader")
    case True
    with match_nodeD [OF inv(1) i] t show ?thesis by (auto simp: node_match_def)
  next
    case False
    with t have cand: "role ?n = Candidate" using role_t.exhaust by metis
    have "majority_of (ids cfg) {j \<in> ids cfg. (j, cur_term ?n, i) \<in> set (ballots s')}"
      using inv_nodeD(2) [OF inv(2) i] lead t(1) by (auto simp: leader_ok_def)
    then have "a = i" if "W (cur_term ?n) = Some (a, L)" for a L
      using reign_unique [OF inv bs that] by blast
    moreover have "W (cur_term ?n) \<noteq> Some (i, L)" for L
      using match_reignD [OF inv(1), of "cur_term ?n" i L] cand by (auto simp: reign_ok_def)
    ultimately show ?thesis using t(1) by (metis not_None_eq prod.exhaust)
  qed
qed

lemma match_move:
  assumes inv: "match_inv cfg W s" "cluster_inv cfg s'" and i: "i \<in> ids cfg"
    and mv: "moves_to (node s i) n'" and s': "node s' = (node s)(i := n')"
    and bs: "set (ballots s) \<subseteq> set (ballots s')" and W': "W' = crown i n' W" and ext: "extends W W'"
    and log: "snapshot_last_index (rn_log n') = 0" "snapshot_last_term (rn_log n') = 0"
      "snapshot_data (rn_log n') = ''''" "good_log W' (cur_term n') (log_of n')"
    and ms: "\<And>m. m \<in> set (msgs s') \<Longrightarrow> m \<in> set (msgs s) \<or> msg_match W' m"
  shows "match_inv cfg W' s'"
proof -
  have pos: "0 < cur_term n'" if "role n' \<noteq> Follower"
    using match_nodeD [OF inv(1) i] mv that
    by (cases "role n'") (auto simp: node_match_def moves_to_def)
  have "node_match W' k (node s' k)" if k: "k \<in> ids cfg" for k
  proof (cases "k = i")
    case True
    moreover have "log_path (rn_log n') \<noteq> state_path (rn_state n')"
      using match_nodeD [OF inv(1) i] mv by (simp add: node_match_def moves_to_def)
    ultimately show ?thesis using log pos by (auto simp: node_match_def s' W' crown_def)
  next
    case False
    have n: "node_match W k (node s k)" using match_nodeD [OF inv(1) k] .
    have "W' (cur_term (node s k)) = Some (k, log_of (node s k))" if l: "role (node s k) = Leader"
    proof (cases "W' (cur_term (node s k)) = W (cur_term (node s k))")
      case True
      with n l show ?thesis by (simp add: node_match_def)
    next
      case neq: False
      from n l have "W (cur_term (node s k)) = Some (k, log_of (node s k))" by (simp add: node_match_def)
      with ext neq have "W' (cur_term (node s k)) \<noteq> Some (i, log_of n')"
        using False by (auto dest!: extendsD)
      with neq show ?thesis by (auto simp: W' crown_def split: if_splits)
    qed
    with n ext False show ?thesis by (auto simp: node_match_def s' intro: good_log_extends)
  qed
  moreover have "reign_ok cfg W' s' t a L" if t: "W' t = Some (a, L)" for t a L
  proof (cases "role n' = Leader \<and> t = cur_term n'")
    case True
    with t have a: "a = i" "L = log_of n'" by (auto simp: W' crown_def)
    with True inv_nodeD(2) [OF inv(2) i] log pos show ?thesis by (auto simp: reign_ok_def s' leader_ok_def)
  next
    case False
    with t have W: "W t = Some (a, L)" by (auto simp: W' crown_def split: if_splits)
    from match_reignD [OF inv(1) this]
    have r: "0 < t" "good_log W t L" "majority_of (ids cfg) {j \<in> ids cfg. (j, t, a) \<in> set (ballots s)}"
      "t < cur_term (node s a) \<or> t = cur_term (node s a) \<and> role (node s a) \<noteq> Candidate"
      by (simp_all add: reign_ok_def)
    have "majority_of (ids cfg) {j \<in> ids cfg. (j, t, a) \<in> set (ballots s')}"
      by (rule majority_of_mono [OF r(3)]) (use bs in auto)
    moreover have "t < cur_term (node s' a) \<or> t = cur_term (node s' a) \<and> role (node s' a) \<noteq> Candidate"
      using r(4) mv by (auto simp: s' moves_to_def)
    ultimately show ?thesis using r ext by (auto simp: reign_ok_def intro: good_log_extends)
  qed
  moreover have "msg_match W' m" if "m \<in> set (msgs s')" for m
    using ms [OF that] match_msgD [OF inv(1)] ext msg_match_extends by blast
  ultimately show ?thesis by (simp add: match_inv_def)
qed

section \<open>Every action keeps it\<close>

text \<open>Storing a piece of a leader's log after an entry that matches makes the log a prefix of that log.\<close>

lemma agrees_at_prev:
  assumes "follows W es" and "follows W L" and "piece_of req L" and "snapshot_last_index l = 0" and "entries l = es"
    and "sized es" and "\<not> prev_mismatch req l"
  shows "prev_log_index req \<le> length es" "take (prev_log_index req) es = take (prev_log_index req) L"
proof -
  let ?p = "prev_log_index req"
  have li: "last_index l = length es" using assms(4-6) by (simp add: last_index_def sized_def wrap_simps)
  have p: "?p \<le> length L" using assms(3) by (simp add: piece_of_def)
  have "?p \<le> length es \<and> take ?p es = take ?p L"
  proof (cases "?p = 0")
    case False
    with assms(3-5,7) li have real: "?p \<le> length es" and t: "entry_term (es ! (?p - 1)) = entry_term (L ! (?p - 1))"
      by (auto simp: prev_mismatch_def has_real_entry_at_def term_at_def piece_of_def)
    have "take (Suc (?p - 1)) es = take (Suc (?p - 1)) L"
      by (rule follows_match [OF assms(1,2) _ _ t]) (use False real p in auto)
    with False real show ?thesis by simp
  qed simp
  then show "?p \<le> length es" "take ?p es = take ?p L" by simp_all
qed

lemma stored_log:
  assumes "follows W es" and "follows W L" and "sized L" and "piece_of req L" and "snapshot_last_index l = 0"
    and "entries l = es" and "sized es" and "\<not> prev_mismatch req l"
  shows "entries (truncate_and_append (prev_log_index req) (map to_persisted (ae_entries req)) l) =
    take (prev_log_index req + length (ae_entries req)) L"
proof -
  have "prev_log_index req + length (map to_persisted (ae_entries req)) < 2 ^ 64"
    using assms(3,4) by (auto simp: sized_def piece_of_def)
  from entries_truncate_and_append [OF this] show ?thesis
    using agrees_at_prev [OF assms(1,2,4-8)] assms(4-6) by (simp add: piece_of_def take_add)
qed

lemma good_log_snoc:
  assumes "good_log W t L" and "W t = Some (a, L @ [e])" and "entry_term e = t" and "wf_entry e"
    and "length L + 1 < 2 ^ 64"
  shows "good_log W t (L @ [e])"
proof -
  have "follows W (L @ [e])" by (rule follows_snoc) (use assms in \<open>auto simp: good_log_def\<close>)
  with assms show ?thesis by (auto simp: good_log_def sized_def terms_upto_def sorted_append)
qed

lemma exec_paths:
  assumes "exec ev n = Returns n'"
  shows "log_path (rn_log n') = log_path (rn_log n) \<and> state_path (rn_state n') = state_path (rn_state n)"
proof (cases ev)
  case (Propose cmd)
  with assms show ?thesis by (auto simp: propose_begin_def Let_def split: if_splits dest: advance_commit_frame)
next
  case (AppendResponse trm peer prev sent ar)
  with assms show ?thesis
    by (auto simp: on_append_response_def become_follower_locked_def Let_def split: if_splits dest: advance_commit_frame)
qed (use assms in \<open>auto simp: tick_def on_vote_response_def election_begin_def election_finish_def compact_def
       handle_request_vote_def handle_append_entries_def handle_install_snapshot_def store_entries_def
       on_snapshot_response_def observe_term_def become_follower_locked_def Let_def split: option.splits\<close>)

lemma exec_moves_to:
  assumes "exec ev n = Returns n'" and "event_ok ev n"
    and "\<And>k data. ev \<noteq> Compact k data" and "\<And>c isq. ev \<noteq> InstallSnapshot c isq"
  shows "moves_to n n'"
proof -
  have "cur_term n \<le> cur_term n'" using exec_term_vote_le [OF assms(1,2)] by (simp add: term_vote_le_def)
  moreover have "role n \<noteq> Follower \<and> cur_term n' = cur_term n" if "role n' = Leader"
    using exec_leader [OF assms(1) that] by auto
  ultimately show ?thesis
    using exec_candidate [OF assms(1,2)] exec_grows [OF assms(1,3,4)] exec_paths [OF assms(1)]
    by (auto simp: moves_to_def)
qed

text \<open>The log after an event, given the leaders' logs as they are then.\<close>

lemma exec_good_log:
  assumes ex: "exec ev n = Returns n'" "\<And>k data. ev \<noteq> Compact k data" "\<And>c isq. ev \<noteq> InstallSnapshot c isq"
    and n: "node_match W i n" "wf_state (rn_state n)" and le: "cur_term n \<le> cur_term n'"
    and W': "W' = crown i n' W" "extends W W'"
    and size: "\<And>cmd. ev = Propose cmd \<Longrightarrow> length cmd < 2 ^ 32 \<and> length (log_of n) + 1 < 2 ^ 64"
    and req: "\<And>c req. ev = AppendEntries c req \<Longrightarrow> \<exists>a L. W (ae_term req) = Some (a, L) \<and>
      good_log W (ae_term req) L \<and> (piece_of req L \<or> empty_piece req)"
  shows "snapshot_last_index (rn_log n') = 0" "snapshot_last_term (rn_log n') = 0"
    "snapshot_data (rn_log n') = ''''" "good_log W' (cur_term n') (log_of n')"
proof -
  from n(1) have snap: "snapshot_last_index (rn_log n) = 0" "snapshot_last_term (rn_log n) = 0"
      "snapshot_data (rn_log n) = ''''" and good: "good_log W (cur_term n) (log_of n)"
    by (simp_all add: node_match_def)
  have "snapshot_last_index (rn_log n') = 0 \<and> snapshot_last_term (rn_log n') = 0 \<and>
    snapshot_data (rn_log n') = '''' \<and> good_log W' (cur_term n') (log_of n')"
    using ex
  proof (rule exec_log)
    assume "rn_log n' = rn_log n"
    with snap good le W'(2) show ?thesis by (auto intro: good_log_extends)
  next
    fix cmd assume p: "ev = Propose cmd" "role n = Leader" "rn_log n' = append_log (cur_term n) cmd (rn_log n)"
    then have n': "role n' = Leader" "cur_term n' = cur_term n"
      using ex(1) by (auto simp: propose_begin_def Let_def split: if_splits dest: advance_commit_frame)
    have "good_log W' (cur_term n) (log_of n @ [\<lparr>entry_term = cur_term n, command = cmd\<rparr>])"
    proof (rule good_log_snoc)
      show "good_log W' (cur_term n) (log_of n)" using good W'(2) by (rule good_log_extends) simp
      show "W' (cur_term n) = Some (i, log_of n @ [\<lparr>entry_term = cur_term n, command = cmd\<rparr>])"
        using n' p(3) by (simp add: W'(1) crown_def)
    qed (use size [OF p(1)] n(2) in \<open>auto simp: wf_entry_def wf_state_def\<close>)
    with snap p n' show ?thesis by simp
  next
    fix c req assume st: "ev = AppendEntries c req" "stores req n n'"
    obtain a L where L: "W (ae_term req) = Some (a, L)" "good_log W (ae_term req) L" "piece_of req L"
      using req [OF st(1)] st(2) by (auto simp: stores_def empty_piece_def)
    have "log_of n' = take (prev_log_index req + length (ae_entries req)) L"
      using st(2) stored_log [of W "log_of n" L req "rn_log n"] L good snap(1)
      by (simp add: stores_def good_log_def)
    moreover have "good_log W' (ae_term req) (take (prev_log_index req + length (ae_entries req)) L)"
      using good_log_take [OF L(2)] W'(2) by (rule good_log_extends) simp
    ultimately show ?thesis using st(2) snap by (auto simp: stores_def)
  qed
  then show "snapshot_last_index (rn_log n') = 0" "snapshot_last_term (rn_log n') = 0"
    "snapshot_data (rn_log n') = ''''" "good_log W' (cur_term n') (log_of n')" by simp_all
qed

lemma wf_log_sized:
  "snapshot_last_index l = 0 \<Longrightarrow> snapshot_last_term l = 0 \<Longrightarrow> snapshot_data l = '''' \<Longrightarrow>
   wf_log l \<longleftrightarrow> sized (entries l)"
  by (simp add: wf_log_def sized_def)

lemma node_match_wf: "node_match W i n \<Longrightarrow> wf_log (rn_log n)"
  by (simp add: node_match_def wf_log_sized good_log_def)

lemma node_match_last: "node_match W i n \<Longrightarrow> last_index (rn_log n) = length (log_of n)"
  using node_match_wf [of W i n] by (simp add: last_index_wf) (simp add: node_match_def)

text \<open>What a leader sends is a piece of its own log.\<close>

lemma built_request:
  assumes b: "build_append_entries t nx n = Some req" and n: "node_match W i n" and nx: "1 \<le> nx"
  shows "W (ae_term req) = Some (i, log_of n) \<and> ae_term req = cur_term n \<and> leader_commit req = commit_index n \<and>
    (piece_of req (log_of n) \<and> prev_log_index req + length (ae_entries req) = length (log_of n) \<or> empty_piece req)"
proof -
  let ?l = "rn_log n" and ?es = "log_of n"
  have wf: "wf_log ?l" and li: "last_index ?l = length ?es" and s0: "snapshot_last_index ?l = 0"
    using node_match_wf [OF n] node_match_last [OF n] n by (simp_all add: node_match_def)
  have req: "ae_term req = cur_term n" "leader_commit req = commit_index n" "prev_log_index req = nx - 1"
      "prev_log_term req = term_at ?l (nx - 1)" "role n = Leader"
      "ae_entries req = map (\<lambda>i. \<lparr>le_term = term_at ?l i, le_index = i, le_command = command_at ?l i\<rparr>)
         [nx..<Suc (last_index ?l)]"
    using b nx by (auto simp: build_append_entries_def wrap_simps Let_def simp del: upt_Suc split: if_splits)
  have "piece_of req ?es \<and> prev_log_index req + length (ae_entries req) = length ?es \<or> empty_piece req"
  proof (cases "nx \<le> Suc (length ?es)")
    case True
    have "map to_persisted (ae_entries req) = drop (nx - 1) ?es"
    proof (rule nth_equalityI)
      show "length (map to_persisted (ae_entries req)) = length (drop (nx - 1) ?es)"
        using nx True by (simp add: req(6) li del: upt_Suc)
      fix k assume k: "k < length (map to_persisted (ae_entries req))"
      then have k': "k < Suc (last_index ?l) - nx" by (simp add: req(6) del: upt_Suc)
      with build_entries_nth [OF wf _ this] nx s0
      have "Some (map to_persisted (ae_entries req) ! k) = entry_at ?l (nx + k)"
        by (simp add: req(6) del: upt_Suc)
      also have "\<dots> = Some (drop (nx - 1) ?es ! k)" using k' nx li s0 by (auto simp: entry_at_def)
      finally show "map to_persisted (ae_entries req) ! k = drop (nx - 1) ?es ! k" by simp
    qed
    moreover have "length (ae_entries req) = Suc (length ?es) - nx" by (simp add: req(6) li del: upt_Suc)
    ultimately show ?thesis using nx True li s0
      by (auto simp: piece_of_def req(3,4) term_at_def)
  next
    case False
    then have "length ?es < nx - 1" by linarith
    with nx li req(3,4,6) have "empty_piece req" by (simp add: empty_piece_def term_at_def)
    then show ?thesis ..
  qed
  with req n show ?thesis by (simp add: node_match_def)
qed

lemma new_messages:
  assumes eff: "effect a s = Returns s'" and en: "enabled cfg a s" and m: "m \<in> set (msgs s')"
    and inv: "match_inv cfg W s" "cluster_inv cfg s"
  shows "m \<in> set (msgs s) \<or> msg_match W m"
proof (cases a)
  case (Replicate i)
  then have i: "i \<in> ids cfg" using en by simp
  obtain r where r: "replicate_to_followers (node s i) = Returns r"
    using eff Replicate by (cases "replicate_to_followers (node s i)") auto
  have "1 \<le> nx" if "r = Some (t, nexts)" "(p, nx) \<in> set nexts" for t nexts p nx
  proof -
    have lead: "role (node s i) = Leader" and nx: "map_of (next_index (node s i)) p = Some nx"
      using r that by (fastforce simp: replicate_to_followers_def simp del: set_stub_ids split: if_splits)+
    then show ?thesis using inv_nodeD(1) [OF inv(2) i] map_of_SomeD [OF nx]
      by (auto simp: node_inv_def leader_wf_def)
  qed
  with eff r m Replicate show ?thesis by (auto simp: swap_msgs_def split: option.splits)
next
  case (RunSend i j t nx)
  then have t: "SendTask i j t nx \<in> set (msgs s)" using en by simp
  then have "i \<in> ids cfg" using inv_msgD [OF inv(2) t] by simp
  from match_nodeD [OF inv(1) this] have "snapshot_last_index (rn_log (node s i)) = 0" by (simp add: node_match_def)
  with eff m RunSend match_msgD [OF inv(1) t] show ?thesis
    by (auto simp: send_decide_def split: if_splits dest!: set_swap_msgs)
next
  case (RunBuild i j t nx)
  then have t: "BuildTask i j t nx \<in> set (msgs s)" using en by simp
  then have i: "i \<in> ids cfg" using inv_msgD [OF inv(2) t] by simp
  have "msg_match W (EntriesReq i j req)" if "build_append_entries t nx (node s i) = Some req" for req
    using built_request [OF that match_nodeD [OF inv(1) i]] match_msgD [OF inv(1) t] by auto
  with eff m RunBuild show ?thesis by (auto dest!: set_swap_msgs split: option.splits)
next
  case (DeliverSnap i j req c)
  with en match_msgD [OF inv(1), of "SnapReq i j req"] show ?thesis by simp
qed (use eff m in \<open>auto simp: cluster_defs Let_def split: prod.splits ticker.splits if_splits dest: remove1_subset\<close>)

text \<open>A restart reads the log back.\<close>

lemma restart_log:
  assumes "wf_log (rn_log n)" and "wf_state (rn_state n)" and "log_path (rn_log n) \<noteq> state_path (rn_state n)"
  shows "rn_log (restart c n) = rn_log n"
  using assms parse_encode_log [OF assms(1)]
  by (auto simp: restart_def RaftNode_def disk_of_def open_state_def open_log_def decode_encode_state new_state_def
      Let_def split: prod.splits)

lemma restart_moves_to:
  assumes "node_match W i n" and "wf_state (rn_state n)"
  shows "moves_to n (restart c n)" "rn_log (restart c n) = rn_log n"
proof -
  show log: "rn_log (restart c n) = rn_log n"
    by (rule restart_log) (use assms node_match_wf [OF assms(1)] in \<open>auto simp: node_match_def\<close>)
  show "moves_to n (restart c n)" by (simp add: moves_to_def log restart_frame [OF assms(2)])
qed

definition reigns_after :: "action \<Rightarrow> cluster \<Rightarrow> cluster \<Rightarrow> reigns \<Rightarrow> reigns" where
  "reigns_after a s s' W = (case event_of a s of None \<Rightarrow> W | Some (i, ev) \<Rightarrow> crown i (node s' i) W)"

lemma effect_ballots:
  assumes "effect a s = Returns s'"
  shows "set (ballots s) \<subseteq> set (ballots s')" "(\<And>i c. a \<noteq> BeginElection i c) \<Longrightarrow> (\<And>i j r c. a \<noteq> DeliverVote i j r c) \<Longrightarrow> ballots s' = ballots s"
  using assms by (cases a; auto simp: cluster_defs Let_def split: prod.splits ticker.splits if_splits option.splits)+


lemma match_step:
  assumes inv: "match_inv cfg W s" "cluster_inv cfg s" and cfg: "config_ok cfg" and en: "enabled cfg a s"
    and unc: "uncompacted a s" and eff: "effect a s = Returns s'"
  shows "match_inv cfg (reigns_after a s s' W) s' \<and> extends W (reigns_after a s s' W)"
proof -
  have inv': "cluster_inv cfg s'" by (rule inv_step) fact+
  note bs = effect_ballots(1) [OF eff] and ms = new_messages [OF eff en _ inv]
  consider (ev) i ev where "event_of a s = Some (i, ev)" | (restart) i c where "a = Restart i c"
    | (none) "event_of a s = None" "\<And>i c. a \<noteq> Restart i c"
    by (metis not_None_eq prod.exhaust)
  then show ?thesis
  proof cases
    case ev
    let ?n = "node s i" and ?n' = "node s' i"
    have i: "i \<in> ids cfg" and ok: "event_ok ev ?n" using event_of_ok [OF inv(2) en ev] by blast+
    have ex: "exec ev ?n = Returns ?n'" and upd: "node s' = (node s)(i := ?n')" using effect_node [OF eff ev] by blast+
    have no_compact: "ev \<noteq> Compact k data" for k data using ev unc by (auto simp: event_of_iff)
    have no_snap: "ev \<noteq> InstallSnapshot c isq" for c isq
      using ev en match_msgD [OF inv(1)] by (fastforce simp: event_of_iff)
    have mv: "moves_to ?n ?n'" by (rule exec_moves_to) fact+
    have W': "reigns_after a s s' W = crown i ?n' W" using ev by (simp add: reigns_after_def)
    have ext: "extends W (crown i ?n' W)" by (rule moves_extends [OF inv(1) inv' i mv bs])
    have req: "\<exists>b L. W (ae_term rq) = Some (b, L) \<and> good_log W (ae_term rq) L \<and> (piece_of rq L \<or> empty_piece rq)"
      if "ev = AppendEntries c rq" for c rq
    proof -
      have "\<exists>k. EntriesReq k i rq \<in> set (msgs s)" using ev en that by (auto simp: event_of_iff)
      then obtain k where "msg_match W (EntriesReq k i rq)" using match_msgD [OF inv(1)] by blast
      then show ?thesis using match_reignD [OF inv(1)] by (auto simp: reign_ok_def)
    qed
    have size: "length cmd < 2 ^ 32 \<and> length (log_of ?n) + 1 < 2 ^ 64" if "ev = Propose cmd" for cmd
      using ev unc that by (auto simp: event_of_iff)
    have wf: "wf_state (rn_state ?n)" using inv_nodeD(1) [OF inv(2) i] by (simp add: node_inv_def)
    have le: "cur_term ?n \<le> cur_term ?n'" using mv by (simp add: moves_to_def)
    note log = exec_good_log [OF ex no_compact no_snap match_nodeD [OF inv(1) i] wf le refl ext size req]
    have "match_inv cfg (crown i ?n' W) s'"
      by (rule match_move [OF inv(1) inv' i mv upd bs refl ext log])
         (use ms ext msg_match_extends in blast)+
    with ext show ?thesis by (simp add: W')
  next
    case restart
    let ?n = "node s i"
    have i: "i \<in> ids cfg" using en restart by simp
    have wf: "wf_state (rn_state ?n)" using inv_nodeD(1) [OF inv(2) i] by (simp add: node_inv_def)
    note r = restart_moves_to [OF match_nodeD [OF inv(1) i] wf]
    have "match_inv cfg W s'"
    proof (rule match_move [OF inv(1) inv' i r(1) _ bs])
      show "node s' = (node s)(i := restart c ?n)" using eff restart by (auto simp: cluster_defs)
      show "W = crown i (restart c ?n) W" by (simp add: crown_def restart_frame [OF wf])
    qed (use ms match_nodeD [OF inv(1) i] in \<open>auto simp: r(2) restart_frame [OF wf] node_match_def\<close>)
    with restart show ?thesis by (simp add: reigns_after_def)
  next
    case none
    have "node s' = node s" by (rule effect_no_node [OF eff none])
    moreover have "majority_of (ids cfg) {j \<in> ids cfg. (j, t, b) \<in> set (ballots s')}"
      if "majority_of (ids cfg) {j \<in> ids cfg. (j, t, b) \<in> set (ballots s)}" for t b
      by (rule majority_of_mono [OF that]) (use bs in auto)
    moreover have "msg_match W m" if "m \<in> set (msgs s')" for m using ms [OF that] match_msgD [OF inv(1)] by blast
    ultimately have "match_inv cfg W s'" using inv(1) by (auto simp: match_inv_def reign_ok_def)
    with none show ?thesis by (simp add: reigns_after_def)
  qed
qed

lemma match_init: "match_inv cfg Map.empty (cluster_init cfg cl)"
  by (auto simp: match_inv_def cluster_init_def node_match_def RaftNode_def open_state_def open_log_def new_log_def
      persist_state_def new_state_def persist_log_def write_file_def Let_def)

section \<open>Runs under a restriction\<close>

text \<open>Reachability by actions that satisfy a condition, and its executable counterpart.\<close>

inductive reachable_by :: "raft_peer list \<Rightarrow> (action \<Rightarrow> cluster \<Rightarrow> bool) \<Rightarrow> cluster \<Rightarrow> bool" for cfg I where
  init: "reachable_by cfg I (cluster_init cfg cl)"
| step: "reachable_by cfg I s \<Longrightarrow> enabled cfg a s \<Longrightarrow> I a s \<Longrightarrow> effect a s = Returns s' \<Longrightarrow> reachable_by cfg I s'"

fun run_by :: "raft_peer list \<Rightarrow> (action \<Rightarrow> cluster \<Rightarrow> bool) \<Rightarrow> action list \<Rightarrow> cluster \<Rightarrow> cluster option" where
  "run_by cfg I [] s = Some s"
| "run_by cfg I (a # as) s =
     (if enabled cfg a s \<and> I a s
      then (case effect a s of Returns s' \<Rightarrow> run_by cfg I as s' | Undefined \<Rightarrow> None) else None)"

lemma run_by_reachable: "run_by cfg I as s = Some s' \<Longrightarrow> reachable_by cfg I s \<Longrightarrow> reachable_by cfg I s'"
  by (induction cfg I as s rule: run_by.induct) (auto split: if_splits outcome.splits intro: reachable_by.step)

lemma reachable_by_reachable: "reachable_by cfg I s \<Longrightarrow> reachable cfg s"
  by (induction rule: reachable_by.induct) (auto intro: reachable.intros cluster_step.act)

lemma reachable_match:
  assumes "reachable_by cfg uncompacted s" and cfg: "config_ok cfg"
  shows "\<exists>W. match_inv cfg W s"
  using assms(1)
proof (induction rule: reachable_by.induct)
  case (init cl)
  show ?case using match_init by blast
next
  case (step s a s')
  have "cluster_inv cfg s" using reachable_inv [OF reachable_by_reachable [OF step.hyps(1)] cfg] .
  with step cfg show ?case using match_step by blast
qed

lemma sample_reachable_by:
  "run_by sample_peers I acts sample_cluster = Some s \<Longrightarrow> reachable_by sample_peers I s"
  by (erule run_by_reachable) (simp add: sample_cluster_def reachable_by.init)

section \<open>Log matching\<close>

lemma commit_run_logs:
  "map_option (\<lambda>s. (log_of (node s 0), log_of (node s 1)))
     (run_by sample_peers uncompacted (elect_run @ commit_run) sample_cluster) =
   Some ([\<lparr>entry_term = 1, command = ''a''\<rparr>, \<lparr>entry_term = 1, command = ''b''\<rparr>],
         [\<lparr>entry_term = 1, command = ''a''\<rparr>, \<lparr>entry_term = 1, command = ''b''\<rparr>])"
  by (simp add: elect_run_def commit_run_def run_simps replication_simps new_log_def)

text \<open>
  C5: the log matching property.  In every state the cluster reaches without compacting a
  log, whatever was delayed, reordered or lost and whichever nodes restarted, two logs that
  hold an entry of the same term at the same index hold the same entries at every index up
  to it.
\<close>

theorem log_matching:
  assumes "config_ok cfg" and "reachable_by cfg uncompacted s" and "i \<in> ids cfg" and "j \<in> ids cfg"
    and "entry_at (rn_log (node s i)) k = Some e" and "entry_at (rn_log (node s j)) k = Some f"
    and "entry_term e = entry_term f"
  shows "\<forall>m \<le> k. entry_at (rn_log (node s i)) m = entry_at (rn_log (node s j)) m"
proof -
  let ?es = "log_of (node s i)" and ?fs = "log_of (node s j)"
  obtain W where W: "match_inv cfg W s" using reachable_match [OF assms(2,1)] by blast
  have snap: "snapshot_last_index (rn_log (node s i)) = 0" "snapshot_last_index (rn_log (node s j)) = 0"
    and fo: "follows W ?es" "follows W ?fs"
    using match_nodeD [OF W assms(3)] match_nodeD [OF W assms(4)] by (simp_all add: node_match_def good_log_def)
  from assms(5,6) snap have k: "0 < k" "k - 1 < length ?es" "k - 1 < length ?fs" "e = ?es ! (k - 1)" "f = ?fs ! (k - 1)"
    by (auto simp: entry_at_def split: if_splits)
  with follows_match [OF fo k(2,3)] assms(7) have "take k ?es = take k ?fs" by simp
  then have "?es ! (m - 1) = ?fs ! (m - 1)" if "0 < m" "m \<le> k" for m
    using that by (metis One_nat_def Suc_pred less_eq_Suc_le nth_take)
  with snap k show ?thesis by (auto simp: entry_at_def)
qed

theorem log_matching_witness:
  "\<exists>s. run_by sample_peers uncompacted (elect_run @ commit_run) sample_cluster = Some s \<and>
     entry_at (rn_log (node s 0)) 2 = Some \<lparr>entry_term = 1, command = ''b''\<rparr> \<and>
     entry_at (rn_log (node s 0)) 1 = entry_at (rn_log (node s 1)) 1"
proof -
  obtain s where s: "run_by sample_peers uncompacted (elect_run @ commit_run) sample_cluster = Some s"
    and l: "log_of (node s 0) = [\<lparr>entry_term = 1, command = ''a''\<rparr>, \<lparr>entry_term = 1, command = ''b''\<rparr>]"
      "log_of (node s 1) = [\<lparr>entry_term = 1, command = ''a''\<rparr>, \<lparr>entry_term = 1, command = ''b''\<rparr>]"
    using commit_run_logs by auto
  have i: "(0::int) \<in> ids sample_peers" "(1::int) \<in> ids sample_peers" by (simp_all add: sample_peers_def)
  note r = sample_reachable_by [OF s]
  obtain W where W: "match_inv sample_peers W s" using reachable_match [OF r sample_config_ok] by blast
  have snap: "snapshot_last_index (rn_log (node s 0)) = 0" "snapshot_last_index (rn_log (node s 1)) = 0"
    using match_nodeD [OF W i(1)] match_nodeD [OF W i(2)] by (simp_all add: node_match_def)
  have e: "entry_at (rn_log (node s 0)) 2 = Some \<lparr>entry_term = 1, command = ''b''\<rparr>"
    "entry_at (rn_log (node s 1)) 2 = Some \<lparr>entry_term = 1, command = ''b''\<rparr>"
    using l snap by (simp_all add: entry_at_def)
  with log_matching [OF sample_config_ok r i e] s show ?thesis by simp
qed

end
