(* ===== verification/Raft_History.thy ===== *)
theory Raft_History
  imports Raft_Matching
begin

text \<open>
  History variables for the safety of the replicated state machine: the log of the leader of
  every term, what every node has acknowledged, and the log every ballot was cast with.
  This theory has the runs the safety theorems are about, what it means for an entry to be
  committed, the proof that a later leader starts with every committed entry, and the
  invariant that ties the history to the state of the cluster.
\<close>

section \<open>The runs\<close>

text \<open>
  The request ends before the log does, and agrees with the log at every index it covers:
  \<open>truncate_and_append\<close> cuts off the rest although nothing is in conflict.
\<close>

definition cuts_agreeing :: "append_entries_request \<Rightarrow> raft_log \<Rightarrow> bool" where
  "cuts_agreeing req l \<longleftrightarrow> (let p = prev_log_index req; k = length (ae_entries req) in
     0 < k \<and> p + k < length (entries l) \<and>
     (\<forall>j < k. entry_term (entries l ! (p + j)) = le_term (ae_entries req ! j)))"

fun orderly :: "action \<Rightarrow> cluster \<Rightarrow> bool" where
  "orderly (DeliverEntries i j req c) s \<longleftrightarrow>
     \<not> (success (fst (handle_append_entries c req (node s j))) \<and> cuts_agreeing req (rn_log (node s j)))"
| "orderly a s \<longleftrightarrow> uncompacted a s"

lemma orderly_uncompacted: "orderly a s \<Longrightarrow> uncompacted a s"
  by (cases a) auto

section \<open>History\<close>

text \<open>
  \<open>acks\<close>: node, term and index up to which the node has acknowledged the log of the leader
  of the term; the leader acknowledges its own.  \<open>polled\<close>: a ballot with the voter's log.
\<close>

type_synonym acks = "(int \<times> nat \<times> nat) set"

record history =
  reigns_of :: reigns
  acks_of :: acks
  polled :: "((int \<times> nat \<times> int) \<times> persisted_entry list) set"

definition new_acks :: "action \<Rightarrow> cluster \<Rightarrow> cluster \<Rightarrow> acks" where
  "new_acks a s s' =
     (case event_of a s of
        None \<Rightarrow> {}
      | Some (i, ev) \<Rightarrow>
          (if role (node s' i) = Leader then {(i, cur_term (node s' i), length (log_of (node s' i)))} else {}) \<union>
          (case ev of
             AppendEntries c req \<Rightarrow>
               if success (fst (handle_append_entries c req (node s i)))
               then {(i, ae_term req, prev_log_index req + length (ae_entries req))} else {}
           | _ \<Rightarrow> {}))"

definition new_polls :: "cluster \<Rightarrow> cluster \<Rightarrow> ((int \<times> nat \<times> int) \<times> persisted_entry list) set" where
  "new_polls s s' = (if ballots s' = ballots s then {}
     else {(hd (ballots s'), log_of (node s' (fst (hd (ballots s')))))})"

definition history_after :: "action \<Rightarrow> cluster \<Rightarrow> cluster \<Rightarrow> history \<Rightarrow> history" where
  "history_after a s s' h = \<lparr>reigns_of = reigns_after a s s' (reigns_of h),
     acks_of = acks_of h \<union> new_acks a s s', polled = polled h \<union> new_polls s s'\<rparr>"

section \<open>Committed entries\<close>

definition reign_log :: "reigns \<Rightarrow> nat \<Rightarrow> persisted_entry list" where
  "reign_log W t = (case W t of None \<Rightarrow> [] | Some (a, L) \<Rightarrow> L)"

lemma reign_log_simps [simp]:
  "W t = None \<Longrightarrow> reign_log W t = []" "W t = Some (a, L) \<Longrightarrow> reign_log W t = L"
  by (simp_all add: reign_log_def)

text \<open>The log a leader started its term with.\<close>

definition base :: "nat \<Rightarrow> persisted_entry list \<Rightarrow> persisted_entry list" where
  "base t L = takeWhile (\<lambda>e. entry_term e < t) L"

text \<open>The leader of term \<open>t'\<close> started without the first \<open>k\<close> entries of the leader of \<open>t\<close>.\<close>

definition lost :: "reigns \<Rightarrow> nat \<Rightarrow> nat \<Rightarrow> nat \<Rightarrow> bool" where
  "lost W t k t' \<longleftrightarrow> W t' \<noteq> None \<and> \<not> prefix (take k (reign_log W t)) (base t' (reign_log W t'))"

definition ack_kept :: "reigns \<Rightarrow> (int \<Rightarrow> raft_node) \<Rightarrow> int \<Rightarrow> nat \<Rightarrow> nat \<Rightarrow> bool" where
  "ack_kept W nd p t m \<longleftrightarrow> t \<le> cur_term (nd p) \<and> W t \<noteq> None \<and> m \<le> length (reign_log W t) \<and>
     (\<forall>k \<le> m. prefix (take k (reign_log W t)) (log_of (nd p)) \<or>
        (\<exists>t'. t < t' \<and> t' \<le> cur_term (nd p) \<and> lost W t k t'))"

text \<open>What a node had acknowledged before term \<open>T\<close> is in its log \<open>es\<close>, unless a leader before \<open>T\<close> lacked it.\<close>

definition kept_at :: "reigns \<Rightarrow> acks \<Rightarrow> int \<Rightarrow> nat \<Rightarrow> persisted_entry list \<Rightarrow> bool" where
  "kept_at W A p T es \<longleftrightarrow> (\<forall>t m k. (p, t, m) \<in> A \<longrightarrow> t < T \<longrightarrow> k \<le> m \<longrightarrow>
     prefix (take k (reign_log W t)) es \<or> (\<exists>t'. t < t' \<and> t' < T \<and> lost W t k t'))"

definition final_term :: "persisted_entry list \<Rightarrow> nat" where
  "final_term es = (if es = [] then 0 else entry_term (last es))"

definition at_least :: "persisted_entry list \<Rightarrow> persisted_entry list \<Rightarrow> bool" where
  "at_least B es \<longleftrightarrow> final_term es < final_term B \<or> (final_term es = final_term B \<and> length es \<le> length B)"

text \<open>Why the leader of term \<open>T\<close> was elected: a majority whose logs were not ahead of its own.\<close>

definition elected :: "raft_peer list \<Rightarrow> reigns \<Rightarrow> acks \<Rightarrow> (int \<Rightarrow> raft_node) \<Rightarrow> nat \<Rightarrow> persisted_entry list \<Rightarrow> bool" where
  "elected cfg W A nd T B \<longleftrightarrow> (\<exists>Q. majority_of (ids cfg) Q \<and> (\<forall>p \<in> Q. T \<le> cur_term (nd p) \<and>
     (\<exists>es. good_log W T es \<and> at_least B es \<and> kept_at W A p T es)))"

definition committed :: "raft_peer list \<Rightarrow> reigns \<Rightarrow> acks \<Rightarrow> nat \<Rightarrow> nat \<Rightarrow> bool" where
  "committed cfg W A t k \<longleftrightarrow> 0 < k \<and> k \<le> length (reign_log W t) \<and> entry_term (reign_log W t ! (k - 1)) = t \<and>
     (\<exists>Q. majority_of (ids cfg) Q \<and> (\<forall>p \<in> Q. \<exists>m \<ge> k. (p, t, m) \<in> A))"

section \<open>Leader completeness\<close>

lemma base_prefix: "prefix (base t L) L"
  by (simp add: base_def takeWhile_is_prefix)

lemma final_term_ge:
  assumes "sorted (map entry_term es)" and "k < length es"
  shows "entry_term (es ! k) \<le> final_term es"
proof -
  have "map entry_term es ! k \<le> map entry_term es ! (length es - 1)"
    by (rule sorted_nth_mono) (use assms in auto)
  with assms(2) show ?thesis by (auto simp: final_term_def last_conv_nth)
qed

lemma follows_last:
  assumes "follows W es" and "es \<noteq> []"
  obtains a L where "W (final_term es) = Some (a, L)" and "prefix es L"
  using assms unfolding follows_def
  by (auto simp: final_term_def last_conv_nth dest: spec [of _ "length es - 1"])

lemma prefix_both: "prefix xs zs \<Longrightarrow> prefix ys zs \<Longrightarrow> length xs \<le> length ys \<Longrightarrow> prefix xs ys"
  by (metis prefix_length_prefix)

text \<open>A log that ends in term \<open>u\<close> includes everything the leader of \<open>u\<close> started with.\<close>

lemma base_of_last:
  assumes "B \<noteq> []" and "prefix B L" and "final_term B = u"
  shows "prefix (base u L) B"
proof (rule prefix_both [OF base_prefix assms(2)])
  have "L ! (length B - 1) = last B"
    using assms(1,2) by (auto simp: prefix_def nth_append last_conv_nth)
  then have "\<not> entry_term (L ! (length B - 1)) < u" using assms(1,3) by (simp add: final_term_def)
  then have "\<not> length B - 1 < length (base u L)"
    unfolding base_def by (metis (no_types, lifting) nth_mem set_takeWhileD takeWhile_nth)
  then show "length (base u L) \<le> length B" using assms(1) by (cases B) auto
qed

text \<open>
  The heart of the matter: the leader of a later term started with every committed entry.
  A voter that acknowledged the entry voted for it; by induction no leader in between
  lacked the entry, so the voter still had it, and the winner's log was not behind.
\<close>

lemma leader_complete:
  assumes el: "\<And>T a L. W T = Some (a, L) \<Longrightarrow> elected cfg W A nd T (base T L) \<and> follows W L"
    and com: "committed cfg W A t k"
  shows "t < T \<Longrightarrow> W T = Some (b, L) \<Longrightarrow> prefix (take k (reign_log W t)) (base T L)"
proof (induction T arbitrary: b L rule: less_induct)
  case (less T)
  let ?X = "take k (reign_log W t)" and ?B = "base T L"
  obtain Q where Q: "majority_of (ids cfg) Q" "\<And>p. p \<in> Q \<Longrightarrow> \<exists>es. good_log W T es \<and> at_least ?B es \<and> kept_at W A p T es"
    using el [OF less.prems(2)] unfolding elected_def by blast
  obtain R where R: "majority_of (ids cfg) R" "\<And>p. p \<in> R \<Longrightarrow> \<exists>m \<ge> k. (p, t, m) \<in> A"
    using com unfolding committed_def by blast
  obtain p where p: "p \<in> Q" "p \<in> R" using maj.quorums_meet [OF Q(1) R(1)] by blast
  obtain es where es: "good_log W T es" "at_least ?B es" "kept_at W A p T es" using Q(2) [OF p(1)] by blast
  obtain m where m: "k \<le> m" "(p, t, m) \<in> A" using R(2) [OF p(2)] by blast
  have "\<not> lost W t k t'" if "t < t'" "t' < T" for t'
    using less.IH [OF that(2,1)] by (auto simp: lost_def reign_log_def)
  with es(3) m less.prems(1) have X: "prefix ?X es" unfolding kept_at_def by blast
  have k: "0 < k" "k \<le> length (reign_log W t)" "entry_term (reign_log W t ! (k - 1)) = t"
    using com by (simp_all add: committed_def)
  then have len: "k \<le> length es" "es ! (k - 1) = reign_log W t ! (k - 1)"
    using X by (auto simp: prefix_def nth_append)
  then have ge: "t \<le> final_term es"
    using final_term_ge [of es "k - 1"] es(1) k by (auto simp: good_log_def terms_upto_def)
  have ne: "es \<noteq> []" using len k by auto
  have fB: "follows W ?B" using el [OF less.prems(2)] follows_prefix base_prefix by blast
  show ?case
  proof (cases "final_term es < final_term ?B")
    case True
    then have B: "?B \<noteq> []" by (auto simp: final_term_def)
    obtain a L' where L': "W (final_term ?B) = Some (a, L')" "prefix ?B L'" using follows_last [OF fB B] .
    have "last ?B \<in> set ?B" using B by simp
    then have "entry_term (last ?B) < T" unfolding base_def by (rule set_takeWhileD [THEN conjunct2])
    then have "final_term ?B < T" using B by (simp add: final_term_def)
    then have "prefix ?X (base (final_term ?B) L')" using less.IH L'(1) ge True by simp
    also have "prefix (base (final_term ?B) L') ?B" using base_of_last [OF B L'(2) refl] .
    finally show ?thesis .
  next
    case False
    with es(2) have eq: "final_term es = final_term ?B" "length es \<le> length ?B" by (auto simp: at_least_def)
    then have B: "?B \<noteq> []" using ne by auto
    obtain a L' where L': "W (final_term es) = Some (a, L')" "prefix es L'"
      using follows_last [of W es] es(1) ne by (auto simp: good_log_def)
    obtain a' L'' where "W (final_term ?B) = Some (a', L'')" "prefix ?B L''" using follows_last [OF fB B] .
    with L' eq have "prefix es ?B" by (auto intro: prefix_both)
    with X show ?thesis by (rule prefix_order.trans)
  qed
qed

section \<open>What a longer history keeps\<close>

text \<open>A leader's log only grows by entries of its own term.\<close>

definition grows :: "reigns \<Rightarrow> reigns \<Rightarrow> bool" where
  "grows W W' \<longleftrightarrow> (\<forall>t a L. W t = Some (a, L) \<longrightarrow>
     (\<exists>M. W' t = Some (a, L @ M) \<and> (\<forall>e \<in> set M. entry_term e = t)))"

lemma grows_refl [simp]: "grows W W"
  by (auto simp: grows_def)

lemma grows_extends: "grows W W' \<Longrightarrow> extends W W'"
  unfolding grows_def extends_def by (meson prefixI)

lemma grows_None: "grows W W' \<Longrightarrow> W' t = None \<Longrightarrow> W t = None"
  unfolding grows_def by (metis not_None_eq option.distinct(1) prod.exhaust)

lemma grows_log:
  assumes "grows W W'" and "W t \<noteq> None"
  obtains M where "reign_log W' t = reign_log W t @ M" and "\<forall>e \<in> set M. entry_term e = t" and "W' t \<noteq> None"
proof -
  obtain a L where L: "W t = Some (a, L)" using assms(2) by auto
  then obtain M where "W' t = Some (a, L @ M)" "\<forall>e \<in> set M. entry_term e = t"
    using assms(1) unfolding grows_def by blast
  with L show thesis by (intro that [of M]) auto
qed

lemma grows_take:
  "grows W W' \<Longrightarrow> W t \<noteq> None \<Longrightarrow> k \<le> length (reign_log W t) \<Longrightarrow> take k (reign_log W' t) = take k (reign_log W t)"
  by (erule grows_log) auto

lemma base_append: "\<forall>e \<in> set M. entry_term e = t \<Longrightarrow> base t (L @ M) = base t L"
  unfolding base_def by (induction L) (auto simp: takeWhile_eq_Nil_iff)

lemma grows_base: "grows W W' \<Longrightarrow> W t \<noteq> None \<Longrightarrow> base t (reign_log W' t) = base t (reign_log W t)"
  by (erule grows_log) (auto simp: base_append)

lemma lost_grows:
  assumes "lost W t k t'" and "grows W W'" and "W t \<noteq> None" and "k \<le> length (reign_log W t)"
  shows "lost W' t k t'"
proof -
  have t': "W t' \<noteq> None" using assms(1) by (simp add: lost_def)
  have "W' t' \<noteq> None"
  proof
    assume "W' t' = None"
    from grows_None [OF assms(2) this] t' show False by contradiction
  qed
  with assms(1) show ?thesis
    unfolding lost_def grows_take [OF assms(2-4)] grows_base [OF assms(2) t'] by blast
qed

lemma ack_kept_grows:
  assumes "ack_kept W nd p t m" and g: "grows W W'" and le: "cur_term (nd p) \<le> cur_term (nd' p)"
    and log: "\<And>k. k \<le> m \<Longrightarrow> prefix (take k (reign_log W t)) (log_of (nd p)) \<Longrightarrow>
      prefix (take k (reign_log W t)) (log_of (nd' p)) \<or> (t < cur_term (nd' p) \<and> lost W' t k (cur_term (nd' p)))"
  shows "ack_kept W' nd' p t m"
proof -
  have t: "t \<le> cur_term (nd p)" "W t \<noteq> None" "m \<le> length (reign_log W t)" using assms(1) by (auto simp: ack_kept_def)
  obtain M where M: "reign_log W' t = reign_log W t @ M" "W' t \<noteq> None" using grows_log [OF g t(2)] .
  have "prefix (take k (reign_log W' t)) (log_of (nd' p)) \<or> (\<exists>t'. t < t' \<and> t' \<le> cur_term (nd' p) \<and> lost W' t k t')"
    if k: "k \<le> m" for k
  proof -
    have le_k: "k \<le> length (reign_log W t)" using k t by simp
    from assms(1) k consider "prefix (take k (reign_log W t)) (log_of (nd p))"
      | t' where "t < t'" "t' \<le> cur_term (nd p)" "lost W t k t'"
      unfolding ack_kept_def by blast
    then show ?thesis
    proof cases
      case 1
      with log [OF k] show ?thesis unfolding grows_take [OF g t(2) le_k] by blast
    next
      case 2
      with lost_grows [OF 2(3) g t(2) le_k] le show ?thesis by (meson le_trans)
    qed
  qed
  with t M le show ?thesis by (simp add: ack_kept_def)
qed

text \<open>New acknowledgements are of the node's current term, so they say nothing about an earlier one.\<close>

lemma kept_at_grows:
  assumes "kept_at W A p T es" and g: "grows W W'"
    and A': "\<And>t m. (p, t, m) \<in> A' \<Longrightarrow> (p, t, m) \<in> A \<or> T \<le> t"
    and ok: "\<And>t m. (p, t, m) \<in> A \<Longrightarrow> W t \<noteq> None \<and> m \<le> length (reign_log W t)"
  shows "kept_at W' A' p T es"
  unfolding kept_at_def
proof (intro allI impI)
  fix t m k assume "(p, t, m) \<in> A'" "t < T" "k \<le> m"
  then have m: "(p, t, m) \<in> A" "t < T" "k \<le> m" using A' by force+
  with ok [OF m(1)] have t: "W t \<noteq> None" "k \<le> length (reign_log W t)" by auto
  from assms(1) m have "prefix (take k (reign_log W t)) es \<or> (\<exists>t'. t < t' \<and> t' < T \<and> lost W t k t')"
    by (simp add: kept_at_def)
  then show "prefix (take k (reign_log W' t)) es \<or> (\<exists>t'. t < t' \<and> t' < T \<and> lost W' t k t')"
    unfolding grows_take [OF g t] using lost_grows [OF _ g t] by blast
qed

lemma committed_grows:
  assumes "committed cfg W A t k" and g: "grows W W'" and sub: "A \<subseteq> A'"
  shows "committed cfg W' A' t k"
proof -
  have k: "0 < k" "k \<le> length (reign_log W t)" "entry_term (reign_log W t ! (k - 1)) = t"
    and Q: "\<exists>Q. majority_of (ids cfg) Q \<and> (\<forall>p \<in> Q. \<exists>m \<ge> k. (p, t, m) \<in> A)"
    using assms(1) by (simp_all add: committed_def)
  have "W t \<noteq> None" using k by (cases "W t") simp_all
  then obtain M where "reign_log W' t = reign_log W t @ M" using grows_log [OF g] by blast
  with k Q sub show ?thesis unfolding committed_def by (fastforce simp: nth_append)
qed

lemma committed_reign: "committed cfg W A t k \<Longrightarrow> W t \<noteq> None"
  by (cases "W t") (auto simp: committed_def)

lemma elected_grows:
  assumes "elected cfg W A nd T B" and g: "grows W W'" and le: "\<And>p. cur_term (nd p) \<le> cur_term (nd' p)"
    and A': "\<And>p t m. (p, t, m) \<in> A' \<Longrightarrow> (p, t, m) \<in> A \<or> cur_term (nd p) \<le> t"
    and ok: "\<And>p t m. (p, t, m) \<in> A \<Longrightarrow> W t \<noteq> None \<and> m \<le> length (reign_log W t)"
  shows "elected cfg W' A' nd' T B"
proof -
  obtain Q where Q: "majority_of (ids cfg) Q" and all: "\<And>p. p \<in> Q \<Longrightarrow> T \<le> cur_term (nd p) \<and>
      (\<exists>es. good_log W T es \<and> at_least B es \<and> kept_at W A p T es)"
    using assms(1) unfolding elected_def by blast
  have "T \<le> cur_term (nd' p) \<and> (\<exists>es. good_log W' T es \<and> at_least B es \<and> kept_at W' A' p T es)" if "p \<in> Q" for p
  proof -
    obtain es where es: "good_log W T es" "at_least B es" "kept_at W A p T es" and T: "T \<le> cur_term (nd p)"
      using all [OF \<open>p \<in> Q\<close>] by blast
    have "kept_at W' A' p T es" by (rule kept_at_grows [OF es(3) g]) (use A' ok T in fastforce)+
    with es T le show ?thesis using good_log_extends [OF es(1) grows_extends [OF g]] by (meson le_trans order_refl)
  qed
  with Q show ?thesis unfolding elected_def by blast
qed

section \<open>The invariant\<close>

definition commit_upto :: "raft_peer list \<Rightarrow> reigns \<Rightarrow> acks \<Rightarrow> nat \<Rightarrow> nat \<Rightarrow> bool" where
  "commit_upto cfg W A T c \<longleftrightarrow> c = 0 \<or> (\<exists>t k. committed cfg W A t k \<and> t \<le> T \<and> c \<le> k)"

text \<open>A node in term \<open>T\<close> with log \<open>es\<close> may commit up to \<open>c\<close>.\<close>

definition may_commit :: "raft_peer list \<Rightarrow> reigns \<Rightarrow> acks \<Rightarrow> nat \<Rightarrow> persisted_entry list \<Rightarrow> nat \<Rightarrow> bool" where
  "may_commit cfg W A T es c \<longleftrightarrow> c \<le> length es \<and> (c = 0 \<or>
     (\<exists>t k. committed cfg W A t k \<and> t \<le> T \<and> c \<le> k \<and> take c es = take c (reign_log W t)))"

definition applied_ok :: "raft_node \<Rightarrow> bool" where
  "applied_ok n \<longleftrightarrow> last_applied n = commit_index n \<and>
     applied_commands n = filter (\<lambda>cmd. cmd \<noteq> '''') (map command (take (commit_index n) (log_of n)))"

definition match_ok :: "acks \<Rightarrow> int \<Rightarrow> raft_node \<Rightarrow> bool" where
  "match_ok A i n \<longleftrightarrow> (i, cur_term n, length (log_of n)) \<in> A \<and>
     (\<forall>x \<in> set (match_index n). snd x = 0 \<or> (fst x, cur_term n, snd x) \<in> A)"

definition node_safe :: "raft_peer list \<Rightarrow> reigns \<Rightarrow> acks \<Rightarrow> int \<Rightarrow> raft_node \<Rightarrow> bool" where
  "node_safe cfg W A i n \<longleftrightarrow> may_commit cfg W A (cur_term n) (log_of n) (commit_index n) \<and> applied_ok n \<and>
     (role n = Leader \<longrightarrow> match_ok A i n)"

definition poll_ok :: "reigns \<Rightarrow> acks \<Rightarrow> (int \<Rightarrow> raft_node) \<Rightarrow> int \<times> nat \<times> int \<Rightarrow> persisted_entry list \<Rightarrow> bool" where
  "poll_ok W A nd b es = (case b of (p, T, c) \<Rightarrow> T \<le> cur_term (nd p) \<and> T \<le> cur_term (nd c) \<and> good_log W T es \<and>
     (cur_term (nd c) = T \<and> role (nd c) = Candidate \<longrightarrow> at_least (log_of (nd c)) es) \<and>
     (W T = None \<longrightarrow> kept_at W A p T es))"

fun msg_safe :: "raft_peer list \<Rightarrow> reigns \<Rightarrow> acks \<Rightarrow> (int \<Rightarrow> raft_node) \<Rightarrow> message \<Rightarrow> bool" where
  "msg_safe cfg W A nd (VoteReq c p req) \<longleftrightarrow> c \<noteq> p \<and> rv_term req \<le> cur_term (nd c) \<and>
     (cur_term (nd c) = rv_term req \<and> role (nd c) = Candidate \<longrightarrow>
        rv_last_log_index req = length (log_of (nd c)) \<and> rv_last_log_term req = final_term (log_of (nd c)))"
| "msg_safe cfg W A nd (EntriesReq i j req) \<longleftrightarrow> commit_upto cfg W A (ae_term req) (leader_commit req) \<and>
     (empty_piece req \<or> leader_commit req \<le> prev_log_index req + length (ae_entries req))"
| "msg_safe cfg W A nd (EntriesResp j i t prev sent resp) \<longleftrightarrow> (success resp \<longrightarrow> (j, t, prev + sent) \<in> A)"
| "msg_safe cfg W A nd _ \<longleftrightarrow> True"

definition safe_inv :: "raft_peer list \<Rightarrow> history \<Rightarrow> cluster \<Rightarrow> bool" where
  "safe_inv cfg h s \<longleftrightarrow> (let W = reigns_of h; A = acks_of h; nd = node s in
     (\<forall>p t m. (p, t, m) \<in> A \<longrightarrow> ack_kept W nd p t m) \<and>
     (\<forall>b es. (b, es) \<in> polled h \<longrightarrow> poll_ok W A nd b es) \<and>
     (\<forall>b \<in> set (ballots s). \<exists>es. (b, es) \<in> polled h) \<and>
     (\<forall>T b L. W T = Some (b, L) \<longrightarrow> elected cfg W A nd T (base T L)) \<and>
     (\<forall>i \<in> ids cfg. node_safe cfg W A i (nd i)) \<and>
     (\<forall>m \<in> set (msgs s). msg_safe cfg W A nd m))"

lemma safe_invD:
  assumes "safe_inv cfg h s"
  shows "(p, t, m) \<in> acks_of h \<Longrightarrow> ack_kept (reigns_of h) (node s) p t m"
    and "(b, es) \<in> polled h \<Longrightarrow> poll_ok (reigns_of h) (acks_of h) (node s) b es"
    and "b \<in> set (ballots s) \<Longrightarrow> \<exists>es. (b, es) \<in> polled h"
    and "reigns_of h T = Some (a, L) \<Longrightarrow> elected cfg (reigns_of h) (acks_of h) (node s) T (base T L)"
    and "i \<in> ids cfg \<Longrightarrow> node_safe cfg (reigns_of h) (acks_of h) i (node s i)"
    and "msg \<in> set (msgs s) \<Longrightarrow> msg_safe cfg (reigns_of h) (acks_of h) (node s) msg"
  using assms unfolding safe_inv_def Let_def by blast+

lemma safe_complete:
  assumes "safe_inv cfg h s" and "match_inv cfg (reigns_of h) s" and "committed cfg (reigns_of h) (acks_of h) t k"
    and "t \<le> T" and "reigns_of h T = Some (a, L)" and "c \<le> k"
  shows "take c L = take c (reign_log (reigns_of h) t)"
proof (cases "t = T")
  case False
  have "prefix (take k (reign_log (reigns_of h) t)) (base T L)"
  proof (rule leader_complete [OF _ assms(3) _ assms(5)])
    show "elected cfg (reigns_of h) (acks_of h) (node s) T (base T L) \<and> follows (reigns_of h) L"
      if "reigns_of h T = Some (a, L)" for T a L
      using safe_invD(4) [OF assms(1) that] match_reignD [OF assms(2) that] by (simp add: reign_ok_def good_log_def)
  qed (use assms(4) False in simp)
  then have "prefix (take k (reign_log (reigns_of h) t)) L" using base_prefix prefix_order.trans by blast
  then obtain M where "L = take k (reign_log (reigns_of h) t) @ M" by (auto simp: prefix_def)
  moreover have "k \<le> length (reign_log (reigns_of h) t)" using assms(3) by (simp add: committed_def)
  ultimately show ?thesis using assms(6) by (simp add: min_absorb1)
qed (use assms(5) in simp)

lemma crown_grows:
  assumes inv: "match_inv cfg W s" and i: "i \<in> ids cfg" and ex: "exec ev (node s i) = Returns n'"
    "\<And>k data. ev \<noteq> Compact k data" "\<And>c isq. ev \<noteq> InstallSnapshot c isq"
    and ext: "extends W (crown i n' W)"
  shows "grows W (crown i n' W)"
  unfolding grows_def
proof (intro allI impI)
  let ?n = "node s i"
  fix t a L assume t: "W t = Some (a, L)"
  show "\<exists>M. crown i n' W t = Some (a, L @ M) \<and> (\<forall>e \<in> set M. entry_term e = t)"
  proof (cases "role n' = Leader \<and> t = cur_term n'")
    case True
    then have l: "cur_term n' = cur_term ?n" "role ?n = Leader \<or> role ?n = Candidate" using exec_leader [OF ex(1)] by auto
    from extendsD [OF ext t] True have a: "a = i" by (auto simp: crown_def)
    have lead: "role ?n = Leader"
      using match_reignD [OF inv t] l True by (auto simp: reign_ok_def a)
    then have "W (cur_term ?n) = Some (i, log_of ?n)" using match_nodeD [OF inv i] by (simp add: node_match_def)
    with t True l have L: "L = log_of ?n" by auto
    from ex have "\<exists>M. log_of n' = log_of ?n @ M \<and> (\<forall>e \<in> set M. entry_term e = cur_term ?n)"
      by (rule exec_log) (use True in \<open>auto simp: stores_def\<close>)
    with True a L l show ?thesis by (auto simp: crown_def)
  qed (use t in \<open>auto simp: crown_def\<close>)
qed

end
