(* ===== verification/Raft_Steps.thy ===== *)
theory Raft_Steps
  imports Raft_History
begin

text \<open>
  Every action of an orderly run keeps the invariant of \<open>Raft_History\<close>: acknowledgements,
  ballots, elections, commit points with the applied commands, and messages, each with the
  lemmas on the critical section that touches it.
\<close>

section \<open>One event of one node\<close>

definition acts :: "raft_peer list \<Rightarrow> history \<Rightarrow> action \<Rightarrow> cluster \<Rightarrow> cluster \<Rightarrow> int \<Rightarrow> node_event \<Rightarrow> bool" where
  "acts cfg h a s s' i ev \<longleftrightarrow> config_ok cfg \<and> cluster_inv cfg s \<and> match_inv cfg (reigns_of h) s \<and> safe_inv cfg h s \<and>
     enabled cfg a s \<and> orderly a s \<and> effect a s = Returns s' \<and> event_of a s = Some (i, ev)"

lemma actsD:
  assumes "acts cfg h a s s' i ev"
  shows "i \<in> ids cfg" "exec ev (node s i) = Returns (node s' i)" "node s' = (node s)(i := node s' i)"
    "ev \<noteq> Compact k data" "ev \<noteq> InstallSnapshot c isq" "event_ok ev (node s i)" "moves_to (node s i) (node s' i)"
    "reigns_after a s s' (reigns_of h) = crown i (node s' i) (reigns_of h)"
    "grows (reigns_of h) (reigns_after a s s' (reigns_of h))"
    "match_inv cfg (reigns_after a s s' (reigns_of h)) s'" "cluster_inv cfg s'"
proof -
  let ?W = "reigns_of h"
  have inv: "cluster_inv cfg s" "match_inv cfg ?W s" and cfg: "config_ok cfg" and en: "enabled cfg a s"
    and o: "orderly a s" and eff: "effect a s = Returns s'" and ev: "event_of a s = Some (i, ev)"
    using assms by (simp_all add: acts_def)
  show i: "i \<in> ids cfg" and ok: "event_ok ev (node s i)" using event_of_ok [OF inv(1) en ev] by blast+
  show ex: "exec ev (node s i) = Returns (node s' i)" and "node s' = (node s)(i := node s' i)"
    using effect_node [OF eff ev] by blast+
  have unc: "uncompacted a s" using o by (rule orderly_uncompacted)
  have nc: "ev \<noteq> Compact k data" for k data using ev unc by (auto simp: event_of_iff)
  have ns: "ev \<noteq> InstallSnapshot c isq" for c isq
    using ev en match_msgD [OF inv(2)] by (fastforce simp: event_of_iff)
  show "ev \<noteq> Compact k data" "ev \<noteq> InstallSnapshot c isq" by (fact nc ns)+
  show "moves_to (node s i) (node s' i)" by (rule exec_moves_to) fact+
  show W': "reigns_after a s s' ?W = crown i (node s' i) ?W" using ev by (simp add: reigns_after_def)
  from match_step [OF inv(2,1) cfg en unc eff]
  show "match_inv cfg (reigns_after a s s' ?W) s'" and "grows ?W (reigns_after a s s' ?W)"
    using crown_grows [OF inv(2) i ex nc ns] unfolding W' by blast+
  show "cluster_inv cfg s'" by (rule inv_step) fact+
qed

lemma append_success:
  "success (fst (handle_append_entries c req n)) \<longleftrightarrow> cur_term n \<le> ae_term req \<and> \<not> prev_mismatch req (rn_log n)"
  by (auto simp: handle_append_entries_def Let_def)

lemma append_not_success:
  "\<not> success (fst (handle_append_entries c req n)) \<Longrightarrow> rn_log (snd (handle_append_entries c req n)) = rn_log n \<and>
     commit_index (snd (handle_append_entries c req n)) = commit_index n \<and>
     last_applied (snd (handle_append_entries c req n)) = last_applied n \<and>
     applied_commands (snd (handle_append_entries c req n)) = applied_commands n"
  by (auto simp: handle_append_entries_def Let_def)

text \<open>An accepted request leaves the follower with the leader's log up to where the request ends.\<close>

lemma accepted:
  assumes ac: "acts cfg h a s s' i (AppendEntries c req)"
    and ok: "success (fst (handle_append_entries c req (node s i)))"
  obtains b L where "reigns_of h (ae_term req) = Some (b, L)" "piece_of req L" "cur_term (node s' i) = ae_term req"
    "prefix (take (prev_log_index req + length (ae_entries req)) L) (log_of (node s' i))"
    "ae_entries req \<noteq> [] \<longrightarrow> log_of (node s' i) = take (prev_log_index req + length (ae_entries req)) L"
    "ae_entries req = [] \<longrightarrow> log_of (node s' i) = log_of (node s i)"
    "leader_commit req \<le> prev_log_index req + length (ae_entries req)"
    "commit_upto cfg (reigns_of h) (acks_of h) (ae_term req) (leader_commit req)"
    "\<not> cuts_agreeing req (rn_log (node s i))" "role (node s' i) = Follower"
proof -
  let ?W = "reigns_of h" and ?n = "node s i" and ?n' = "node s' i"
  have inv: "match_inv cfg ?W s" "safe_inv cfg h s" and i: "i \<in> ids cfg"
    using ac actsD(1) [OF ac] by (simp_all add: acts_def)
  obtain k where a: "a = DeliverEntries k i req c" using ac by (auto simp: acts_def event_of_iff)
  then have m: "EntriesReq k i req \<in> set (msgs s)" using ac by (simp add: acts_def)
  obtain b L where L: "?W (ae_term req) = Some (b, L)" "piece_of req L \<or> empty_piece req"
    using match_msgD [OF inv(1) m] by auto
  have good: "good_log ?W (ae_term req) L" using match_reignD [OF inv(1) L(1)] by (simp add: reign_ok_def)
  have n: "snapshot_last_index (rn_log ?n) = 0" "follows ?W (log_of ?n)" "sized (log_of ?n)"
    and last: "last_index (rn_log ?n) = length (log_of ?n)"
    using match_nodeD [OF inv(1) i] node_match_last by (auto simp: node_match_def good_log_def)
  have acc: "cur_term ?n \<le> ae_term req" "\<not> prev_mismatch req (rn_log ?n)" using ok by (simp_all add: append_success)
  have not_empty: "\<not> empty_piece req"
  proof
    assume "empty_piece req"
    with acc(2) n(1) last have p: "prev_log_index req - 1 < length (log_of ?n)"
      "entry_term (log_of ?n ! (prev_log_index req - 1)) = 0"
      by (auto simp: empty_piece_def prev_mismatch_def has_real_entry_at_def term_at_def)
    then obtain b L where "?W 0 = Some (b, L)" using n(2) unfolding follows_def by metis
    from match_reignD [OF inv(1) this] show False by (simp add: reign_ok_def)
  qed
  with L have piece: "piece_of req L" by blast
  have n': "?n' = snd (handle_append_entries c req ?n)" using actsD(2) [OF ac] by simp
  have stored: "log_of ?n' = take (prev_log_index req + length (ae_entries req)) L" if "ae_entries req \<noteq> []"
    using stored_log [OF n(2) _ _ piece n(1) refl n(3) acc(2)] good acc that
    by (auto simp: n' good_log_def handle_append_entries_def store_entries_def Let_def)
  have kept: "log_of ?n' = log_of ?n" if "ae_entries req = []"
    using acc that by (auto simp: n' handle_append_entries_def store_entries_def Let_def)
  have pre: "prefix (take (prev_log_index req + length (ae_entries req)) L) (log_of ?n')"
  proof (cases "ae_entries req = []")
    case True
    with agrees_at_prev [OF n(2) _ piece n(1) refl n(3) acc(2)] good kept
    show ?thesis by (auto simp: good_log_def take_is_prefix simp flip: take_map) (metis take_is_prefix)
  qed (simp add: stored)
  have o: "\<not> cuts_agreeing req (rn_log ?n)" using ac ok by (simp add: acts_def a)
  from safe_invD(6) [OF inv(2) m] not_empty
  have lc: "leader_commit req \<le> prev_log_index req + length (ae_entries req)"
    "commit_upto cfg ?W (acks_of h) (ae_term req) (leader_commit req)" by simp_all
  have r: "cur_term ?n' = ae_term req" "role ?n' = Follower"
    using acc by (auto simp: n' handle_append_entries_def Let_def)
  show thesis by (rule that [OF L(1) piece r(1) pre _ _ lc o r(2)]) (use stored kept in blast)+
qed

text \<open>
  What both the log and the leader's log start with survives, because the request does
  not cut off agreeing entries.
\<close>

lemma survives_store:
  assumes "prefix X es" and "prefix X L" and "piece_of req L" and "ae_entries req \<noteq> []"
    and "\<not> cuts_agreeing req l" and "entries l = es"
  shows "prefix X (take (prev_log_index req + length (ae_entries req)) L)"
proof -
  let ?p = "prev_log_index req" and ?k = "length (ae_entries req)"
  have "length X \<le> ?p + ?k"
  proof (cases "length es \<le> ?p + ?k")
    case True
    then show ?thesis using prefix_length_le [OF assms(1)] by simp
  next
    case False
    then obtain j where j: "j < ?k" "entry_term (es ! (?p + j)) \<noteq> le_term (ae_entries req ! j)"
      using assms(4-6) by (auto simp: cuts_agreeing_def Let_def)
    have "map to_persisted (ae_entries req) ! j = take ?k (drop ?p L) ! j" using assms(3) by (simp add: piece_of_def)
    then have "entry_term (to_persisted (ae_entries req ! j)) = entry_term (L ! (?p + j))"
      using j(1) assms(3) by (simp add: piece_of_def)
    then have "le_term (ae_entries req ! j) = entry_term (L ! (?p + j))" by (simp add: to_persisted_def)
    with j(2) have "\<not> ?p + j < length X" using assms(1,2) by (auto simp: prefix_def nth_append)
    with j(1) show ?thesis by simp
  qed
  moreover have "?p + ?k \<le> length L" using assms(3) by (simp add: piece_of_def)
  ultimately show ?thesis using assms(2) by (auto intro!: prefix_both [OF assms(2)] simp: take_is_prefix)
qed

lemma old_ack:
  assumes ac: "acts cfg h a s s' i ev" and A: "(p, t, m) \<in> acks_of h"
  shows "ack_kept (reigns_after a s s' (reigns_of h)) (node s') p t m"
proof (rule ack_kept_grows)
  let ?W = "reigns_of h" and ?W' = "reigns_after a s s' (reigns_of h)" and ?n = "node s i" and ?n' = "node s' i"
  have inv: "safe_inv cfg h s" using ac by (simp add: acts_def)
  show ok: "ack_kept ?W (node s) p t m" using safe_invD(1) [OF inv A] .
  show g: "grows ?W ?W'" by (rule actsD(9) [OF ac])
  note upd = actsD(3) [OF ac] and mv = actsD(7) [OF ac]
  have le: "cur_term ?n \<le> cur_term ?n'" using mv by (simp add: moves_to_def)
  show "cur_term (node s p) \<le> cur_term (node s' p)" using le upd by (metis fun_upd_def order_refl)
  fix k assume k: "k \<le> m" and pre: "prefix (take k (reign_log ?W t)) (log_of (node s p))"
  have t: "t \<le> cur_term (node s p)" "?W t \<noteq> None" "k \<le> length (reign_log ?W t)" using ok k by (auto simp: ack_kept_def)
  show "prefix (take k (reign_log ?W t)) (log_of (node s' p)) \<or>
      (t < cur_term (node s' p) \<and> lost ?W' t k (cur_term (node s' p)))"
  proof (cases "p = i")
    case False
    then have "node s' p = node s p" using upd by (metis fun_upd_def)
    with pre show ?thesis by simp
  next
    case True
    show ?thesis
    proof (rule exec_log [OF actsD(2,4,5) [OF ac]])
      assume "rn_log ?n' = rn_log ?n"
      with pre True show ?thesis by simp
    next
      fix cmd assume "rn_log ?n' = append_log (cur_term ?n) cmd (rn_log ?n)"
      with pre True show ?thesis by (simp add: prefix_append)
    next
      fix c req assume st: "ev = AppendEntries c req" "stores req ?n ?n'"
      have ok: "success (fst (handle_append_entries c req ?n))" using st(2) by (simp add: append_success stores_def)
      obtain b L where L: "?W (ae_term req) = Some (b, L)" "piece_of req L" "cur_term ?n' = ae_term req"
        "log_of ?n' = take (prev_log_index req + length (ae_entries req)) L" "\<not> cuts_agreeing req (rn_log ?n)"
        using accepted [OF ac [unfolded st(1)] ok] st(2) by (metis stores_def)
      have ne: "ae_entries req \<noteq> []" using st(2) by (simp add: stores_def)
      note keep = survives_store [OF pre [unfolded True] _ L(2) ne L(5) refl]
      show ?thesis
      proof (cases "prefix (take k (reign_log ?W t)) L")
        case True': True
        with keep L(4) True show ?thesis by simp
      next
        case False
        then have neq: "t \<noteq> ae_term req" using L(1) by (auto simp: take_is_prefix)
        have "lost ?W t k (ae_term req)" using False L(1) base_prefix prefix_order.trans by (fastforce simp: lost_def)
        from lost_grows [OF this g t(2,3)] show ?thesis using neq t(1) le L(3) True by simp
      qed
    qed
  qed
qed

lemma new_ack:
  assumes ac: "acts cfg h a s s' i ev" and A: "(p, t, m) \<in> new_acks a s s'"
  shows "p = i" "t = cur_term (node s' i)" "ack_kept (reigns_after a s s' (reigns_of h)) (node s') p t m"
proof -
  let ?W = "reigns_of h" and ?W' = "reigns_after a s s' (reigns_of h)" and ?n' = "node s' i"
  have ev: "event_of a s = Some (i, ev)" using ac by (simp add: acts_def)
  have g: "grows ?W ?W'" by (rule actsD(9) [OF ac])
  consider (lead) "p = i" "role ?n' = Leader" "t = cur_term ?n'" "m = length (log_of ?n')"
    | (acc) c req where "p = i" "ev = AppendEntries c req" "success (fst (handle_append_entries c req (node s i)))"
        "t = ae_term req" "m = prev_log_index req + length (ae_entries req)"
    using A ev by (auto simp: new_acks_def split: if_splits node_event.splits)
  then have "p = i \<and> t = cur_term ?n' \<and> ack_kept ?W' (node s') p t m"
  proof cases
    case lead
    then have "?W' t = Some (i, log_of ?n')" by (simp add: actsD(8) [OF ac] crown_def)
    with lead show ?thesis by (auto simp: ack_kept_def take_is_prefix)
  next
    case acc
    obtain b L where L: "?W (ae_term req) = Some (b, L)" "piece_of req L" "cur_term ?n' = ae_term req"
      "prefix (take m L) (log_of ?n')"
      using accepted [OF ac [unfolded acc(2)] acc(3)] acc(5) by metis
    have m: "m \<le> length L" using L(2) acc(5) by (simp add: piece_of_def)
    have "?W t \<noteq> None" and rl: "reign_log ?W t = L" using L(1) acc(4) by simp_all
    from grows_log [OF g this(1)] obtain M where M: "reign_log ?W' t = L @ M" "?W' t \<noteq> None" unfolding rl .
    have "prefix (take k (L @ M)) (log_of ?n')" if "k \<le> m" for k
    proof -
      have "take k (L @ M) = take k (take m L)" using that m by (simp add: min_absorb1)
      with L(4) show ?thesis using take_is_prefix [of k "take m L"] prefix_order.trans by metis
    qed
    with acc M m L(3) show ?thesis by (simp add: ack_kept_def)
  qed
  then show "p = i" "t = cur_term ?n'" "ack_kept ?W' (node s') p t m" by blast+
qed

lemma step_acks:
  assumes "acts cfg h a s s' i ev" and "(p, t, m) \<in> acks_of (history_after a s s' h)"
  shows "ack_kept (reigns_after a s s' (reigns_of h)) (node s') p t m"
  using assms old_ack new_ack(3) by (auto simp: history_after_def)

lemma acts_term_mono: "acts cfg h a s s' i ev \<Longrightarrow> cur_term (node s p) \<le> cur_term (node s' p)"
  using actsD(3,7) [of cfg h a s s' i ev] unfolding moves_to_def by (metis fun_upd_def order_refl)

lemma acts_new_ack_term:
  assumes "acts cfg h a s s' i ev" and "(p, t, m) \<in> acks_of (history_after a s s' h)"
  shows "(p, t, m) \<in> acks_of h \<or> cur_term (node s p) \<le> t"
  using assms new_ack(1,2) [OF assms(1)] acts_term_mono [OF assms(1)] by (fastforce simp: history_after_def)

lemma acts_ack_reign:
  assumes "acts cfg h a s s' i ev" and "(p, t, m) \<in> acks_of h"
  shows "reigns_of h t \<noteq> None \<and> m \<le> length (reign_log (reigns_of h) t)"
  using safe_invD(1) [OF _ assms(2), of cfg s] assms(1) by (simp add: acts_def ack_kept_def)

lemma candidate_log:
  assumes "exec ev n = Returns n'" and "\<And>k data. ev \<noteq> Compact k data" and "\<And>c isq. ev \<noteq> InstallSnapshot c isq"
    and "role n' = Candidate" and "role n = Candidate"
  shows "rn_log n' = rn_log n"
  using assms(1-3) by (rule exec_log) (use assms(4,5) in \<open>auto simp: stores_def\<close>)

lemma old_poll:
  assumes ac: "acts cfg h a s s' i ev" and P: "(b, es) \<in> polled h"
  shows "poll_ok (reigns_after a s s' (reigns_of h)) (acks_of (history_after a s s' h)) (node s') b es"
proof -
  let ?W = "reigns_of h" and ?W' = "reigns_after a s s' (reigns_of h)" and ?A' = "acks_of (history_after a s s' h)"
  obtain p T c where b: "b = (p, T, c)" by (cases b)
  have "poll_ok ?W (acks_of h) (node s) b es" using ac safe_invD(2) [OF _ P] by (auto simp: acts_def)
  then have old: "T \<le> cur_term (node s p)" "T \<le> cur_term (node s c)" "good_log ?W T es"
    "cur_term (node s c) = T \<and> role (node s c) = Candidate \<longrightarrow> at_least (log_of (node s c)) es"
    "?W T = None \<longrightarrow> kept_at ?W (acks_of h) p T es"
    by (simp_all add: poll_ok_def b)
  note g = actsD(9) [OF ac] and upd = actsD(3) [OF ac] and mv = actsD(7) [OF ac] and mono = acts_term_mono [OF ac]
  have "at_least (log_of (node s' c)) es" if cand: "cur_term (node s' c) = T" "role (node s' c) = Candidate"
  proof (cases "c = i")
    case True
    have same: "role (node s i) = Candidate" "cur_term (node s i) = T"
      using mv cand old(2) unfolding moves_to_def True by linarith+
    have "rn_log (node s' i) = rn_log (node s i)"
      by (rule candidate_log [OF actsD(2,4,5) [OF ac] _ same(1)]) (use cand True in simp)
    with old(4) same True show ?thesis by simp
  next
    case False
    then have "node s' c = node s c" using upd by (metis fun_upd_def)
    with cand old(4) show ?thesis by simp
  qed
  moreover have "kept_at ?W' ?A' p T es" if "?W' T = None"
  proof (rule kept_at_grows [OF _ g])
    show "kept_at ?W (acks_of h) p T es" using old(5) grows_None [OF g that] by blast
    show "(p, t, m) \<in> acks_of h \<or> T \<le> t" if "(p, t, m) \<in> ?A'" for t m
      using acts_new_ack_term [OF ac that] old(1) by auto
  qed (use acts_ack_reign [OF ac] in blast)
  moreover have "good_log ?W' T es" by (rule good_log_extends [OF old(3) grows_extends [OF g]]) simp
  ultimately show ?thesis using old(1,2) mono [of p] mono [of c] by (auto simp: poll_ok_def b)
qed

lemma kept_now:
  assumes ac: "acts cfg h a s s' i ev" and "reigns_after a s s' (reigns_of h) (cur_term (node s' i)) = None"
  shows "kept_at (reigns_after a s s' (reigns_of h)) (acks_of (history_after a s s' h)) i (cur_term (node s' i)) (log_of (node s' i))"
  unfolding kept_at_def
proof (intro allI impI)
  let ?W' = "reigns_after a s s' (reigns_of h)" and ?T = "cur_term (node s' i)"
  fix t m k assume A: "(i, t, m) \<in> acks_of (history_after a s s' h)" and k: "k \<le> m"
  from step_acks [OF ac A] k
  have "prefix (take k (reign_log ?W' t)) (log_of (node s' i)) \<or> (\<exists>t'. t < t' \<and> t' \<le> ?T \<and> lost ?W' t k t')"
    by (simp add: ack_kept_def)
  moreover have "t' \<noteq> ?T" if "lost ?W' t k t'" for t' using that assms(2) by (auto simp: lost_def)
  ultimately show "prefix (take k (reign_log ?W' t)) (log_of (node s' i)) \<or> (\<exists>t'. t < t' \<and> t' < ?T \<and> lost ?W' t k t')"
    by (meson le_neq_implies_less)
qed

lemma new_ballot:
  assumes ac: "acts cfg h a s s' i ev" and "ballots s' \<noteq> ballots s"
  obtains (stand) c where "ev = ElectionBegin c" "ballots s' = (i, cur_term (node s' i), i) # ballots s"
      "role (node s' i) = Candidate"
    | (grant) k rv c where "a = DeliverVote k i rv c" "vote_granted (fst (handle_request_vote c rv (node s i)))"
      "ballots s' = (i, rv_term rv, k) # ballots s" "rv_term rv = cur_term (node s' i)"
      "rn_log (node s' i) = rn_log (node s i)"
proof (cases a)
  case (BeginElection k c)
  with ac stand [of c] show thesis
    by (auto simp: acts_def election_begin_def cluster_defs Let_def)
next
  case (DeliverVote k j rv c)
  have a: "enabled cfg a s" "effect a s = Returns s'" "event_of a s = Some (i, ev)" "cluster_inv cfg s"
    using ac by (simp_all add: acts_def)
  have j: "j = i" using a(3) DeliverVote by simp
  have m: "candidate_id rv = k" using inv_msgD [OF a(4), of "VoteReq k j rv"] a(1) DeliverVote by simp
  obtain resp n' where r: "handle_request_vote c rv (node s i) = (resp, n')" by (metis prod.exhaust)
  have gr: "vote_granted resp" using a(2) assms(2) DeliverVote j r by (auto simp: cluster_defs Let_def split: if_splits)
  have s': "ballots s' = (i, rv_term rv, k) # ballots s" "node s' i = n'"
    using a(2) DeliverVote j r gr m by (auto simp: cluster_defs Let_def)
  have "rn_log n' = rn_log (node s i)" using r by (auto simp: handle_request_vote_def Let_def split: if_splits)
  moreover have "rv_term rv = cur_term n'" using granted_ballot(1) [OF r gr] by (rule sym)
  ultimately show thesis using r gr s' DeliverVote unfolding j by (intro grant [of k rv c]) simp_all
qed (use ac assms(2) effect_ballots(2) [of a s s'] in \<open>auto simp: acts_def\<close>)

lemma granted_at_least:
  assumes "vote_granted (fst (handle_request_vote c rv n))" and "node_match W i n"
    and "rv_last_log_index rv = length B" and "rv_last_log_term rv = final_term B"
  shows "at_least B (log_of n)"
proof -
  have "rv_last_log_term rv > last_term (rn_log n) \<or>
      (rv_last_log_term rv = last_term (rn_log n) \<and> rv_last_log_index rv \<ge> last_index (rn_log n))"
    using assms(1) by (auto simp: handle_request_vote_def Let_def split: if_splits)
  moreover have "last_term (rn_log n) = final_term (log_of n)" "last_index (rn_log n) = length (log_of n)"
    using node_match_last [OF assms(2)] assms(2) by (simp_all add: last_term_def final_term_def node_match_def)
  ultimately show ?thesis using assms(3,4) by (auto simp: at_least_def)
qed

lemma new_poll:
  assumes ac: "acts cfg h a s s' i ev" and P: "(b, es) \<in> new_polls s s'"
  shows "poll_ok (reigns_after a s s' (reigns_of h)) (acks_of (history_after a s s' h)) (node s') b es"
proof -
  let ?W' = "reigns_after a s s' (reigns_of h)" and ?n' = "node s' i"
  have neq: "ballots s' \<noteq> ballots s" and bes: "b = hd (ballots s')" "es = log_of (node s' (fst b))"
    using P by (auto simp: new_polls_def split: if_splits)
  have good: "good_log ?W' (cur_term ?n') (log_of ?n')"
    using match_nodeD [OF actsD(10,1) [OF ac]] by (simp add: node_match_def)
  from ac neq show ?thesis
  proof (cases rule: new_ballot)
    case stand
    with good kept_now [OF ac] show ?thesis by (simp add: bes poll_ok_def at_least_def)
  next
    case (grant k rv c)
    have b: "b = (i, cur_term ?n', k)" "es = log_of ?n'" using grant(3,4) by (simp_all add: bes)
    have m: "VoteReq k i rv \<in> set (msgs s)" and i: "i \<in> ids cfg" and inv: "safe_inv cfg h s" "match_inv cfg (reigns_of h) s"
      using ac grant(1) actsD(1) [OF ac] by (simp_all add: acts_def)
    have req: "k \<noteq> i" "rv_term rv \<le> cur_term (node s k)" "cur_term (node s k) = rv_term rv \<and> role (node s k) = Candidate \<longrightarrow>
        rv_last_log_index rv = length (log_of (node s k)) \<and> rv_last_log_term rv = final_term (log_of (node s k))"
      using safe_invD(6) [OF inv(1) m] by auto
    have k: "node s' k = node s k" using actsD(3) [OF ac] req(1) by (metis fun_upd_def)
    have "at_least (log_of (node s k)) (log_of (node s i))" if "cur_term (node s k) = rv_term rv" "role (node s k) = Candidate"
      using granted_at_least [OF grant(2) match_nodeD [OF inv(2) i]] req(3) that by blast
    with good kept_now [OF ac] req(2) grant(4,5) show ?thesis by (simp add: poll_ok_def b k)
  qed
qed

lemma step_polls:
  assumes "acts cfg h a s s' i ev" and "(b, es) \<in> polled (history_after a s s' h)"
  shows "poll_ok (reigns_after a s s' (reigns_of h)) (acks_of (history_after a s s' h)) (node s') b es"
proof -
  from assms(2) consider "(b, es) \<in> polled h" | "(b, es) \<in> new_polls s s'" by (auto simp: history_after_def)
  then show ?thesis using old_poll [OF assms(1)] new_poll [OF assms(1)] by cases blast+
qed

lemma step_ballots:
  assumes ac: "acts cfg h a s s' i ev" and b: "b \<in> set (ballots s')"
  shows "\<exists>es. (b, es) \<in> polled (history_after a s s' h)"
proof (cases "b \<in> set (ballots s)")
  case True
  then show ?thesis using ac safe_invD(3) [of cfg h s b] by (auto simp: acts_def history_after_def)
next
  case False
  then have neq: "ballots s' \<noteq> ballots s" using b by metis
  from ac neq have "b = hd (ballots s')" by (cases rule: new_ballot) (use b False in auto)
  with neq show ?thesis by (auto simp: history_after_def new_polls_def)
qed

lemma base_all: "\<forall>e \<in> set L. entry_term e < t \<Longrightarrow> base t L = L"
  by (simp add: base_def)

lemma step_elected:
  assumes ac: "acts cfg h a s s' i ev" and T: "reigns_after a s s' (reigns_of h) T = Some (b, L)"
  shows "elected cfg (reigns_after a s s' (reigns_of h)) (acks_of (history_after a s s' h)) (node s') T (base T L)"
proof -
  let ?W = "reigns_of h" and ?n = "node s i" and ?n' = "node s' i"
  have inv: "safe_inv cfg h s" "match_inv cfg ?W s" and i: "i \<in> ids cfg"
    using ac actsD(1) [OF ac] by (simp_all add: acts_def)
  note g = actsD(9) [OF ac]
  have "elected cfg ?W (acks_of h) (node s) T (base T L)"
  proof (cases "?W T")
    case (Some r)
    then obtain b' L0 where W: "?W T = Some (b', L0)" by (cases r) auto
    with grows_base [OF g, of T] T have "base T L = base T L0" by simp
    with safe_invD(4) [OF inv(1) W] show ?thesis by simp
  next
    case None
    with T have new: "role ?n' = Leader" "T = cur_term ?n'" "L = log_of ?n'"
      by (auto simp: actsD(8) [OF ac] crown_def split: if_splits)
    from exec_leader [OF actsD(2) [OF ac] new(1)] have t: "cur_term ?n = T" using new(2) by simp
    have n: "node_match ?W i ?n" using match_nodeD [OF inv(2) i] .
    have "role ?n \<noteq> Leader" using n None t by (auto simp: node_match_def)
    with exec_leader [OF actsD(2) [OF ac] new(1)] obtain c e gr
      where fin: "ev = ElectionFinish c e gr" "role ?n = Candidate" "rn_log ?n' = rn_log ?n" by blast
    have bs: "ballots s' = ballots s"
      using ac fin(1) effect_ballots(2) [of a s s'] by (auto simp: acts_def event_of_iff)
    have Q: "majority_of (ids cfg) {j \<in> ids cfg. (j, T, i) \<in> set (ballots s)}"
      using inv_nodeD(2) [OF actsD(11) [OF ac] i] new bs by (simp add: leader_ok_def)
    have "T \<le> cur_term (node s p) \<and> (\<exists>es. good_log ?W T es \<and> at_least (log_of ?n) es \<and> kept_at ?W (acks_of h) p T es)"
      if bal: "(p, T, i) \<in> set (ballots s)" for p
    proof -
      obtain es where "((p, T, i), es) \<in> polled h" using safe_invD(3) [OF inv(1) bal] by blast
      from safe_invD(2) [OF inv(1) this] show ?thesis using fin(2) t None by (auto simp: poll_ok_def)
    qed
    with Q have el: "elected cfg ?W (acks_of h) (node s) T (log_of ?n)" unfolding elected_def by blast
    have "entry_term e < T" if e: "e \<in> set (log_of ?n)" for e
    proof -
      obtain k where k: "k < length (log_of ?n)" "e = log_of ?n ! k" using e unfolding in_set_conv_nth by blast
      have "follows ?W (log_of ?n)" "entry_term e \<le> T" using n t e by (auto simp: node_match_def good_log_def terms_upto_def)
      then have "?W (entry_term e) \<noteq> None" using k unfolding follows_def by auto
      with None \<open>entry_term e \<le> T\<close> show ?thesis by (metis le_neq_implies_less)
    qed
    with el new(3) fin(3) show ?thesis by (simp add: base_all)
  qed
  then show ?thesis
    by (rule elected_grows [OF _ g acts_term_mono [OF ac]]) (use acts_new_ack_term [OF ac] acts_ack_reign [OF ac] in blast)+
qed

section \<open>Committing and applying\<close>

lemma may_commitI:
  "committed cfg W A t k \<Longrightarrow> t \<le> T \<Longrightarrow> c \<le> k \<Longrightarrow> take c es = take c (reign_log W t) \<Longrightarrow> c \<le> length es \<Longrightarrow>
   may_commit cfg W A T es c"
  by (auto simp: may_commit_def)

lemma may_commit_grows:
  assumes "may_commit cfg W A T es c" and "grows W W'" and "A \<subseteq> A'" and "T \<le> T'"
    and "take c es' = take c es" and "c \<le> length es'"
  shows "may_commit cfg W' A' T' es' c"
proof (cases "c = 0")
  case False
  then obtain t k where t: "committed cfg W A t k" "t \<le> T" "c \<le> k" "take c es = take c (reign_log W t)"
    using assms(1) by (auto simp: may_commit_def)
  have "k \<le> length (reign_log W t)" "W t \<noteq> None" using t(1) committed_reign [OF t(1)] by (simp_all add: committed_def)
  then have "take c (reign_log W' t) = take c (reign_log W t)" using t(3) by (intro grows_take [OF assms(2)]) simp_all
  moreover have "committed cfg W' A' t k" using t(1) assms(2,3) by (rule committed_grows)
  ultimately show ?thesis using t assms(4-6) unfolding may_commit_def by (metis le_trans)
qed (simp add: may_commit_def)

lemma commands_between:
  assumes "snapshot_last_index l = 0" and "last_index l = length (entries l)" and "b \<le> length (entries l)"
  shows "map (command_at l) [Suc a..<Suc b] = map command (drop a (take b (entries l)))"
proof (rule nth_equalityI)
  show "length (map (command_at l) [Suc a..<Suc b]) = length (map command (drop a (take b (entries l))))"
    using assms(3) by (simp add: min_absorb2 del: upt_Suc)
next
  fix k assume "k < length (map (command_at l) [Suc a..<Suc b])"
  then have "a + k < b" by (simp del: upt_Suc)
  then show "map (command_at l) [Suc a..<Suc b] ! k = map command (drop a (take b (entries l))) ! k"
    using assms by (simp add: command_at_def del: upt_Suc)
qed

text \<open>Moving the commit index up and applying keeps the applied commands in step.\<close>

lemma apply_keeps:
  assumes "applied_ok n" and "snapshot_last_index (rn_log n) = 0" and "last_index (rn_log n) = length (log_of n)"
    and "commit_index n \<le> c" and "c \<le> length (log_of n)"
  shows "applied_ok (apply_committed_entries_locked (n\<lparr>commit_index := c\<rparr>))"
proof -
  have "take (commit_index n) (log_of n) @ drop (commit_index n) (take c (log_of n)) = take c (log_of n)"
    using assms(4) by (metis append_take_drop_id min.absorb1 take_take)
  then have "filter (\<lambda>cmd. cmd \<noteq> '''') (map command (take (commit_index n) (log_of n))) @
      filter (\<lambda>cmd. cmd \<noteq> '''') (map command (drop (commit_index n) (take c (log_of n)))) =
      filter (\<lambda>cmd. cmd \<noteq> '''') (map command (take c (log_of n)))"
    by (metis filter_append map_append)
  with assms commands_between [OF assms(2,3,5), of "commit_index n"] show ?thesis
    by (simp add: applied_ok_def apply_committed_closed del: upt_Suc)
qed

text \<open>The match indices a leader counts, and its own last index, are acknowledgements of a majority.\<close>

lemma counted_majority:
  assumes "majority (length cfg) \<le> length (filter (\<lambda>x. N \<le> x) (ll # map snd m))"
    and "distinct (i # map fst m)" and "set (i # map fst m) \<subseteq> ids cfg" and "distinct (map node_id cfg)"
  shows "majority_of (ids cfg) (fst ` set (filter (\<lambda>x. N \<le> snd x) ((i, ll) # m)))"
proof -
  let ?F = "filter (\<lambda>x. N \<le> snd x) ((i, ll) # m)"
  have "length (filter (\<lambda>x. N \<le> x) (map snd ((i, ll) # m))) = length ?F"
    by (subst filter_map) (simp only: length_map comp_def)
  moreover have "distinct (map fst ((i, ll) # m))" using assms(2) by simp
  then have "distinct (map fst ?F)" by (rule distinct_map_filter)
  then have "card (fst ` set ?F) = length ?F" by (metis distinct_card length_map list.set_map)
  moreover have "fst ` set ?F \<subseteq> ids cfg" using assms(3) by auto
  moreover have "card (ids cfg) = length cfg" using assms(4) distinct_card by fastforce
  ultimately show ?thesis using assms(1) by (simp add: majority_of_def)
qed

lemma advance_keeps:
  assumes adv: "advance_commit_index_locked n = Returns n'"
    and W: "W (cur_term n) = Some (i, log_of n)" and pos: "0 < cur_term n" and mt: "match_ok A i n"
    and may: "may_commit cfg W A (cur_term n) (log_of n) (commit_index n)" and ap: "applied_ok n"
    and log: "snapshot_last_index (rn_log n) = 0" "last_index (rn_log n) = length (log_of n)"
    and cfg: "peers n = cfg" "self_id n = i" "i \<in> ids cfg" "distinct (map node_id cfg)"
    and keys: "map fst (match_index n) = stub_ids n"
  shows "may_commit cfg W A (cur_term n') (log_of n') (commit_index n') \<and> applied_ok n'"
proof -
  let ?T = "cur_term n" and ?es = "log_of n" and ?m = "match_index n"
  obtain c where c: "compute_new_commit_index (last_index (rn_log n)) ?m (length (peers n)) (commit_index n) ?T (term_at (rn_log n)) = Returns c"
    and n': "n' = (if c > commit_index n then apply_committed_entries_locked (n\<lparr>commit_index := c\<rparr>) else n)"
    using adv by (auto simp: advance_commit_index_locked_def)
  show ?thesis
  proof (cases "c > commit_index n")
    case False
    with may ap n' show ?thesis by simp
  next
    case True
    with compute_new_commit_index_Returns [OF c]
    have maj: "majority (length cfg) \<le> length (filter (\<lambda>x. c \<le> x) (length ?es # map snd ?m))"
      and t: "term_at (rn_log n) c = ?T"
      by (auto simp: cfg log(2) split: if_splits)
    have le: "0 < c" "c \<le> length ?es" and e: "entry_term (?es ! (c - 1)) = ?T"
      using t pos log by (auto simp: term_at_def split: if_splits)
    have "fst ` set ?m = ids cfg - {i}" using keys cfg(1,2) set_stub_ids [of n] by (metis list.set_map)
    moreover have "distinct (map fst ?m)" unfolding keys by (simp add: stub_ids_def)
    ultimately have Q: "majority_of (ids cfg) (fst ` set (filter (\<lambda>x. c \<le> snd x) ((i, length ?es) # ?m)))" (is "majority_of _ ?Q")
      by (intro counted_majority [OF maj _ _ cfg(4)]) (use cfg(3) in auto)
    have "\<exists>m \<ge> c. (p, ?T, m) \<in> A" if p: "p \<in> ?Q" for p
    proof -
      from p obtain x where "x \<in> set ((i, length ?es) # ?m)" "c \<le> snd x" "p = fst x"
        unfolding set_filter by blast
      with mt le(1) show ?thesis unfolding match_ok_def by force
    qed
    with Q le e W have "committed cfg W A ?T c" unfolding committed_def by auto
    then have "may_commit cfg W A ?T ?es c" by (rule may_commitI) (use W le in simp_all)
    moreover have "applied_ok (apply_committed_entries_locked (n\<lparr>commit_index := c\<rparr>))"
      using ap log True le(2) by (intro apply_keeps) simp_all
    ultimately show ?thesis using True n' by simp
  qed
qed

text \<open>Events that neither store entries nor commit.\<close>

definition same_commits :: "raft_node \<Rightarrow> raft_node \<Rightarrow> bool" where
  "same_commits n n' \<longleftrightarrow> rn_log n' = rn_log n \<and> commit_index n' = commit_index n \<and>
     last_applied n' = last_applied n \<and> applied_commands n' = applied_commands n"

lemma same_commits_safe:
  assumes "same_commits n n'" and "may_commit cfg W A (cur_term n) (log_of n) (commit_index n)" and "applied_ok n"
    and "grows W W'" and "A \<subseteq> A'" and "cur_term n \<le> cur_term n'"
  shows "may_commit cfg W' A' (cur_term n') (log_of n') (commit_index n') \<and> applied_ok n'"
  using assms may_commit_grows [OF assms(2,4,5,6), of "log_of n'"]
  by (auto simp: same_commits_def applied_ok_def may_commit_def)

lemma quiet_same_commits:
  assumes "exec ev n = Returns n'" and "case ev of Tick c \<Rightarrow> True | RequestVote c rv \<Rightarrow> True | ElectionBegin c \<Rightarrow> True
     | VoteResponse e r \<Rightarrow> True | ElectionFinish c e g \<Rightarrow> True | SnapshotResponse t p x r \<Rightarrow> True | _ \<Rightarrow> False"
  shows "same_commits n n'"
  using assms
  by (cases ev) (auto simp: same_commits_def tick_def handle_request_vote_def election_begin_def on_vote_response_def
      election_finish_def on_snapshot_response_def Let_def split: option.splits)

text \<open>Storing entries in two stages: the log, then the commit index and the commands.\<close>

lemma store_stages:
  "\<exists>n1. rn_log n1 = rn_log (store_entries req n) \<and> commit_index n1 = commit_index n \<and> last_applied n1 = last_applied n \<and>
     applied_commands n1 = applied_commands n \<and>
     store_entries req n = (if leader_commit req > commit_index n
       then apply_committed_entries_locked (n1\<lparr>commit_index := min (leader_commit req) (last_index (rn_log n1))\<rparr>) else n1)"
proof -
  let ?n1 = "if ae_entries req \<noteq> []
    then n\<lparr>rn_log := truncate_and_append (prev_log_index req) (map to_persisted (ae_entries req)) (rn_log n)\<rparr> else n"
  show ?thesis by (rule exI [of _ ?n1]) (simp add: store_entries_def Let_def)
qed

text \<open>A follower that accepts a request may commit what the request says is committed.\<close>

lemma accepted_safe:
  assumes ac: "acts cfg h a s s' i (AppendEntries c req)"
    and ok: "success (fst (handle_append_entries c req (node s i)))"
  shows "may_commit cfg (reigns_of h) (acks_of h) (cur_term (node s' i)) (log_of (node s' i)) (commit_index (node s' i)) \<and>
    applied_ok (node s' i)"
proof -
  let ?W = "reigns_of h" and ?A = "acks_of h" and ?n = "node s i" and ?n' = "node s' i"
  let ?m = "prev_log_index req + length (ae_entries req)"
  have inv: "safe_inv cfg h s" "match_inv cfg ?W s" and i: "i \<in> ids cfg"
    using ac actsD(1) [OF ac] by (simp_all add: acts_def)
  obtain b L where L: "?W (ae_term req) = Some (b, L)" "piece_of req L" "cur_term ?n' = ae_term req"
    "prefix (take ?m L) (log_of ?n')" "ae_entries req \<noteq> [] \<longrightarrow> log_of ?n' = take ?m L"
    "ae_entries req = [] \<longrightarrow> log_of ?n' = log_of ?n" "leader_commit req \<le> ?m"
    "commit_upto cfg ?W ?A (ae_term req) (leader_commit req)" "\<not> cuts_agreeing req (rn_log ?n)" "role ?n' = Follower"
    by (rule accepted [OF ac ok])
  have le_T: "cur_term ?n \<le> ae_term req" using actsD(7) [OF ac] L(3) by (simp add: moves_to_def)
  have old: "may_commit cfg ?W ?A (cur_term ?n) (log_of ?n) (commit_index ?n)" "applied_ok ?n"
    using safe_invD(5) [OF inv(1) i] by (simp_all add: node_safe_def)
  have m: "?m \<le> length L" using L(2) by (simp add: piece_of_def)
  then have m': "?m \<le> length (log_of ?n')" "take ?m (log_of ?n') = take ?m L"
    using L(4) prefix_length_le [OF L(4)] by (auto simp: prefix_def min_absorb2)
  have agree: "take k L = take k (reign_log ?W t)" if "committed cfg ?W ?A t k'" "t \<le> ae_term req" "k \<le> k'" for t k k'
    by (rule safe_complete [OF inv that(1,2) L(1) that(3)])
  have kept: "commit_index ?n \<le> length (log_of ?n') \<and> take (commit_index ?n) (log_of ?n') = take (commit_index ?n) (log_of ?n)"
  proof (cases "ae_entries req = [] \<or> commit_index ?n = 0")
    case True
    then show ?thesis using L(6) old(1) by (auto simp: may_commit_def)
  next
    case False
    let ?X = "take (commit_index ?n) (log_of ?n)"
    obtain t k where t: "committed cfg ?W ?A t k" "t \<le> cur_term ?n" "commit_index ?n \<le> k" "?X = take (commit_index ?n) (reign_log ?W t)"
      and len: "commit_index ?n \<le> length (log_of ?n)"
      using old(1) False by (auto simp: may_commit_def)
    have "?X = take (commit_index ?n) L" using agree [OF t(1) _ t(3)] t(2,4) le_T by simp
    then have "prefix ?X L" by (simp add: take_is_prefix)
    from survives_store [OF take_is_prefix this L(2) _ L(9) refl] False L(5)
    have "prefix ?X (log_of ?n')" by simp
    with len show ?thesis by (auto simp: prefix_def min_absorb2)
  qed
  have n': "?n' = snd (handle_append_entries c req ?n)" using actsD(2) [OF ac] by simp
  have acc: "cur_term ?n \<le> ae_term req" "\<not> prev_mismatch req (rn_log ?n)" using ok by (simp_all add: append_success)
  have nm: "snapshot_last_index (rn_log ?n') = 0" "last_index (rn_log ?n') = length (log_of ?n')"
    using match_nodeD [OF actsD(10,1) [OF ac]] node_match_last by (auto simp: node_match_def)
  let ?told = "reset_election_deadline_locked c ((observe_term (ae_term req) ?n)\<lparr>role := Follower, leader_id := ae_leader_id req\<rparr>)"
  have st: "?n' = store_entries req ?told" using acc by (simp add: n' handle_append_entries_def Let_def)
  obtain n1 where n1: "rn_log n1 = rn_log ?n'" "commit_index n1 = commit_index ?told" "last_applied n1 = last_applied ?told"
      "applied_commands n1 = applied_commands ?told"
    and c0: "?n' = (if leader_commit req > commit_index ?told
        then apply_committed_entries_locked (n1\<lparr>commit_index := min (leader_commit req) (last_index (rn_log n1))\<rparr>) else n1)"
    using store_stages [of req ?told] unfolding st [symmetric] by blast
  have frame: "commit_index n1 = commit_index ?n" "last_applied n1 = last_applied ?n"
      "applied_commands n1 = applied_commands ?n" using n1(2-4) by simp_all
  have nm1: "snapshot_last_index (rn_log n1) = 0" "last_index (rn_log n1) = length (log_of n1)" "log_of n1 = log_of ?n'"
    using nm unfolding n1(1) by simp_all
  have lc: "leader_commit req \<le> length (log_of n1)" using L(7) m'(1) nm1(3) by simp
  have ap: "applied_ok n1" using old(2) kept frame nm1(3) by (simp add: applied_ok_def)
  show ?thesis
  proof (cases "leader_commit req > commit_index ?n")
    case False
    then have eq: "?n' = n1" using c0 by simp
    have "may_commit cfg ?W ?A (cur_term ?n') (log_of ?n') (commit_index ?n)"
      by (rule may_commit_grows [OF old(1)]) (use kept le_T L(3) in auto)
    with ap frame(1) show ?thesis unfolding eq by simp
  next
    case True
    then have eq: "?n' = apply_committed_entries_locked (n1\<lparr>commit_index := leader_commit req\<rparr>)"
      using c0 lc nm1(2) by (simp add: min_absorb1)
    then have c: "commit_index ?n' = leader_commit req" by simp
    obtain t k where t: "committed cfg ?W ?A t k" "t \<le> ae_term req" "leader_commit req \<le> k"
      using L(8) True by (auto simp: commit_upto_def)
    have "take (leader_commit req) (log_of ?n') = take (leader_commit req) L"
      using m'(2) L(7) by (metis min.absorb1 take_take)
    also have "\<dots> = take (leader_commit req) (reign_log ?W t)" by (rule agree [OF t])
    finally have "may_commit cfg ?W ?A (cur_term ?n') (log_of ?n') (leader_commit req)"
      using t L(3,7) m'(1) by (intro may_commitI [OF t(1)]) simp_all
    moreover have "applied_ok (apply_committed_entries_locked (n1\<lparr>commit_index := leader_commit req\<rparr>))"
      by (rule apply_keeps [OF ap nm1(1,2) _ lc]) (use frame True in simp)
    ultimately show ?thesis using c eq by metis
  qed
qed

lemma advance_step:
  assumes adv: "advance_commit_index_locked n = Returns n'" and nm: "node_match W i n'" and ni: "node_inv cfg i n'"
    and cfg: "config_ok cfg" "i \<in> ids cfg" and lead: "role n' = Leader" and mt: "match_ok A i n'"
    and may: "may_commit cfg W A (cur_term n) (log_of n) (commit_index n)" and ap: "applied_ok n"
  shows "may_commit cfg W A (cur_term n') (log_of n') (commit_index n') \<and> applied_ok n'"
proof (rule advance_keeps [OF adv])
  note f = advance_commit_frame [OF adv]
  have li: "last_index (rn_log n') = length (log_of n')" by (rule node_match_last [OF nm])
  show "W (cur_term n) = Some (i, log_of n)" "0 < cur_term n" "snapshot_last_index (rn_log n) = 0"
    "last_index (rn_log n) = length (log_of n)" "match_ok A i n"
    using nm lead mt li f by (auto simp: node_match_def match_ok_def)
  show "peers n = cfg" "self_id n = i" using ni f by (simp_all add: node_inv_def)
  have "map fst (match_index n') = stub_ids n'" using ni lead by (simp add: node_inv_def leader_wf_def)
  then show "map fst (match_index n) = stub_ids n" using f stub_ids_cong [of n' n] by simp
qed (use may ap cfg in \<open>auto simp: config_ok_def\<close>)

lemma append_response_match:
  assumes "on_append_response t j prev sent ar n = Returns n'" and "prev + sent + 1 < 2 ^ 64" and "role n' = Leader"
    and x: "x \<in> set (match_index n')"
  shows "x \<in> set (match_index n) \<or> snd x = 0 \<or> (success ar \<and> t = cur_term n \<and> x = (j, prev + sent))"
proof -
  have sub: "set (om_set k v m) \<subseteq> insert (k, v) (set m)" for k v and m :: "(int, nat) omap" by (rule set_om_set_subset)
  have touch: "set (om_touch k m) \<subseteq> insert (k, 0) (set m)" for k and m :: "(int, nat) omap"
    using sub by (auto simp: om_touch_def)
  show ?thesis
  proof (cases "success ar \<and> aer_term ar \<le> cur_term n \<and> role n = Leader \<and> cur_term n = t")
    case True
    let ?m = "om_touch j (match_index n)"
    let ?m' = "if u64 (prev + sent) > om_at ?m j then om_set j (u64 (prev + sent)) ?m else ?m"
    have "match_index n' = ?m'" using assms(1) True
      by (auto simp: on_append_response_def Let_def dest!: advance_commit_frame(7) split: if_splits)
    with x have "x \<in> insert (j, u64 (prev + sent)) (insert (j, 0) (set (match_index n)))"
      using sub [of j "u64 (prev + sent)" ?m] touch [of j "match_index n"] by (auto split: if_splits)
    with True assms(2) show ?thesis by (auto simp: wrap_simps)
  next
    case False
    then have "match_index n' = match_index n"
      using assms(1,3) by (auto simp: on_append_response_def Let_def split: if_splits)
    with x show ?thesis by simp
  qed
qed

lemma quiet_match:
  assumes "exec ev n = Returns n'" and "role n' = Leader"
    and "case ev of Tick c \<Rightarrow> True | RequestVote c rv \<Rightarrow> True | ElectionBegin c \<Rightarrow> True | VoteResponse e r \<Rightarrow> True
      | AppendEntries c req \<Rightarrow> True | _ \<Rightarrow> False"
  shows "match_index n' = match_index n" "role n = Leader"
  using assms
  by (cases ev; auto simp: tick_def handle_request_vote_def election_begin_def on_vote_response_def
      handle_append_entries_def Let_def split: if_splits option.splits)+

lemma event_not_snapshot_response:
  assumes ac: "acts cfg h a s s' i ev"
  shows "ev \<noteq> SnapshotResponse t p x r"
proof
  assume "ev = SnapshotResponse t p x r"
  with ac have "a = SnapAnswer p i t x r" by (cases a) (auto simp: acts_def split: ticker.splits)
  with ac match_msgD [of cfg "reigns_of h" s "SnapResp p i t x r"] show False by (simp add: acts_def)
qed

lemma step_match_ok:
  assumes ac: "acts cfg h a s s' i ev" and lead: "role (node s' i) = Leader"
  shows "match_ok (acks_of (history_after a s s' h)) i (node s' i)"
proof -
  let ?n = "node s i" and ?n' = "node s' i" and ?A = "acks_of h"
  have ex: "exec ev ?n = Returns ?n'" by (rule actsD(2) [OF ac])
  have t: "cur_term ?n' = cur_term ?n" using exec_leader [OF ex lead] by blast
  have "node_safe cfg (reigns_of h) ?A i ?n" using ac safe_invD(5) actsD(1) [OF ac] unfolding acts_def by blast
  then have old: "snd x = 0 \<or> (fst x, cur_term ?n, snd x) \<in> ?A" if "role ?n = Leader" "x \<in> set (match_index ?n)" for x
    using that unfolding node_safe_def match_ok_def by blast
  have "(i, cur_term ?n', length (log_of ?n')) \<in> new_acks a s s'"
    using ac lead by (simp add: acts_def new_acks_def)
  moreover have "snd x = 0 \<or> (fst x, cur_term ?n', snd x) \<in> ?A" if x: "x \<in> set (match_index ?n')" for x
  proof (cases ev)
    case (AppendResponse t j prev sent ar)
    then have a: "a = EntriesAnswer j i t prev sent ar" using ac by (simp add: acts_def event_of_iff)
    then have m: "EntriesResp j i t prev sent ar \<in> set (msgs s)" "prev + sent + 1 < 2 ^ 64"
      and inv: "safe_inv cfg h s" using ac by (simp_all add: acts_def)
    have "success ar \<longrightarrow> (j, t, prev + sent) \<in> ?A" using safe_invD(6) [OF inv m(1)] by simp
    moreover have "role ?n = Leader" using exec_leader [OF ex lead] AppendResponse by auto
    ultimately show ?thesis
      using append_response_match [OF _ m(2) lead x] ex AppendResponse old \<open>cur_term ?n' = cur_term ?n\<close> by fastforce
  next
    case (ElectionFinish c e g)
    show ?thesis
    proof (cases "role ?n = Leader")
      case True
      then have "match_index ?n' = match_index ?n" using ex ElectionFinish by (auto simp: election_finish_def Let_def)
      with old [OF True] x t show ?thesis by simp
    next
      case False
      have "?n' = election_finish c e g ?n" using ex ElectionFinish by simp
      then have "match_index ?n' = map (\<lambda>p. (p, 0)) (stub_ids ?n)"
        using lead False by (simp add: election_finish_def Let_def split: if_splits)
      with x show ?thesis by auto
    qed
  next
    case (Propose cmd)
    then have "match_index ?n' = match_index ?n" "role ?n = Leader"
      using ex lead by (auto simp: propose_begin_def Let_def split: if_splits dest: advance_commit_frame)
    with old x t show ?thesis by simp
  next
    case (SnapshotResponse tt p xx r)
    with event_not_snapshot_response [OF ac] show ?thesis by blast
  next
    case (Compact k data)
    with actsD(4) [OF ac] show ?thesis by blast
  next
    case (InstallSnapshot c isq)
    with actsD(5) [OF ac] show ?thesis by blast
  qed (insert quiet_match [OF ex lead] old x t, simp_all)
  ultimately show ?thesis unfolding match_ok_def history_after_def by fastforce
qed

lemma propose_stages:
  assumes "propose_begin cmd n = Returns r" and "role n = Leader"
  obtains n1 where "rn_log n1 = append_log (cur_term n) cmd (rn_log n)" "commit_index n1 = commit_index n"
    "last_applied n1 = last_applied n" "applied_commands n1 = applied_commands n" "rn_state n1 = rn_state n"
    "advance_commit_index_locked n1 = Returns (snd r)"
proof -
  let ?n1 = "n\<lparr>rn_log := append_log (cur_term n) cmd (rn_log n)\<rparr>"
  have "advance_commit_index_locked ?n1 = Returns (snd r)" using assms by (auto simp: propose_begin_def Let_def)
  then show thesis by (intro that [of ?n1]) simp_all
qed

lemma append_response_stages:
  assumes "on_append_response t j prev sent ar n = Returns n'"
  obtains "same_commits n n'"
  | n1 where "same_commits n n1" "rn_state n1 = rn_state n" "role n' = Leader" "advance_commit_index_locked n1 = Returns n'"
proof (cases "success ar \<and> aer_term ar \<le> cur_term n \<and> role n = Leader \<and> cur_term n = t")
  case True
  let ?m = "om_touch j (match_index n)"
  let ?n1 = "n\<lparr>match_index := (if u64 (prev + sent) > om_at ?m j then om_set j (u64 (prev + sent)) ?m else ?m),
    next_index := om_set j (u64 (u64 (prev + sent) + 1)) (next_index n)\<rparr>"
  have adv: "advance_commit_index_locked ?n1 = Returns n'" using assms True by (simp add: on_append_response_def Let_def)
  moreover have "role n' = Leader" using advance_commit_frame(5) [OF adv] True by simp
  ultimately show thesis by (intro that(2) [of ?n1]) (simp_all add: same_commits_def)
next
  case False
  with assms have "same_commits n n'"
    by (auto simp: on_append_response_def same_commits_def Let_def split: if_splits)
  then show thesis by (rule that(1))
qed

text \<open>The node that acts stays safe: it commits only what is committed.\<close>

lemma step_commit:
  assumes ac: "acts cfg h a s s' i ev"
  shows "may_commit cfg (reigns_after a s s' (reigns_of h)) (acks_of (history_after a s s' h))
      (cur_term (node s' i)) (log_of (node s' i)) (commit_index (node s' i)) \<and> applied_ok (node s' i)"
proof -
  let ?W = "reigns_of h" and ?W' = "reigns_after a s s' (reigns_of h)" and ?n = "node s i" and ?n' = "node s' i"
  let ?A = "acks_of h" and ?A' = "acks_of (history_after a s s' h)"
  note g = actsD(9) [OF ac] and i = actsD(1) [OF ac] and ex = actsD(2) [OF ac]
  have sub: "?A \<subseteq> ?A'" by (auto simp: history_after_def)
  have le: "cur_term ?n \<le> cur_term ?n'" by (rule acts_term_mono [OF ac])
  have inv: "safe_inv cfg h s" and cfg: "config_ok cfg" using ac by (simp_all add: acts_def)
  have old: "may_commit cfg ?W ?A (cur_term ?n) (log_of ?n) (commit_index ?n)" "applied_ok ?n"
    using safe_invD(5) [OF inv i] by (simp_all add: node_safe_def)
  note same = same_commits_safe [OF _ old g sub le]
  have nm': "node_match ?W' i ?n'" by (rule match_nodeD [OF actsD(10) [OF ac] i])
  have ni': "node_inv cfg i ?n'" by (rule inv_nodeD(1) [OF actsD(11) [OF ac] i])
  note adv = advance_step [OF _ nm' ni' cfg i _ step_match_ok [OF ac]]
  show ?thesis
  proof (cases ev)
    case (Propose cmd)
    obtain r where r: "propose_begin cmd ?n = Returns r" "?n' = snd r"
      using ex Propose by (cases "propose_begin cmd ?n") auto
    show ?thesis
    proof (cases "role ?n = Leader")
      case False
      with r have "same_commits ?n ?n'" by (auto simp: propose_begin_def same_commits_def)
      then show ?thesis by (rule same)
    next
      case True
      obtain n1 where n1: "rn_log n1 = append_log (cur_term ?n) cmd (rn_log ?n)" "commit_index n1 = commit_index ?n"
        "last_applied n1 = last_applied ?n" "applied_commands n1 = applied_commands ?n" "rn_state n1 = rn_state ?n"
        and a1: "advance_commit_index_locked n1 = Returns (snd r)"
        using propose_stages [OF r(1) True] .
      have len: "commit_index ?n \<le> length (log_of ?n)" using old(1) by (simp add: may_commit_def)
      have "role ?n' = Leader" using r True a1 by (auto simp: propose_begin_def Let_def dest!: advance_commit_frame(5))
      moreover have "may_commit cfg ?W' ?A' (cur_term n1) (log_of n1) (commit_index n1)"
        unfolding n1(2) by (rule may_commit_grows [OF old(1) g sub]) (use n1 len in simp_all)
      moreover have "applied_ok n1" using old(2) len n1 by (simp add: applied_ok_def)
      ultimately show ?thesis using adv a1 r(2) by metis
    qed
  next
    case (AppendResponse t j prev sent ar)
    then have "on_append_response t j prev sent ar ?n = Returns ?n'" using ex by simp
    then show ?thesis
    proof (cases rule: append_response_stages)
      case 1
      then show ?thesis by (rule same)
    next
      case (2 n1)
      have "may_commit cfg ?W' ?A' (cur_term n1) (log_of n1) (commit_index n1) \<and> applied_ok n1"
        by (rule same_commits_safe [OF 2(1) old g sub]) (use 2(2) in simp)
      then show ?thesis using adv [OF 2(4,3)] 2(3) by blast
    qed
  next
    case (AppendEntries c req)
    show ?thesis
    proof (cases "success (fst (handle_append_entries c req ?n))")
      case True
      from accepted_safe [OF ac [unfolded AppendEntries] True]
      have m: "may_commit cfg ?W ?A (cur_term ?n') (log_of ?n') (commit_index ?n')" "applied_ok ?n'" by blast+
      then have "commit_index ?n' \<le> length (log_of ?n')" by (simp add: may_commit_def)
      with may_commit_grows [OF m(1) g sub order_refl refl] m(2) show ?thesis by blast
    next
      case False
      have "?n' = snd (handle_append_entries c req ?n)" using ex AppendEntries by simp
      then have "same_commits ?n ?n'" using append_not_success [OF False] by (simp add: same_commits_def)
      then show ?thesis by (rule same)
    qed
  next
    case (Compact k data)
    with actsD(4) [OF ac] show ?thesis by blast
  next
    case (InstallSnapshot c isq)
    with actsD(5) [OF ac] show ?thesis by blast
  qed (insert same [OF quiet_same_commits [OF ex]], simp_all)
qed

section \<open>Messages\<close>

lemma acts_candidate:
  assumes ac: "acts cfg h a s s' i ev" and "role (node s' c) = Candidate" and "cur_term (node s' c) = cur_term (node s c)"
  shows "role (node s c) = Candidate \<and> log_of (node s' c) = log_of (node s c)"
proof (cases "c = i")
  case True
  have r: "role (node s i) = Candidate"
    using actsD(7) [OF ac] assms(2,3) unfolding moves_to_def True by linarith
  have "rn_log (node s' i) = rn_log (node s i)"
    by (rule candidate_log [OF actsD(2,4,5) [OF ac] _ r]) (use assms(2) True in blast)
  with r True show ?thesis by simp
next
  case False
  then have "node s' c = node s c" using actsD(3) [OF ac] by (metis fun_upd_def)
  with assms(2) show ?thesis by simp
qed

lemma commit_upto_grows:
  "commit_upto cfg W A T c \<Longrightarrow> grows W W' \<Longrightarrow> A \<subseteq> A' \<Longrightarrow> commit_upto cfg W' A' T c"
  unfolding commit_upto_def by (meson committed_grows)

lemma msg_safe_kept:
  assumes "msg_safe cfg W A nd m" and "grows W W'" and "A \<subseteq> A'"
    and mono: "\<And>c. cur_term (nd c) \<le> cur_term (nd' c)"
    and cand: "\<And>c. role (nd' c) = Candidate \<Longrightarrow> cur_term (nd' c) = cur_term (nd c) \<Longrightarrow>
      role (nd c) = Candidate \<and> log_of (nd' c) = log_of (nd c)"
  shows "msg_safe cfg W' A' nd' m"
proof (cases m)
  case (VoteReq c p req)
  with assms(1) have old: "c \<noteq> p" "rv_term req \<le> cur_term (nd c)" "cur_term (nd c) = rv_term req \<and> role (nd c) = Candidate \<longrightarrow>
      rv_last_log_index req = length (log_of (nd c)) \<and> rv_last_log_term req = final_term (log_of (nd c))" by auto
  have "rv_last_log_index req = length (log_of (nd' c)) \<and> rv_last_log_term req = final_term (log_of (nd' c))"
    if "cur_term (nd' c) = rv_term req" "role (nd' c) = Candidate"
  proof -
    have "cur_term (nd' c) = cur_term (nd c)" using mono [of c] old(2) that(1) by simp
    with cand [OF that(2)] old(3) that(1) show ?thesis by simp
  qed
  with old mono [of c] show ?thesis by (simp add: VoteReq)
next
  case (EntriesReq i j req)
  with assms(1) commit_upto_grows [OF _ assms(2,3)] show ?thesis by auto
qed (use assms(1,3) in auto)

lemma effect_msgs:
  assumes "effect a s = Returns s'" and "m \<in> set (msgs s')"
  shows "m \<in> set (msgs s) \<or> (\<forall>W A nd. msg_safe cfg W A nd m) \<or>
    (\<exists>i c p. a = BeginElection i c \<and> p \<in> set (stub_ids (node s' i)) \<and>
       m = VoteReq i p (vote_request (fst (election_begin c (node s i))) (node s' i))) \<or>
    (\<exists>i j t nx req. a = RunBuild i j t nx \<and> build_append_entries t nx (node s i) = Some req \<and> m = EntriesReq i j req) \<or>
    (\<exists>i j req c. a = DeliverEntries i j req c \<and> m = EntriesResp j i (ae_term req) (prev_log_index req)
       (length (ae_entries req)) (fst (handle_append_entries c req (node s j))))"
proof (cases a)
  case (BeginElection i c)
  with assms show ?thesis by (auto simp: cluster_defs Let_def simp del: set_stub_ids split: prod.splits)
next
  case (RunBuild i j t nx)
  with assms show ?thesis by (auto dest!: set_swap_msgs split: option.splits)
next
  case (RunSend i j t nx)
  with assms show ?thesis by (auto dest!: set_swap_msgs split: send_decision.splits)
next
  case (Replicate i)
  with assms show ?thesis
    by (cases "replicate_to_followers (node s i)") (auto simp: swap_msgs_def split: option.splits)
qed (use assms in \<open>auto simp: cluster_defs Let_def split: prod.splits ticker.splits if_splits dest: remove1_subset\<close>)

lemma step_msgs:
  assumes ac: "acts cfg h a s s' i ev" and m: "m \<in> set (msgs s')"
  shows "msg_safe cfg (reigns_after a s s' (reigns_of h)) (acks_of (history_after a s s' h)) (node s') m"
proof -
  let ?W' = "reigns_after a s s' (reigns_of h)" and ?A' = "acks_of (history_after a s s' h)"
  have eff: "effect a s = Returns s'" and inv: "safe_inv cfg h s" and ev: "event_of a s = Some (i, ev)"
    using ac by (simp_all add: acts_def)
  note i = actsD(1) [OF ac]
  have sub: "acks_of h \<subseteq> ?A'" by (auto simp: history_after_def)
  from effect_msgs [OF eff m, of cfg] show ?thesis
  proof (elim disjE exE conjE)
    assume "m \<in> set (msgs s)"
    from safe_invD(6) [OF inv this] show ?thesis
      by (rule msg_safe_kept [OF _ actsD(9) [OF ac] sub acts_term_mono [OF ac]]) (use acts_candidate [OF ac] in blast)
  next
    assume "\<forall>W A nd. msg_safe cfg W A nd m"
    then show ?thesis by blast
  next
    fix k c p assume b: "a = BeginElection k c" "p \<in> set (stub_ids (node s' k))"
      "m = VoteReq k p (vote_request (fst (election_begin c (node s k))) (node s' k))"
    have k: "k = i" "ev = ElectionBegin c" using b(1) ev by simp_all
    have ni: "node_inv cfg i (node s' i)" by (rule inv_nodeD(1) [OF actsD(11) [OF ac] i])
    have nm: "node_match ?W' i (node s' i)" by (rule match_nodeD [OF actsD(10) [OF ac] i])
    have n': "node s' i = snd (election_begin c (node s i))" using actsD(2) [OF ac] k(2) by simp
    have "p \<noteq> i" using b(2) ni k(1) by (auto simp: node_inv_def)
    moreover have "last_index (rn_log (node s' i)) = length (log_of (node s' i))" by (rule node_match_last [OF nm])
    moreover have "last_term (rn_log (node s' i)) = final_term (log_of (node s' i))"
      using nm by (simp add: last_term_def final_term_def node_match_def)
    ultimately show ?thesis
      unfolding b(3) k(1) by (simp add: vote_request_def n' election_begin_def Let_def)
  next
    fix k j t nx req assume "a = RunBuild k j t nx"
    with ev show ?thesis by simp
  next
    fix k j req c assume d: "a = DeliverEntries k j req c"
      "m = EntriesResp j k (ae_term req) (prev_log_index req) (length (ae_entries req)) (fst (handle_append_entries c req (node s j)))"
    then show ?thesis by (auto simp: history_after_def new_acks_def)
  qed
qed

section \<open>Every action keeps the invariant\<close>

lemma safe_event:
  assumes ac: "acts cfg h a s s' i ev"
  shows "safe_inv cfg (history_after a s s' h) s'"
proof -
  let ?h = "history_after a s s' h"
  have W: "reigns_of ?h = reigns_after a s s' (reigns_of h)" by (simp add: history_after_def)
  have sub: "acks_of h \<subseteq> acks_of ?h" by (auto simp: history_after_def)
  have inv: "safe_inv cfg h s" using ac by (simp add: acts_def)
  note g = actsD(9) [OF ac]
  have "node_safe cfg (reigns_of ?h) (acks_of ?h) k (node s' k)" if k: "k \<in> ids cfg" for k
  proof (cases "k = i")
    case True
    with step_commit [OF ac] step_match_ok [OF ac] show ?thesis unfolding node_safe_def W by blast
  next
    case False
    then have n: "node s' k = node s k" using actsD(3) [OF ac] by (metis fun_upd_def)
    have old: "may_commit cfg (reigns_of h) (acks_of h) (cur_term (node s k)) (log_of (node s k)) (commit_index (node s k))"
      "applied_ok (node s k)" "role (node s k) = Leader \<longrightarrow> match_ok (acks_of h) k (node s k)"
      using safe_invD(5) [OF inv k] by (simp_all add: node_safe_def)
    have "match_ok (acks_of h) k (node s k) \<longrightarrow> match_ok (acks_of ?h) k (node s k)"
      using sub unfolding match_ok_def by blast
    moreover have "may_commit cfg (reigns_of ?h) (acks_of ?h) (cur_term (node s k)) (log_of (node s k)) (commit_index (node s k))"
      by (rule may_commit_grows [OF old(1) _ sub]) (use g W old(1) in \<open>auto simp: may_commit_def\<close>)
    ultimately show ?thesis using old n by (simp add: node_safe_def)
  qed
  then show ?thesis
    unfolding safe_inv_def Let_def W
    using step_acks [OF ac] step_polls [OF ac] step_ballots [OF ac] step_elected [OF ac] step_msgs [OF ac] by blast
qed

text \<open>Actions that leave terms and logs alone: losing a message, building one, restarting a node.\<close>

lemma safe_frame:
  assumes inv: "safe_inv cfg h s" and ballots: "ballots s' = ballots s"
    and nodes: "\<And>c. cur_term (node s' c) = cur_term (node s c) \<and> log_of (node s' c) = log_of (node s c) \<and>
      (role (node s' c) = Candidate \<longrightarrow> role (node s c) = Candidate)"
    and safe: "\<And>i. i \<in> ids cfg \<Longrightarrow> node_safe cfg (reigns_of h) (acks_of h) i (node s' i)"
    and ms: "\<And>m. m \<in> set (msgs s') \<Longrightarrow> m \<in> set (msgs s) \<or> msg_safe cfg (reigns_of h) (acks_of h) (node s') m"
  shows "safe_inv cfg h s'"
proof -
  let ?W = "reigns_of h" and ?A = "acks_of h"
  have "ack_kept ?W (node s') p t m" if "(p, t, m) \<in> ?A" for p t m
    using safe_invD(1) [OF inv that] nodes by (simp add: ack_kept_def)
  moreover have "poll_ok ?W ?A (node s') b es" if "(b, es) \<in> polled h" for b es
    using safe_invD(2) [OF inv that] nodes by (cases b) (auto simp: poll_ok_def)
  moreover have "elected cfg ?W ?A (node s') T (base T L)" if "?W T = Some (b, L)" for T b L
    using safe_invD(4) [OF inv that] nodes by (simp add: elected_def)
  moreover have "msg_safe cfg ?W ?A (node s') m" if "m \<in> set (msgs s')" for m
  proof (cases "m \<in> set (msgs s)")
    case True
    from safe_invD(6) [OF inv this] show ?thesis by (rule msg_safe_kept) (use nodes in auto)
  next
    case False
    with ms [OF that] show ?thesis by blast
  qed
  ultimately show ?thesis
    unfolding safe_inv_def Let_def ballots using safe_invD(3) [OF inv] safe by blast
qed

lemma restart_counters:
  assumes "snapshot_last_index (rn_log (restart c n)) = 0"
  shows "commit_index (restart c n) = 0 \<and> last_applied (restart c n) = 0 \<and> applied_commands (restart c n) = []"
  using assms by (auto simp: restart_def RaftNode_def Let_def split: prod.splits)

lemma safe_step:
  assumes inv: "cluster_inv cfg s" "match_inv cfg (reigns_of h) s" "safe_inv cfg h s" and cfg: "config_ok cfg"
    and en: "enabled cfg a s" and ord: "orderly a s" and eff: "effect a s = Returns s'"
  shows "safe_inv cfg (history_after a s s' h) s'"
proof (cases "event_of a s")
  case (Some r)
  then obtain i ev where "event_of a s = Some (i, ev)" by (cases r) auto
  then have "acts cfg h a s s' i ev" using assms by (simp add: acts_def)
  then show ?thesis by (rule safe_event)
next
  case None
  have bs: "ballots s' = ballots s" by (rule effect_ballots(2) [OF eff]) (use None in auto)
  with None have h: "history_after a s s' h = h"
    by (simp add: history_after_def reigns_after_def new_acks_def new_polls_def)
  have old_or_built: "m \<in> set (msgs s) \<or> msg_safe cfg (reigns_of h) (acks_of h) (node s') m" if m: "m \<in> set (msgs s')" for m
    using effect_msgs [OF eff m, of cfg]
  proof (elim disjE exE conjE)
    fix i j t nx req assume b: "a = RunBuild i j t nx" "build_append_entries t nx (node s i) = Some req" "m = EntriesReq i j req"
    then have task: "BuildTask i j t nx \<in> set (msgs s)" using en by simp
    then have i: "i \<in> ids cfg" using inv_msgD [OF inv(1) task] by simp
    have nx: "1 \<le> nx" using match_msgD [OF inv(2) task] by simp
    note r = built_request [OF b(2) match_nodeD [OF inv(2) i] nx]
    have mc: "may_commit cfg (reigns_of h) (acks_of h) (cur_term (node s i)) (log_of (node s i)) (commit_index (node s i))"
      using safe_invD(5) [OF inv(3) i] by (simp add: node_safe_def)
    then have "commit_upto cfg (reigns_of h) (acks_of h) (ae_term req) (leader_commit req)"
      using r by (auto simp: may_commit_def commit_upto_def)
    with r mc show ?thesis by (auto simp: b(3) may_commit_def)
  qed (use None in auto)
  show ?thesis
  proof (cases "\<exists>i c. a = Restart i c")
    case False
    then have n: "node s' = node s" using effect_no_node [OF eff None] by blast
    show ?thesis unfolding h
      by (rule safe_frame [OF inv(3) bs]) (use n old_or_built safe_invD(5) [OF inv(3)] in auto)
  next
    case True
    then obtain i c where a: "a = Restart i c" by blast
    then have i: "i \<in> ids cfg" using en by simp
    let ?n = "node s i" and ?n' = "restart c (node s i)"
    have wf: "wf_state (rn_state ?n)" using inv_nodeD(1) [OF inv(1) i] by (simp add: node_inv_def)
    note log = restart_moves_to(2) [OF match_nodeD [OF inv(2) i] wf, of c]
    have n': "node s' = (node s)(i := ?n')" using eff a by (auto simp: cluster_defs)
    have zero: "commit_index ?n' = 0" "last_applied ?n' = 0" "applied_commands ?n' = []"
      using restart_counters [of c ?n] match_nodeD [OF inv(2) i] log by (simp_all add: node_match_def)
    have "node_safe cfg (reigns_of h) (acks_of h) i ?n'"
      using zero restart_frame(2) [OF wf] by (simp add: node_safe_def may_commit_def applied_ok_def)
    then show ?thesis unfolding h
      by (intro safe_frame [OF inv(3) bs]) (use n' log restart_frame [OF wf] old_or_built safe_invD(5) [OF inv(3)] in auto)
  qed
qed

definition no_history :: history where
  "no_history = \<lparr>reigns_of = Map.empty, acks_of = {}, polled = {}\<rparr>"

lemma safe_init: "safe_inv cfg no_history (cluster_init cfg cl)"
  by (auto simp: safe_inv_def no_history_def cluster_init_def node_safe_def may_commit_def applied_ok_def RaftNode_def
      open_state_def open_log_def new_log_def persist_state_def new_state_def persist_log_def write_file_def Let_def)

lemma reachable_safe:
  assumes "reachable_by cfg orderly s" and cfg: "config_ok cfg"
  shows "\<exists>h. safe_inv cfg h s \<and> match_inv cfg (reigns_of h) s"
  using assms(1)
proof (induction rule: reachable_by.induct)
  case (init cl)
  have "match_inv cfg (reigns_of no_history) (cluster_init cfg cl)" using match_init by (simp add: no_history_def)
  with safe_init show ?case by blast
next
  case (step s a s')
  then obtain h where h: "safe_inv cfg h s" "match_inv cfg (reigns_of h) s" by blast
  have inv: "cluster_inv cfg s" using reachable_inv [OF reachable_by_reachable [OF step.hyps(1)] cfg] .
  have "match_inv cfg (reigns_of (history_after a s s' h)) s'"
    using match_step [OF h(2) inv cfg step.hyps(2) orderly_uncompacted [OF step.hyps(3)] step.hyps(4)]
    by (simp add: history_after_def)
  moreover have "safe_inv cfg (history_after a s s' h) s'" by (rule safe_step) fact+
  ultimately show ?case by blast
qed

end
