(* ===== verification/Raft_Safety.thy ===== *)
theory Raft_Safety
  imports Raft_Steps
begin

text \<open>
  Safety of the replicated state machine.  \<open>committed_command_lost\<close> shows that an overtaken
  \<open>AppendEntries\<close> can undo a commit.  Here the converse: in every run in which no accepted
  request cuts off entries that agree with it (and no log is compacted), the leader of a
  later term has every committed entry, and the commands two nodes have applied are the one
  a prefix of the other.  The proof is that of the Raft paper, on history variables: the
  log of the leader of every term, what every node has acknowledged, and the log every
  ballot was cast with.
\<close>

section \<open>What the invariant gives over time\<close>

lemma grows_trans:
  assumes "grows W W'" and "grows W' W''"
  shows "grows W W''"
  unfolding grows_def
proof (intro allI impI)
  fix t a L assume "W t = Some (a, L)"
  then obtain M where M: "W' t = Some (a, L @ M)" "\<forall>e \<in> set M. entry_term e = t" using assms(1) unfolding grows_def by blast
  then obtain N where "W'' t = Some (a, (L @ M) @ N)" "\<forall>e \<in> set N. entry_term e = t" using assms(2) unfolding grows_def by blast
  with M(2) show "\<exists>M. W'' t = Some (a, L @ M) \<and> (\<forall>e \<in> set M. entry_term e = t)"
    by (intro exI [of _ "M @ N"]) auto
qed

lemma step_grows:
  assumes "cluster_inv cfg s" and "match_inv cfg (reigns_of h) s" and "safe_inv cfg h s" and "config_ok cfg"
    and "enabled cfg a s" and "orderly a s" and "effect a s = Returns s'"
  shows "grows (reigns_of h) (reigns_of (history_after a s s' h))"
proof (cases "event_of a s")
  case None
  then show ?thesis by (simp add: history_after_def reigns_after_def)
next
  case (Some r)
  then obtain i ev where "event_of a s = Some (i, ev)" by (cases r) auto
  then have "acts cfg h a s s' i ev" using assms by (simp add: acts_def)
  from actsD(9) [OF this] show ?thesis by (simp add: history_after_def)
qed

lemma safe_run:
  assumes "run_by cfg orderly as s = Some s'" and "reachable_by cfg orderly s" and cfg: "config_ok cfg"
    and "safe_inv cfg h s" and "match_inv cfg (reigns_of h) s"
  shows "\<exists>h'. safe_inv cfg h' s' \<and> match_inv cfg (reigns_of h') s' \<and> grows (reigns_of h) (reigns_of h') \<and> acks_of h \<subseteq> acks_of h'"
  using assms
proof (induction as arbitrary: s h)
  case Nil
  then show ?case by (intro exI [of _ h]) simp
next
  case (Cons a as)
  then obtain s1 where s1: "enabled cfg a s" "orderly a s" "effect a s = Returns s1" "run_by cfg orderly as s1 = Some s'"
    by (auto split: if_splits outcome.splits)
  let ?h = "history_after a s s1 h"
  have inv: "cluster_inv cfg s" using reachable_inv [OF reachable_by_reachable [OF Cons.prems(2)] cfg] .
  have r: "reachable_by cfg orderly s1" using Cons.prems(2) s1 by (auto intro: reachable_by.step)
  have safe: "safe_inv cfg ?h s1" by (rule safe_step [OF inv Cons.prems(5,4) cfg s1(1-3)])
  have mt: "match_inv cfg (reigns_of ?h) s1"
    using match_step [OF Cons.prems(5) inv cfg s1(1) orderly_uncompacted [OF s1(2)] s1(3)] by (simp add: history_after_def)
  have g: "grows (reigns_of h) (reigns_of ?h)" by (rule step_grows [OF inv Cons.prems(5,4) cfg s1(1-3)])
  have sub: "acks_of h \<subseteq> acks_of ?h" by (auto simp: history_after_def)
  from Cons.IH [OF s1(4) r cfg safe mt] obtain h' where h': "safe_inv cfg h' s'" "match_inv cfg (reigns_of h') s'"
    "grows (reigns_of ?h) (reigns_of h')" "acks_of ?h \<subseteq> acks_of h'" by blast
  with grows_trans [OF g h'(3)] sub show ?case by blast
qed

text \<open>Two logs, each with what it may commit, agree on what both may commit.\<close>

lemma commits_agree:
  assumes "safe_inv cfg h s" and "match_inv cfg (reigns_of h) s"
    and "may_commit cfg (reigns_of h) (acks_of h) T es c" and "may_commit cfg (reigns_of h) (acks_of h) T' fs d"
    and "k \<le> c" and "k \<le> d"
  shows "take k es = take k fs"
proof (cases "k = 0")
  case False
  let ?W = "reigns_of h" and ?A = "acks_of h"
  obtain t x where t: "committed cfg ?W ?A t x" "c \<le> x" "take c es = take c (reign_log ?W t)"
    using assms(3,5) False by (auto simp: may_commit_def)
  obtain u y where u: "committed cfg ?W ?A u y" "d \<le> y" "take d fs = take d (reign_log ?W u)"
    using assms(4,6) False by (auto simp: may_commit_def)
  obtain a L where L: "?W t = Some (a, L)" using committed_reign [OF t(1)] by auto
  obtain b M where M: "?W u = Some (b, M)" using committed_reign [OF u(1)] by auto
  have "take k (reign_log ?W t) = take k (reign_log ?W u)"
  proof (cases "t \<le> u")
    case True
    from safe_complete [OF assms(1,2) t(1) True M, of k] t(2) assms(5) M show ?thesis by simp
  next
    case le: False
    from safe_complete [OF assms(1,2) u(1) _ L, of k] u(2) assms(6) L le show ?thesis by simp
  qed
  moreover have "take k es = take k (reign_log ?W t)" using t(3) assms(5) by (metis min.absorb1 take_take)
  moreover have "take k fs = take k (reign_log ?W u)" using u(3) assms(6) by (metis min.absorb1 take_take)
  ultimately show ?thesis by simp
qed simp

lemma applied_prefix:
  assumes "applied_ok n" and "applied_ok n'" and "commit_index n \<le> commit_index n'"
    and "take (commit_index n) (log_of n) = take (commit_index n) (log_of n')"
  shows "prefix (applied_commands n) (applied_commands n')"
proof -
  let ?f = "\<lambda>es. filter (\<lambda>cmd. cmd \<noteq> '''') (map command es)"
  have "take (commit_index n') (log_of n') =
      take (commit_index n) (log_of n') @ drop (commit_index n) (take (commit_index n') (log_of n'))"
    using assms(3) by (metis append_take_drop_id min.absorb1 take_take)
  then have "?f (take (commit_index n') (log_of n')) =
      ?f (take (commit_index n) (log_of n')) @ ?f (drop (commit_index n) (take (commit_index n') (log_of n')))"
    by (metis filter_append map_append)
  with assms show ?thesis by (simp add: applied_ok_def)
qed

text \<open>One node now, another node (or the same) later.\<close>

lemma applied_comparable:
  assumes cfg: "config_ok cfg" and r: "reachable_by cfg orderly s" and run: "run_by cfg orderly as s = Some s'"
    and ij: "i \<in> ids cfg" "j \<in> ids cfg"
  shows "prefix (applied_commands (node s i)) (applied_commands (node s' j)) \<or>
    prefix (applied_commands (node s' j)) (applied_commands (node s i))"
proof -
  obtain h where h: "safe_inv cfg h s" "match_inv cfg (reigns_of h) s" using reachable_safe [OF r cfg] by blast
  obtain h' where h': "safe_inv cfg h' s'" "match_inv cfg (reigns_of h') s'" "grows (reigns_of h) (reigns_of h')"
      "acks_of h \<subseteq> acks_of h'"
    using safe_run [OF run r cfg h] by blast
  let ?n = "node s i" and ?m = "node s' j"
  have n: "may_commit cfg (reigns_of h) (acks_of h) (cur_term ?n) (log_of ?n) (commit_index ?n)" "applied_ok ?n"
    using safe_invD(5) [OF h(1) ij(1)] by (simp_all add: node_safe_def)
  have m: "may_commit cfg (reigns_of h') (acks_of h') (cur_term ?m) (log_of ?m) (commit_index ?m)" "applied_ok ?m"
    using safe_invD(5) [OF h'(1) ij(2)] by (simp_all add: node_safe_def)
  have n': "may_commit cfg (reigns_of h') (acks_of h') (cur_term ?n) (log_of ?n) (commit_index ?n)"
    by (rule may_commit_grows [OF n(1) h'(3,4)]) (use n(1) in \<open>auto simp: may_commit_def\<close>)
  show ?thesis
  proof (cases "commit_index ?n \<le> commit_index ?m")
    case True
    from applied_prefix [OF n(2) m(2) True commits_agree [OF h'(1,2) n' m(1) order_refl True]] show ?thesis ..
  next
    case False
    then have le: "commit_index ?m \<le> commit_index ?n" by simp
    from applied_prefix [OF m(2) n(2) le commits_agree [OF h'(1,2) m(1) n' order_refl le]] show ?thesis ..
  qed
qed

section \<open>A run\<close>

text \<open>
  After \<open>commit_run\<close>, node 1 is elected in term 2 by node 2, proposes \<open>c\<close>, and commits it
  with the old leader's help.
\<close>

definition later_clock :: clock where
  "later_clock = \<lparr>now = 2000, draw = 300\<rparr>"

definition succession_run :: "action list" where
  "succession_run = (let req = \<lparr>rv_term = 2, candidate_id = 1, rv_last_log_index = 2, rv_last_log_term = 1\<rparr> in
     [TickAct 1 later_clock, BeginElection 1 later_clock, DeliverVote 1 2 req later_clock,
      VoteAnswer 2 1 2 \<lparr>rvr_term = 2, vote_granted = True\<rparr>, VoteFails 1 0, FinishElection 1 later_clock,
      ProposeAct 1 ''c'', Replicate 1, RunSend 1 0 2 3, RunBuild 1 0 2 3,
      DeliverEntries 1 0 (sample_entries 2 1 2 1 [sample_entry 2 3 ''c'']) later_clock,
      EntriesAnswer 0 1 2 2 1 \<lparr>aer_term = 2, success = True\<rparr>])"

definition sample_log_entries :: "persisted_entry list" where
  "sample_log_entries = [\<lparr>entry_term = 1, command = ''a''\<rparr>, \<lparr>entry_term = 1, command = ''b''\<rparr>]"

lemma run_by_append: "run_by cfg I (as @ bs) s = Option.bind (run_by cfg I as s) (run_by cfg I bs)"
  by (induction cfg I as s rule: run_by.induct) (auto split: outcome.splits)

lemma orderly_commit_run:
  "map_option (\<lambda>s. (propose_poll 2 1 (node s 0), applied_commands (node s 0), log_of (node s 0)))
     (run_by sample_peers orderly (elect_run @ commit_run) sample_cluster) =
   Some (Some True, [''a'', ''b''], sample_log_entries)"
  by (simp add: elect_run_def commit_run_def run_simps replication_simps new_log_def propose_poll_def
      cuts_agreeing_def sample_log_entries_def)

lemma upt_four: "[Suc 0..<4] = [1, 2, 3]"
  by (simp add: upt_rec)

lemma orderly_succession_run:
  "map_option (\<lambda>s. (role (node s 1), cur_term (node s 1), applied_commands (node s 1)))
     (run_by sample_peers orderly (elect_run @ commit_run @ succession_run) sample_cluster) =
   Some (Leader, 2, [''a'', ''b'', ''c''])"
  by (simp add: elect_run_def commit_run_def succession_run_def later_clock_def run_simps replication_simps new_log_def
      cuts_agreeing_def upt_four)

lemma sample_succession:
  obtains s s' where "run_by sample_peers orderly (elect_run @ commit_run) sample_cluster = Some s"
    and "run_by sample_peers orderly succession_run s = Some s'" and "propose_poll 2 1 (node s 0) = Some True"
    and "applied_commands (node s 0) = [''a'', ''b'']" and "log_of (node s 0) = sample_log_entries"
    and "role (node s' 1) = Leader" and "cur_term (node s' 1) = 2" and "applied_commands (node s' 1) = [''a'', ''b'', ''c'']"
proof -
  obtain s where s: "run_by sample_peers orderly (elect_run @ commit_run) sample_cluster = Some s"
    "propose_poll 2 1 (node s 0) = Some True" "applied_commands (node s 0) = [''a'', ''b'']"
    "log_of (node s 0) = sample_log_entries"
    using orderly_commit_run by auto
  obtain s' where s': "run_by sample_peers orderly (elect_run @ commit_run @ succession_run) sample_cluster = Some s'"
    "role (node s' 1) = Leader" "cur_term (node s' 1) = 2" "applied_commands (node s' 1) = [''a'', ''b'', ''c'']"
    using orderly_succession_run by auto
  have "run_by sample_peers orderly succession_run s = Some s'"
    using s(1) s'(1) by (simp add: run_by_append flip: append_assoc)
  with s s' show thesis by (intro that)
qed

section \<open>Properties\<close>

text \<open>
  C2: state machine safety.  Whatever two nodes have applied, one now and one (or the same)
  at any later time, is the one a prefix of the other, in every run that compacts no log and
  in which no accepted \<open>AppendEntries\<close> cuts off entries that agree with it.  Calls may be
  delayed, reordered and lost, and nodes restart, as they like: together with
  \<open>committed_command_lost\<close> this says that, among runs that compact no log, cutting off
  agreeing entries is the only way the code loses a committed command.
\<close>

theorem state_machine_safety:
  assumes "config_ok cfg" and "reachable_by cfg orderly s" and "run_by cfg orderly as s = Some s'"
    and "i \<in> ids cfg" and "j \<in> ids cfg"
  shows "prefix (applied_commands (node s i)) (applied_commands (node s' j)) \<or>
    prefix (applied_commands (node s' j)) (applied_commands (node s i))"
  by (rule applied_comparable [OF assms])

theorem state_machine_safety_witness:
  "\<exists>s s'. run_by sample_peers orderly (elect_run @ commit_run) sample_cluster = Some s \<and>
     run_by sample_peers orderly succession_run s = Some s' \<and> applied_commands (node s 0) = [''a'', ''b''] \<and>
     applied_commands (node s' 1) = [''a'', ''b'', ''c''] \<and>
     prefix (applied_commands (node s 0)) (applied_commands (node s' 1))"
proof -
  obtain s s' where s: "run_by sample_peers orderly (elect_run @ commit_run) sample_cluster = Some s"
    "run_by sample_peers orderly succession_run s = Some s'" "applied_commands (node s 0) = [''a'', ''b'']"
    "applied_commands (node s' 1) = [''a'', ''b'', ''c'']"
    by (rule sample_succession)
  have "(0::int) \<in> ids sample_peers" "(1::int) \<in> ids sample_peers" by (simp_all add: sample_peers_def)
  from state_machine_safety [OF sample_config_ok sample_reachable_by [OF s(1)] s(2) this] s show ?thesis by auto
qed

text \<open>
  C6: an acknowledged proposal is durable.  Once \<open>propose\<close> has returned true for index \<open>k\<close>
  and term \<open>t\<close>, every leader of that or a later term, at any later time in such a run, holds
  the entry at index \<open>k\<close>.
\<close>

theorem acknowledged_proposal_durable:
  assumes "config_ok cfg" and "reachable_by cfg orderly s" and "i \<in> ids cfg"
    and "propose_poll k t (node s i) = Some True" and "entry_at (rn_log (node s i)) k = Some e"
    and "run_by cfg orderly as s = Some s'" and "j \<in> ids cfg" and "role (node s' j) = Leader"
    and "t \<le> cur_term (node s' j)"
  shows "entry_at (rn_log (node s' j)) k = Some e"
proof -
  let ?n = "node s i" and ?m = "node s' j"
  obtain h where h: "safe_inv cfg h s" "match_inv cfg (reigns_of h) s" using reachable_safe [OF assms(2,1)] by blast
  obtain h' where h': "safe_inv cfg h' s'" "match_inv cfg (reigns_of h') s'" "grows (reigns_of h) (reigns_of h')"
      "acks_of h \<subseteq> acks_of h'"
    using safe_run [OF assms(6,2,1) h] by blast
  have poll: "cur_term ?n = t" "k \<le> commit_index ?n" using assms(4) by (auto simp: propose_poll_def split: if_splits)
  have nm: "node_match (reigns_of h) i ?n" "node_match (reigns_of h') j ?m"
    using match_nodeD [OF h(2) assms(3)] match_nodeD [OF h'(2) assms(7)] .
  then have snap: "snapshot_last_index (rn_log ?n) = 0" "snapshot_last_index (rn_log ?m) = 0"
    and lead: "reigns_of h' (cur_term ?m) = Some (j, log_of ?m)" using assms(8) by (simp_all add: node_match_def)
  have k: "0 < k" "k \<le> length (log_of ?n)" "e = log_of ?n ! (k - 1)"
    using assms(5) snap by (auto simp: entry_at_def split: if_splits)
  have mc: "may_commit cfg (reigns_of h) (acks_of h) (cur_term ?n) (log_of ?n) (commit_index ?n)"
    using safe_invD(5) [OF h(1) assms(3)] by (simp add: node_safe_def)
  have "may_commit cfg (reigns_of h') (acks_of h') (cur_term ?n) (log_of ?n) (commit_index ?n)"
    by (rule may_commit_grows [OF mc h'(3,4)]) (use mc in \<open>auto simp: may_commit_def\<close>)
  then obtain u x where u: "committed cfg (reigns_of h') (acks_of h') u x" "u \<le> t" "commit_index ?n \<le> x"
      "take (commit_index ?n) (log_of ?n) = take (commit_index ?n) (reign_log (reigns_of h') u)"
    using k(1) poll by (auto simp: may_commit_def)
  have "take k (log_of ?m) = take k (reign_log (reigns_of h') u)"
    by (rule safe_complete [OF h'(1,2) u(1) _ lead]) (use u poll assms(9) in linarith)+
  moreover have "take k (log_of ?n) = take k (reign_log (reigns_of h') u)"
    using u(4) poll(2) by (metis min.absorb1 take_take)
  ultimately have eq: "take k (log_of ?m) = take k (log_of ?n)" by simp
  then have "k \<le> length (log_of ?m)" using k(2) by (metis length_take min.absorb_iff2)
  moreover have "log_of ?m ! (k - 1) = log_of ?n ! (k - 1)" using eq k(1) by (metis diff_less nth_take zero_less_one)
  ultimately show ?thesis using k snap by (simp add: entry_at_def)
qed

theorem acknowledged_proposal_durable_witness:
  "\<exists>s s'. run_by sample_peers orderly (elect_run @ commit_run) sample_cluster = Some s \<and>
     propose_poll 2 1 (node s 0) = Some True \<and> run_by sample_peers orderly succession_run s = Some s' \<and>
     role (node s' 1) = Leader \<and> cur_term (node s' 1) = 2 \<and>
     entry_at (rn_log (node s' 1)) 2 = Some \<lparr>entry_term = 1, command = ''b''\<rparr>"
proof -
  obtain s s' where s: "run_by sample_peers orderly (elect_run @ commit_run) sample_cluster = Some s"
    "run_by sample_peers orderly succession_run s = Some s'" "propose_poll 2 1 (node s 0) = Some True"
    "log_of (node s 0) = sample_log_entries" "role (node s' 1) = Leader" "cur_term (node s' 1) = 2"
    by (rule sample_succession)
  have i: "(0::int) \<in> ids sample_peers" "(1::int) \<in> ids sample_peers" by (simp_all add: sample_peers_def)
  note r = sample_reachable_by [OF s(1)]
  obtain h :: history where "match_inv sample_peers (reigns_of h) s" using reachable_safe [OF r sample_config_ok] by blast
  from match_nodeD [OF this i(1)] have "snapshot_last_index (rn_log (node s 0)) = 0" by (simp add: node_match_def)
  then have e: "entry_at (rn_log (node s 0)) 2 = Some \<lparr>entry_term = 1, command = ''b''\<rparr>"
    using s(4) by (simp add: entry_at_def sample_log_entries_def)
  from acknowledged_proposal_durable [OF sample_config_ok r i(1) s(3) e s(2) i(2) s(5)] s show ?thesis by auto
qed

end
