(* ===== verification/Coordinator_Group.thy ===== *)
theory Coordinator_Group
  imports Coordinator Raft_Safety
begin

text \<open>
  The coordinators on top of the Raft group: each polls its own node
  (\<open>apply_pending_raft_commands\<close> in \<^verbatim>\<open>cluster/coordinator_main.cpp\<close>) and applies what is new to
  its own copy of the topology.  Because the applied commands of two nodes are prefixes of
  one another (\<open>Raft_Safety\<close>), so are the coordinators' topologies: one is what the other
  was or will be.
\<close>

section \<open>Applying commands\<close>

definition topology :: "coordinator \<Rightarrow> shard_client list \<times> hash_ring" where
  "topology c = (g_shards c, active_ring c)"

lemma apply_command_topology:
  assumes "topology c = topology d"
  shows "map_option topology (apply_command ep cmd c) = map_option topology (apply_command ep cmd d)"
proof -
  have sh: "g_shards c = g_shards d" "active_ring c = active_ring d" using assms by (simp_all add: topology_def)
  have rb: "active_ring (rebuild_ring (c\<lparr>g_shards := xs\<rparr>)) = active_ring (rebuild_ring (d\<lparr>g_shards := xs\<rparr>))" for xs
    by (simp add: rebuild_ring_def live_shards_def)
  have gs: "g_shards (rebuild_ring e) = g_shards e" for e by (simp add: rebuild_ring_def)
  show ?thesis
    by (simp add: apply_command_def apply_add_shard_def apply_remove_shard_def apply_set_primary_def topology_def sh rb gs
        split: option.splits)
qed

lemma apply_raft_command_topology:
  assumes "topology c = topology d"
  shows "topology (apply_raft_command parse ep cmd c) = topology (apply_raft_command parse ep cmd d)"
proof (cases "parse cmd")
  case None
  with assms show ?thesis by (simp add: apply_raft_command_def)
next
  case (Some j)
  from apply_command_topology [OF assms, of ep j] assms show ?thesis
    by (auto simp: apply_raft_command_def Some split: option.splits)
qed

lemma apply_raft_commands_topology:
  "topology c = topology d \<Longrightarrow> topology (apply_raft_commands parse ep cmds c) = topology (apply_raft_commands parse ep cmds d)"
proof (induction cmds arbitrary: ep c d)
  case (Cons cmd cmds)
  from Cons.IH [OF apply_raft_command_topology [OF Cons.prems]] show ?case by simp
qed simp

lemma apply_raft_commands_append:
  "apply_raft_commands parse ep (xs @ ys) c = apply_raft_commands parse (ep + length xs) ys (apply_raft_commands parse ep xs c)"
  by (induction xs arbitrary: ep c) simp_all

lemma apply_command_frame:
  assumes "apply_command ep cmd c = Some c'"
  shows "g_local_applied_count c' = g_local_applied_count c" "g_snapshot_applied_index c' = g_snapshot_applied_index c"
  using assms
  by (auto simp: apply_command_def apply_add_shard_def apply_remove_shard_def apply_set_primary_def rebuild_ring_def
      split: option.splits if_splits)

lemma apply_raft_commands_frame:
  "g_snapshot_applied_index (apply_raft_commands parse ep cmds c) = g_snapshot_applied_index c"
proof (induction cmds arbitrary: ep c)
  case (Cons cmd cmds)
  have "g_snapshot_applied_index (apply_raft_command parse ep cmd c) = g_snapshot_applied_index c"
    by (auto simp: apply_raft_command_def split: option.splits bind_splits dest: apply_command_frame(2))
  with Cons show ?case by simp
qed simp

section \<open>Polling\<close>

text \<open>
  The states of one node that its coordinator's polls see, up to the current one, since the
  process started: nothing is compacted yet, and what is applied only grows.
\<close>

definition polls_of :: "raft_node list \<Rightarrow> raft_node \<Rightarrow> bool" where
  "polls_of ns n \<longleftrightarrow> ns \<noteq> [] \<and> last ns = n \<and> sorted_wrt prefix (map applied_commands ns) \<and>
     (\<forall>m \<in> set ns. snapshot_last_index (rn_log m) = 0 \<and> length (applied_commands m) < COMPACTION_THRESHOLD)"

text \<open>The coordinator has applied exactly the first \<open>g_local_applied_count\<close> commands of \<open>cmds\<close>.\<close>

definition in_step :: "(string \<Rightarrow> json option) \<Rightarrow> coordinator \<Rightarrow> string list \<Rightarrow> coordinator \<Rightarrow> bool" where
  "in_step parse c0 cmds c \<longleftrightarrow> g_local_applied_count c = length cmds \<and>
     topology c = topology (apply_raft_commands parse 1 cmds c0)"

lemma poll_in_step:
  assumes step: "in_step parse c0 xs c" and pre: "prefix xs (applied_commands n)"
    and n: "snapshot_last_index (rn_log n) = 0" "length (applied_commands n) < COMPACTION_THRESHOLD"
  shows "in_step parse c0 (applied_commands n) (snd (apply_pending_raft_commands parse dump n c))"
proof -
  obtain ys where ys: "applied_commands n = xs @ ys" using pre by (auto simp: prefix_def)
  have cnt: "g_local_applied_count c = length xs" and top: "topology c = topology (apply_raft_commands parse 1 xs c0)"
    using step by (simp_all add: in_step_def)
  have st: "catch_up_snapshot parse (status n) c = c" using n(1) by (simp add: catch_up_snapshot_def status_def)
  let ?c = "c\<lparr>g_raft_commits := u64 (g_raft_commits c + length ys)\<rparr>"
  show ?thesis
  proof (cases "ys = []")
    case True
    with step ys cnt show ?thesis
      by (simp add: apply_pending_raft_commands_def st) (simp add: status_def)
  next
    case False
    have "snd (apply_pending_raft_commands parse dump n c) =
        (apply_raft_commands parse (Suc (length xs)) ys ?c)\<lparr>g_local_applied_count := length xs + length ys\<rparr>"
      using False n cnt ys
      by (simp add: apply_pending_raft_commands_def st) (simp add: apply_new_commands_def status_def Let_def)
    moreover have "topology ?c = topology (apply_raft_commands parse 1 xs c0)" using top by (simp add: topology_def)
    from apply_raft_commands_topology [OF this, of parse "Suc (length xs)" ys]
    have "topology (apply_raft_commands parse (Suc (length xs)) ys ?c) = topology (apply_raft_commands parse 1 (xs @ ys) c0)"
      by (simp add: apply_raft_commands_append)
    ultimately show ?thesis using ys by (simp add: in_step_def topology_def)
  qed
qed

lemma polls_in_step:
  assumes "polls_of ns n" and "in_step parse c0 xs c" and "prefix xs (applied_commands (hd ns))"
  shows "in_step parse c0 (applied_commands n) (apply_runs parse dump ns c)"
  using assms
proof (induction ns arbitrary: xs c)
  case Nil
  then show ?case by (simp add: polls_of_def)
next
  case (Cons m ns)
  have m: "snapshot_last_index (rn_log m) = 0" "length (applied_commands m) < COMPACTION_THRESHOLD"
    using Cons.prems(1) by (simp_all add: polls_of_def)
  let ?c = "snd (apply_pending_raft_commands parse dump m c)"
  have step: "in_step parse c0 (applied_commands m) ?c"
    by (rule poll_in_step [OF Cons.prems(2) _ m]) (use Cons.prems(3) in simp)
  show ?case
  proof (cases "ns = []")
    case True
    with Cons.prems(1) step show ?thesis by (simp add: polls_of_def)
  next
    case False
    then have "polls_of ns n" "prefix (applied_commands m) (applied_commands (hd ns))"
      using Cons.prems(1) by (auto simp: polls_of_def)
    from Cons.IH [OF this(1) step this(2)] show ?thesis by simp
  qed
qed

section \<open>Properties\<close>

text \<open>
  C8: the coordinators agree on the topology.  Two coordinators that started from the same
  configuration, one looked at now and one at any later time of an orderly run, are on the same
  line: the one that has applied more commands has the replicas, roles, epochs and ring that
  the other gets by applying the commands it still lacks, and if they have applied equally
  many, theirs are the same.
\<close>

theorem coordinators_agree:
  assumes "config_ok cfg" and "reachable_by cfg orderly s" and "run_by cfg orderly as s = Some s'"
    and "i \<in> ids cfg" and "j \<in> ids cfg"
    and "polls_of ns (node s i)" and "polls_of ms (node s' j)"
    and "c = apply_runs parse dump ns (start_coordinator eps None)"
    and "d = apply_runs parse dump ms (start_coordinator eps None)"
    and "g_local_applied_count c \<le> g_local_applied_count d"
  shows "topology d = topology (apply_raft_commands parse (Suc (g_local_applied_count c))
    (drop (g_local_applied_count c) (applied_commands (node s' j))) c)"
proof -
  let ?init = "start_coordinator eps None" and ?X = "applied_commands (node s i)" and ?Y = "applied_commands (node s' j)"
  have start: "in_step parse ?init [] ?init" by (simp add: in_step_def start_coordinator_def)
  have c: "in_step parse ?init ?X c" unfolding assms(8) by (rule polls_in_step [OF assms(6) start]) simp
  have d: "in_step parse ?init ?Y d" unfolding assms(9) by (rule polls_in_step [OF assms(7) start]) simp
  have len: "length ?X \<le> length ?Y" and cnt: "g_local_applied_count c = length ?X"
    using c d assms(10) by (simp_all add: in_step_def)
  from applied_comparable [OF assms(1-5)] have "prefix ?X ?Y"
    using len by (auto simp: prefix_def)
  then obtain Z where Z: "?Y = ?X @ Z" by (auto simp: prefix_def)
  have "topology c = topology (apply_raft_commands parse 1 ?X ?init)" using c by (simp add: in_step_def)
  from apply_raft_commands_topology [OF this, of parse "Suc (length ?X)" Z]
  have "topology (apply_raft_commands parse (Suc (length ?X)) Z c) = topology (apply_raft_commands parse 1 ?Y ?init)"
    unfolding Z by (simp add: apply_raft_commands_append)
  with d show ?thesis by (simp add: in_step_def cnt Z)
qed

text \<open>\<open>b\<close> stands for the command that removes shard 0.\<close>

definition removal_parse :: "string \<Rightarrow> json option" where
  "removal_parse text_cmd = (if text_cmd = ''b'' then Some (remove_shard_command 0) else None)"

theorem coordinators_agree_witness:
  "\<exists>s s' c d. run_by sample_peers orderly (elect_run @ commit_run) sample_cluster = Some s \<and>
     run_by sample_peers orderly succession_run s = Some s' \<and>
     c = apply_runs removal_parse (\<lambda>_. '''') [node s 0] (start_coordinator [sample_endpoint 0 0 True, sample_endpoint 1 0 True] None) \<and>
     d = apply_runs removal_parse (\<lambda>_. '''') [node s' 1] (start_coordinator [sample_endpoint 0 0 True, sample_endpoint 1 0 True] None) \<and>
     g_local_applied_count c = 2 \<and> topology d = topology (apply_raft_commands removal_parse 3 [''c''] c)"
proof -
  obtain s s' where s: "run_by sample_peers orderly (elect_run @ commit_run) sample_cluster = Some s"
    "run_by sample_peers orderly succession_run s = Some s'" "applied_commands (node s 0) = [''a'', ''b'']"
    "applied_commands (node s' 1) = [''a'', ''b'', ''c'']"
    by (rule sample_succession)
  have i: "(0::int) \<in> ids sample_peers" "(1::int) \<in> ids sample_peers" by (simp_all add: sample_peers_def)
  note r = sample_reachable_by [OF s(1)]
  have r': "reachable_by sample_peers orderly s'" using run_by_reachable [OF s(2) r] .
  obtain h h' :: history where "match_inv sample_peers (reigns_of h) s" "match_inv sample_peers (reigns_of h') s'"
    using reachable_safe [OF r sample_config_ok] reachable_safe [OF r' sample_config_ok] by blast
  from match_nodeD [OF this(1) i(1)] match_nodeD [OF this(2) i(2)]
  have p: "polls_of [node s 0] (node s 0)" "polls_of [node s' 1] (node s' 1)"
    using s(3,4) by (simp_all add: polls_of_def node_match_def COMPACTION_THRESHOLD_def)
  let ?init = "start_coordinator [sample_endpoint 0 0 True, sample_endpoint 1 0 True] None"
  have start: "in_step removal_parse ?init [] ?init" by (simp add: in_step_def start_coordinator_def)
  let ?c = "apply_runs removal_parse (\<lambda>_. '''') [node s 0] ?init"
  let ?d = "apply_runs removal_parse (\<lambda>_. '''') [node s' 1] ?init"
  have "in_step removal_parse ?init [''a'', ''b''] ?c" "in_step removal_parse ?init [''a'', ''b'', ''c''] ?d"
    using polls_in_step [OF p(1) start] polls_in_step [OF p(2) start] s(3,4) by simp_all
  then have cnt: "g_local_applied_count ?c = 2" "g_local_applied_count ?d = 3" by (simp_all add: in_step_def)
  then have "g_local_applied_count ?c \<le> g_local_applied_count ?d" by linarith
  from coordinators_agree [OF sample_config_ok r s(2) i p refl refl this]
  have "topology ?d = topology (apply_raft_commands removal_parse 3 [''c''] ?c)"
    unfolding cnt s(4) by (simp add: numeral_eq_Suc)
  with s cnt show ?thesis by blast
qed

end
