(* ===== verification/Coordinator_Api.thy ===== *)
theory Coordinator_Api
  imports Coordinator
begin

text \<open>
  \<^verbatim>\<open>cluster/coordinator_main.cpp\<close>, the data path and the admin handlers: quorum writes,
  migration of keys, the health check with its failover, the merge of search results, and
  the HTTP handlers.  What the network answers is a parameter (a function from the call to
  its result), as are JSON text, the conversion of a JSON number to \<open>float\<close>, and the result
  of \<open>propose\<close>.
\<close>

section \<open>Quorum writes\<close>

record 'f insert_request =
  ir_external_id :: string
  ir_vector :: "'f list"
  ir_metadata :: string
  ir_epoch :: nat

record delete_request =
  dr_external_id :: string
  dr_epoch :: nat

record quorum_result =
  qr_ok :: bool
  acks :: nat
  needed :: nat

text \<open>
  The second half of both functions: the answers in order, \<open>primary_idx\<close> being the last
  primary of the list.
\<close>

definition primary_idx :: "shard_client list \<Rightarrow> nat option" where
  "primary_idx replicas =
     fold (\<lambda>(i, sc) p. if is_primary sc then Some i else p) (enumerate 0 replicas) None"

definition quorum_outcome :: "shard_client list \<Rightarrow> bool list \<Rightarrow> quorum_result" where
  "quorum_outcome replicas oks =
     (let n_acks = length (filter id oks);
          primary_ok = (case primary_idx replicas of None \<Rightarrow> False | Some i \<Rightarrow> oks ! i);
          n_needed = length replicas div 2 + 1
      in \<lparr>qr_ok = (primary_ok \<and> n_acks \<ge> n_needed), acks = n_acks, needed = n_needed\<rparr>)"

text \<open>
  A call to replica number \<open>i\<close> gives \<open>None\<close> if the status is not OK, else the \<open>ok\<close> of the
  response.
\<close>

definition quorum_insert ::
  "(nat \<Rightarrow> shard_client \<Rightarrow> 'f insert_request \<Rightarrow> bool option) \<Rightarrow> shard_client list \<Rightarrow> string \<Rightarrow> 'f list \<Rightarrow> string
   \<Rightarrow> quorum_result" where
  "quorum_insert rpc replicas external_id vec metadata =
     quorum_outcome replicas
       (map (\<lambda>(i, sc). rpc i sc \<lparr>ir_external_id = external_id, ir_vector = vec, ir_metadata = metadata,
                                 ir_epoch = epoch sc\<rparr> = Some True) (enumerate 0 replicas))"

definition quorum_delete ::
  "(nat \<Rightarrow> shard_client \<Rightarrow> delete_request \<Rightarrow> bool option) \<Rightarrow> shard_client list \<Rightarrow> string \<Rightarrow> quorum_result" where
  "quorum_delete rpc replicas external_id =
     quorum_outcome replicas
       (map (\<lambda>(i, sc). rpc i sc \<lparr>dr_external_id = external_id, dr_epoch = epoch sc\<rparr> = Some True)
          (enumerate 0 replicas))"

section \<open>Migration\<close>

text \<open>
  The calls one migration makes, in order, and whether it counts as migrated.  \<open>get_rpc\<close> is the
  answer of \<open>GetVector\<close>: \<open>None\<close> if the call fails or says not ok.
\<close>

datatype 'f rpc_call =
    CallGet shard_client string
  | CallInsert "shard_client list" string "'f list" string
  | CallDelete "shard_client list" string

definition migrate_one_key ::
  "(shard_client \<Rightarrow> string \<Rightarrow> ('f list \<times> string) option) \<Rightarrow>
   (nat \<Rightarrow> shard_client \<Rightarrow> 'f insert_request \<Rightarrow> bool option) \<Rightarrow>
   shard_client \<Rightarrow> shard_client list \<Rightarrow> shard_client list \<Rightarrow> string \<Rightarrow> bool \<times> 'f rpc_call list" where
  "migrate_one_key get_rpc ins_rpc source_primary source_replicas dest_replicas external_id =
     (case get_rpc source_primary external_id of
        None \<Rightarrow> (False, [CallGet source_primary external_id])
      | Some (vec, metadata) \<Rightarrow>
          let calls = [CallGet source_primary external_id, CallInsert dest_replicas external_id vec metadata]
          in if qr_ok (quorum_insert ins_rpc dest_replicas external_id vec metadata)
             then (True, calls @ [CallDelete source_replicas external_id])
             else (False, calls))"

section \<open>Failover\<close>

definition FAILURES_BEFORE_FAILOVER :: int where "FAILURES_BEFORE_FAILOVER = 3"

text \<open>
  The candidate: over the replicas in order, the primary left out, the first with the
  highest element count among those whose \<open>Stats\<close> call (\<open>None\<close>: failed) answers.
\<close>

definition choose_candidate ::
  "(shard_client \<Rightarrow> nat option) \<Rightarrow> shard_client \<Rightarrow> shard_client list \<Rightarrow> (shard_client \<times> nat) option" where
  "choose_candidate stats primary replicas =
     fold (\<lambda>r best.
       if r = primary then best
       else case stats r of
              None \<Rightarrow> best
            | Some cnt \<Rightarrow> (case best of
                None \<Rightarrow> Some (r, cnt)
              | Some (b, bc) \<Rightarrow> if cnt > bc then Some (r, cnt) else best)) replicas None"

text \<open>
  One pass of \<open>health_check_loop\<close> over one shard id: the new failure counters, and the
  promotion to propose, if any.
\<close>

definition health_check_shard ::
  "(shard_client \<Rightarrow> bool) \<Rightarrow> (shard_client \<Rightarrow> nat option) \<Rightarrow> shard_client list \<Rightarrow> int \<Rightarrow> (int, int) omap
   \<Rightarrow> (int, int) omap \<times> (int \<times> int) option" where
  "health_check_shard ping stats pool sid failures =
     (case find_primary pool sid of
        None \<Rightarrow> (failures, None)
      | Some primary \<Rightarrow>
          if ping primary then (om_set sid 0 failures, None)
          else
            let n = om_at failures sid + 1; failures = om_set sid n failures
            in if n < FAILURES_BEFORE_FAILOVER then (failures, None)
               else (case choose_candidate stats primary (replicas_for_shard pool sid) of
                       None \<Rightarrow> (failures, None)
                     | Some (candidate, _) \<Rightarrow> (om_set sid 0 failures, Some (sid, replica_id candidate))))"

fun health_check_round ::
  "(shard_client \<Rightarrow> bool) \<Rightarrow> (shard_client \<Rightarrow> nat option) \<Rightarrow> shard_client list \<Rightarrow> int list \<Rightarrow> (int, int) omap
   \<Rightarrow> (int, int) omap \<times> (int \<times> int) list" where
  "health_check_round ping stats pool [] failures = (failures, [])"
| "health_check_round ping stats pool (sid # sids) failures =
     (let (failures, p) = health_check_shard ping stats pool sid failures;
          (failures, ps) = health_check_round ping stats pool sids failures
      in (failures, (case p of None \<Rightarrow> ps | Some x \<Rightarrow> x # ps)))"

definition health_check ::
  "(shard_client \<Rightarrow> bool) \<Rightarrow> (shard_client \<Rightarrow> nat option) \<Rightarrow> raft_node \<Rightarrow> coordinator \<Rightarrow> (int, int) omap
   \<Rightarrow> (int, int) omap \<times> (int \<times> int) list" where
  "health_check ping stats n c failures =
     (if st_role (status n) \<noteq> ''leader'' then (failures, [])
      else health_check_round ping stats (live_shards c) (shard_ids (live_shards c)) failures)"

section \<open>Merging search results\<close>

record 'd search_hit =
  hit_id :: string
  distance :: 'd
  hit_metadata :: string

text \<open>The loop over the answers of the shards; \<open>None\<close> is a call that failed or said not ok.\<close>

fun merge_responses :: "(int \<times> 'd search_hit list option) list \<Rightarrow> 'd search_hit list \<times> int list" where
  "merge_responses [] = ([], [])"
| "merge_responses ((sid, res) # rest) =
     (let (merged, unavailable) = merge_responses rest
      in case res of None \<Rightarrow> (merged, sid # unavailable) | Some hits \<Rightarrow> (hits @ merged, unavailable))"

text \<open>
  The loop that drops repeated ids.  The size is compared with \<open>(size_t)k\<close> after each
  insertion, so a negative \<open>k\<close> is huge and \<open>k = 0\<close> stops after the first hit.
\<close>

fun dedupe :: "nat \<Rightarrow> string set \<Rightarrow> 'd search_hit list \<Rightarrow> 'd search_hit list \<Rightarrow> 'd search_hit list" where
  "dedupe k seen deduped [] = deduped"
| "dedupe k seen deduped (r # rs) =
     (if hit_id r \<in> seen then dedupe k seen deduped rs
      else
        let deduped = deduped @ [r]
        in if length deduped \<ge> k then deduped else dedupe k (insert (hit_id r) seen) deduped rs)"

definition size_of_k :: "int \<Rightarrow> nat" where
  "size_of_k k = nat (k mod 2 ^ 64)"

section \<open>Quorums\<close>

lemma primary_idx_snoc:
  "primary_idx (replicas @ [sc]) = (if is_primary sc then Some (length replicas) else primary_idx replicas)"
  by (simp add: primary_idx_def enumerate_append_eq)

lemma primary_idx_SomeD:
  "primary_idx replicas = Some i \<Longrightarrow> i < length replicas \<and> is_primary (replicas ! i)"
  by (induction replicas rule: rev_induct)
     (simp_all add: primary_idx_def [of "[]"] primary_idx_snoc nth_append split: if_splits)

lemma primary_idx_None: "primary_idx replicas = None \<longleftrightarrow> (\<forall>sc \<in> set replicas. \<not> is_primary sc)"
  by (induction replicas rule: rev_induct)
     (simp_all add: primary_idx_def [of "[]"] primary_idx_snoc)

lemma quorum_outcome_iff:
  assumes "length oks = length replicas"
  shows "qr_ok (quorum_outcome replicas oks) \<longleftrightarrow>
    (\<exists>i. primary_idx replicas = Some i \<and> oks ! i) \<and>
    majority_of {..<length replicas} {i. i < length replicas \<and> oks ! i}"
proof -
  have "length (filter id oks) = card {i. i < length replicas \<and> oks ! i}"
    using assms by (simp add: length_filter_conv_card)
  moreover have "{i. i < length replicas \<and> oks ! i} \<subseteq> {..<length replicas}" by auto
  ultimately show ?thesis
    by (simp add: quorum_outcome_def majority_of_def majority_def Let_def split: option.splits)
qed

section \<open>The failover candidate\<close>

lemma choose_candidate_snoc:
  "choose_candidate stats p (rs @ [r]) =
     (let best = choose_candidate stats p rs in
      if r = p then best
      else case stats r of
             None \<Rightarrow> best
           | Some cnt \<Rightarrow> (case best of
               None \<Rightarrow> Some (r, cnt)
             | Some (b, bc) \<Rightarrow> if cnt > bc then Some (r, cnt) else best))"
  by (simp add: choose_candidate_def Let_def)

lemma choose_candidate_spec:
  "case choose_candidate stats p rs of
     None \<Rightarrow> \<forall>r \<in> set rs. r = p \<or> stats r = None
   | Some (r, cnt) \<Rightarrow> r \<in> set rs \<and> r \<noteq> p \<and> stats r = Some cnt \<and>
       (\<forall>r' \<in> set rs. \<forall>cnt'. r' \<noteq> p \<and> stats r' = Some cnt' \<longrightarrow> cnt' \<le> cnt)"
proof (induction rs rule: rev_induct)
  case Nil
  then show ?case by (simp add: choose_candidate_def)
next
  case (snoc r rs)
  show ?case
  proof (cases "r = p \<or> stats r = None")
    case True
    with snoc.IH show ?thesis by (auto simp: choose_candidate_snoc Let_def split: option.splits)
  next
    case False
    then obtain cnt where r: "r \<noteq> p" "stats r = Some cnt" by auto
    show ?thesis
    proof (cases "choose_candidate stats p rs")
      case None
      with snoc.IH r show ?thesis by (auto simp: choose_candidate_snoc Let_def)
    next
      case (Some best)
      with snoc.IH r show ?thesis
        by (cases best) (auto simp: choose_candidate_snoc Let_def intro: order_trans)
    qed
  qed
qed

section \<open>First occurrences\<close>

fun firsts :: "string set \<Rightarrow> 'd search_hit list \<Rightarrow> 'd search_hit list" where
  "firsts seen [] = []"
| "firsts seen (r # rs) = (if hit_id r \<in> seen then firsts seen rs else r # firsts (insert (hit_id r) seen) rs)"

lemma dedupe_firsts:
  "length acc < max 1 k \<Longrightarrow> dedupe k seen acc rs = acc @ take (max 1 k - length acc) (firsts seen rs)"
proof (induction rs arbitrary: seen acc)
  case (Cons r rs)
  show ?case
  proof (cases "hit_id r \<in> seen")
    case True
    with Cons show ?thesis by simp
  next
    case False
    show ?thesis
    proof (cases "k \<le> Suc (length acc)")
      case True
      with False Cons.prems have "max 1 k - length acc = 1" by auto
      with False True show ?thesis by simp
    next
      case more: False
      then have "max 1 k - length acc = Suc (max 1 k - length (acc @ [r]))" by auto
      with False more Cons.IH [of "acc @ [r]" "insert (hit_id r) seen"] show ?thesis by simp
    qed
  qed
qed simp

lemma hit_ids_firsts: "hit_id ` set (firsts seen rs) = hit_id ` set rs - seen"
  by (induction rs arbitrary: seen) auto

lemma distinct_firsts: "distinct (map hit_id (firsts seen rs))"
proof (induction rs arbitrary: seen)
  case (Cons r rs)
  have "hit_id r \<notin> hit_id ` set (firsts (insert (hit_id r) seen) rs)" by (simp add: hit_ids_firsts)
  with Cons show ?case by auto
qed simp

lemma set_firsts: "set (firsts seen rs) \<subseteq> set rs"
  by (induction rs arbitrary: seen) auto

lemma sorted_firsts: "sorted (map distance rs) \<Longrightarrow> sorted (map distance (firsts seen rs))"
proof (induction rs arbitrary: seen)
  case (Cons r rs)
  then show ?case using set_firsts [of "insert (hit_id r) seen" rs] by auto
qed simp

text \<open>In a sorted list the first hit of an id is its closest.\<close>

lemma firsts_closest:
  assumes "sorted (map distance rs)" and "r \<in> set (firsts seen rs)" and "r' \<in> set rs" and "hit_id r' = hit_id r"
  shows "distance r \<le> distance r'"
  using assms
proof (induction rs arbitrary: seen)
  case (Cons x rs)
  show ?case
  proof (cases "hit_id x \<in> seen")
    case True
    have "hit_id r \<notin> seen" using Cons.prems(2) hit_ids_firsts [of seen "x # rs"] by blast
    with True Cons.prems(4) have "r' \<noteq> x" by auto
    with True Cons show ?thesis by auto
  next
    case False
    have "hit_id x \<notin> hit_id ` set (firsts (insert (hit_id x) seen) rs)" by (simp add: hit_ids_firsts)
    then show ?thesis
      using False Cons.prems Cons.IH [of "insert (hit_id x) seen"] by auto
  qed
qed simp

section \<open>Properties of the data path\<close>

text \<open>
  What a successful write means.  \<open>quorum_insert\<close> reports success exactly if the primary
  (the last one marked so, if several are) acknowledged the request with its own epoch, and
  the replicas that acknowledged are a majority of the replica set; the numbers it reports are the
  acknowledgements and that majority.
\<close>

lemma quorum_insert_success:
  "let req = (\<lambda>i. \<lparr>ir_external_id = key, ir_vector = vec, ir_metadata = md, ir_epoch = epoch (replicas ! i)\<rparr>);
       acked = {i. i < length replicas \<and> rpc i (replicas ! i) (req i) = Some True};
       result = quorum_insert rpc replicas key vec md
   in acks result = card acked \<and> needed result = majority (length replicas) \<and>
      qr_ok result = ((\<exists>i. primary_idx replicas = Some i \<and> i \<in> acked) \<and> majority_of {..<length replicas} acked)"
proof -
  let ?req = "\<lambda>i. \<lparr>ir_external_id = key, ir_vector = vec, ir_metadata = md, ir_epoch = epoch (replicas ! i)\<rparr>"
  let ?acked = "{i. i < length replicas \<and> rpc i (replicas ! i) (?req i) = Some True}"
  let ?oks = "map (\<lambda>(i, sc). rpc i sc \<lparr>ir_external_id = key, ir_vector = vec, ir_metadata = md,
      ir_epoch = epoch sc\<rparr> = Some True) (enumerate 0 replicas)"
  have len: "length ?oks = length replicas" by simp
  have nth: "?oks ! i = (rpc i (replicas ! i) (?req i) = Some True)" if "i < length replicas" for i
    using that by (simp add: nth_enumerate_eq)
  then have set: "{i. i < length replicas \<and> ?oks ! i} = ?acked" by blast
  have "length (filter id ?oks) = card {i. i < length ?oks \<and> id (?oks ! i)}" by (rule length_filter_conv_card)
  then have cnt: "length (filter id ?oks) = card ?acked" using set unfolding len by simp
  have "acks (quorum_insert rpc replicas key vec md) = card ?acked"
    "needed (quorum_insert rpc replicas key vec md) = majority (length replicas)"
    using cnt by (simp_all add: quorum_insert_def quorum_outcome_def majority_def Let_def)
  moreover have "qr_ok (quorum_insert rpc replicas key vec md) \<longleftrightarrow>
      (\<exists>i. primary_idx replicas = Some i \<and> ?oks ! i) \<and> majority_of {..<length replicas} ?acked"
    using quorum_outcome_iff [OF len] set by (simp add: quorum_insert_def)
  moreover have "(\<exists>i. primary_idx replicas = Some i \<and> ?oks ! i) \<longleftrightarrow> (\<exists>i. primary_idx replicas = Some i \<and> i \<in> ?acked)"
    using nth primary_idx_SomeD by blast
  ultimately show ?thesis by (simp add: Let_def)
qed

text \<open>
  Two successful writes meet.  Whatever happened to roles and epochs between them, two
  successful quorum operations on the same replicas (an insert and a later delete) were both acknowledged by some
  replica.
\<close>

lemma quorum_writes_meet:
  assumes "length replicas = length replicas'"
    and "qr_ok (quorum_insert rpc replicas key vec md)" and "qr_ok (quorum_delete rpc' replicas' key')"
  shows "\<exists>i < length replicas.
    rpc i (replicas ! i) \<lparr>ir_external_id = key, ir_vector = vec, ir_metadata = md, ir_epoch = epoch (replicas ! i)\<rparr> = Some True \<and>
    rpc' i (replicas' ! i) \<lparr>dr_external_id = key', dr_epoch = epoch (replicas' ! i)\<rparr> = Some True"
proof -
  let ?oks = "map (\<lambda>(i, sc). rpc i sc \<lparr>ir_external_id = key, ir_vector = vec, ir_metadata = md,
      ir_epoch = epoch sc\<rparr> = Some True) (enumerate 0 replicas)"
  let ?oks' = "map (\<lambda>(i, sc). rpc' i sc \<lparr>dr_external_id = key', dr_epoch = epoch sc\<rparr> = Some True) (enumerate 0 replicas')"
  have "majority_of {..<length replicas} {i. i < length replicas \<and> ?oks ! i}"
    using assms(2) quorum_outcome_iff [of ?oks replicas] by (simp add: quorum_insert_def)
  moreover have "majority_of {..<length replicas} {i. i < length replicas \<and> ?oks' ! i}"
    using assms(1,3) quorum_outcome_iff [of ?oks' replicas'] by (simp add: quorum_delete_def)
  ultimately have "{i. i < length replicas \<and> ?oks ! i} \<inter> {i. i < length replicas \<and> ?oks' ! i} \<noteq> {}"
    by (rule maj.quorums_meet)
  then obtain i where "i < length replicas" "?oks ! i" "?oks' ! i" by blast
  with assms(1) show ?thesis by (auto simp: nth_enumerate_eq)
qed

text \<open>
  A failover promotes the fullest reachable replica.  The health check proposes a
  promotion only for a shard whose primary did not answer, at the third miss in a row or
  later; the replica it names is active, belongs to the shard, is not the primary,
  answered, and no other such replica that answered holds more elements; the miss counter
  is then reset.
\<close>

lemma failover_promotes_fullest:
  assumes "health_check_shard ping stats pool sid failures = (failures', Some (sid', rid))"
    and "om_wf failures"
  shows "sid' = sid \<and> FAILURES_BEFORE_FAILOVER \<le> om_at failures sid + 1 \<and> om_at failures' sid = 0 \<and>
    (\<exists>primary r cnt. find_primary pool sid = Some primary \<and> \<not> ping primary \<and>
       r \<in> set pool \<and> shard_id r = sid \<and> r \<noteq> primary \<and> replica_id r = rid \<and> stats r = Some cnt \<and>
       (\<forall>r' \<in> set pool. \<forall>cnt'. shard_id r' = sid \<and> r' \<noteq> primary \<and> stats r' = Some cnt' \<longrightarrow> cnt' \<le> cnt))"
proof -
  obtain primary where p: "find_primary pool sid = Some primary" "\<not> ping primary"
    using assms(1) by (auto simp: health_check_shard_def split: option.splits if_splits)
  let ?rs = "replicas_for_shard pool sid"
  have rs: "set ?rs = {r \<in> set pool. shard_id r = sid}" by (rule set_replicas_for_shard)
  obtain r cnt where c: "choose_candidate stats primary ?rs = Some (r, cnt)"
    and rest: "sid' = sid" "rid = replica_id r" "FAILURES_BEFORE_FAILOVER \<le> om_at failures sid + 1"
      "failures' = om_set sid 0 (om_set sid (om_at failures sid + 1) failures)"
    using assms(1) p by (auto simp: health_check_shard_def Let_def split: option.splits if_splits)
  from choose_candidate_spec [where stats = stats and p = primary and rs = ?rs]
  have "r \<in> set pool \<and> shard_id r = sid \<and> r \<noteq> primary \<and> stats r = Some cnt \<and>
      (\<forall>r' \<in> set pool. \<forall>cnt'. shard_id r' = sid \<and> r' \<noteq> primary \<and> stats r' = Some cnt' \<longrightarrow> cnt' \<le> cnt)"
    unfolding c rs by auto
  moreover have "om_at failures' sid = 0" using assms(2) by (simp add: rest(4) om_at_set)
  ultimately show ?thesis using p rest by auto
qed

end
