(* ===== verification/Coordinator_Http.thy ===== *)
theory Coordinator_Http
  imports Coordinator_Api
begin

text \<open>
  \<^verbatim>\<open>cluster/coordinator_main.cpp\<close>, the HTTP handlers.  A handler maps the request and the
  coordinator (and, where it proposes, the Raft node) to the response and the coordinator
  afterwards.  What the network answers, JSON text, the conversion of a JSON number to
  \<open>float\<close> and the result of \<open>propose\<close> are parameters.
\<close>

section \<open>HTTP handlers\<close>

text \<open>
  A response: the status and a document.  \<open>InvalidJson\<close> stands for the text made from the
  library's exception message, \<open>ErrorText\<close> for any \<open>what()\<close> put into a document.
\<close>

datatype content = Doc json | InvalidJson | ErrorText

record http_response =
  http_status :: int
  content :: content

definition error_doc :: "int \<Rightarrow> string \<Rightarrow> http_response" where
  "error_doc st msg = \<lparr>http_status = st, content = Doc (JObj [(''error'', JStr msg)])\<rparr>"

definition invalid_json :: http_response where
  "invalid_json = \<lparr>http_status = 400, content = InvalidJson\<rparr>"

text \<open>\<open>body["id"]\<close> as a string: itself, or the decimal of a number.\<close>

definition read_external_id :: "json \<Rightarrow> string option" where
  "read_external_id j =
     (case json_at ''id'' j of
        None \<Rightarrow> None
      | Some (JStr s) \<Rightarrow> Some s
      | Some v \<Rightarrow> map_option to_string (get_signed 64 v))"

text \<open>
  \<open>POST /vectors\<close>.  The second component says which of the two insert counters went up.  On an
  empty ring \<open>route\<close> is undefined.
\<close>

definition handle_insert ::
  "(string \<Rightarrow> json option) \<Rightarrow> (json \<Rightarrow> 'f option) \<Rightarrow> (nat \<Rightarrow> shard_client \<Rightarrow> 'f insert_request \<Rightarrow> bool option) \<Rightarrow>
   string \<Rightarrow> coordinator \<Rightarrow> (http_response \<times> bool) outcome" where
  "handle_insert parse get_float rpc body c =
     (if rebalancing c then Returns (error_doc 503 ''cluster is rebalancing, try again shortly'', False)
      else case parse body of
        None \<Rightarrow> Returns (invalid_json, False)
      | Some j \<Rightarrow>
          if \<not> contains ''id'' j \<or> \<not> contains ''vector'' j
          then Returns (error_doc 400 ''missing required fields: id, vector'', False)
          else case read_external_id j of
            None \<Rightarrow> Returns (invalid_json, False)
          | Some key \<Rightarrow> (case route (ring_snapshot c) key of
              None \<Rightarrow> Undefined
            | Some sid \<Rightarrow>
                let replicas = replicas_for_shard (live_shards c) sid in
                if replicas = [] then Returns (error_doc 503 ''destination shard unavailable'', False)
                else case Option.bind (json_at ''vector'' j) (\<lambda>v. map_throw get_float (json_items v)) of
                  None \<Rightarrow> Returns (invalid_json, False)
                | Some vec \<Rightarrow> (case json_value ''metadata'' get_string '''' j of
                    None \<Rightarrow> Returns (invalid_json, False)
                  | Some md \<Rightarrow>
                      let r = quorum_insert rpc replicas key vec md;
                          counts = [(''acks'', JInt (int (acks r)))]
                      in if \<not> qr_ok r
                         then Returns (\<lparr>http_status = 502, content = Doc (JObj (counts @
                                [(''error'', JStr ''write quorum not met''), (''needed'', JInt (int (needed r))),
                                 (''shard'', JInt sid)]))\<rparr>, False)
                         else Returns (\<lparr>http_status = 201, content = Doc (JObj (counts @
                                [(''id'', JStr key), (''needed'', JInt (int (needed r))), (''shard'', JInt sid),
                                 (''status'', JStr ''ok'')]))\<rparr>, True))))"

text \<open>\<open>DELETE /vectors/<id>\<close>.\<close>

definition handle_delete ::
  "(nat \<Rightarrow> shard_client \<Rightarrow> delete_request \<Rightarrow> bool option) \<Rightarrow> string \<Rightarrow> coordinator \<Rightarrow> (http_response \<times> bool) outcome" where
  "handle_delete rpc key c =
     (if rebalancing c then Returns (error_doc 503 ''cluster is rebalancing, try again shortly'', False)
      else case route (ring_snapshot c) key of
        None \<Rightarrow> Undefined
      | Some sid \<Rightarrow>
          let replicas = replicas_for_shard (live_shards c) sid in
          if replicas = [] then Returns (error_doc 503 ''destination shard unavailable'', False)
          else
            let r = quorum_delete rpc replicas key;
                counts = [(''acks'', JInt (int (acks r)))]
            in if \<not> qr_ok r
               then Returns (\<lparr>http_status = 404, content = Doc (JObj (counts @
                      [(''error'', JStr ''not found, or delete quorum not met''), (''needed'', JInt (int (needed r)))]))\<rparr>, False)
               else Returns (\<lparr>http_status = 200, content = Doc (JObj (counts @
                      [(''id'', JStr key), (''needed'', JInt (int (needed r))), (''status'', JStr ''ok'')]))\<rparr>, True))"

text \<open>
  \<open>POST /search\<close>: an error response, or the results with the shards that did not answer (the
  document is degraded exactly if there are any).  \<open>std::sort\<close> may permute hits at equal
  distance; the stable order stands for it.  Distances are taken as linearly ordered: with a
  NaN among them the comparison is no order and \<open>std::sort\<close> is undefined.
\<close>

record 'd search_response =
  results :: "'d search_hit list"
  used_consistency :: string
  unavailable_shards :: "int list"

definition handle_search ::
  "(string \<Rightarrow> json option) \<Rightarrow> (json \<Rightarrow> 'f option) \<Rightarrow>
   (shard_client \<Rightarrow> 'f list \<Rightarrow> int \<Rightarrow> 'd::linorder search_hit list option) \<Rightarrow>
   string \<Rightarrow> coordinator \<Rightarrow> http_response + 'd search_response" where
  "handle_search parse get_float rpc body c =
     (case parse body of
        None \<Rightarrow> Inl invalid_json
      | Some j \<Rightarrow>
          if \<not> contains ''vector'' j \<or> \<not> contains ''k'' j
          then Inl (error_doc 400 ''missing required fields: vector, k'')
          else case Option.bind (json_at ''k'' j) get_int of
            None \<Rightarrow> Inl invalid_json
          | Some k \<Rightarrow> (case Option.bind (json_at ''vector'' j) (\<lambda>v. map_throw get_float (json_items v)) of
              None \<Rightarrow> Inl invalid_json
            | Some vec \<Rightarrow> (case json_value ''consistency'' get_string ''eventual'' j of
                None \<Rightarrow> Inl invalid_json
              | Some consistency \<Rightarrow>
                  let pool = select_read_targets (live_shards c) consistency;
                      (merged, unavailable) = merge_responses (map (\<lambda>sc. (shard_id sc, rpc sc vec k)) pool)
                  in Inr \<lparr>results = dedupe (size_of_k k) {} [] (sort_key distance merged),
                          used_consistency = consistency, unavailable_shards = unavailable\<rparr>)))"

section \<open>Admin handlers\<close>

text \<open>The first checks of the three handlers: Raft is on and this node leads.\<close>

definition not_leader :: "raft_node option \<Rightarrow> http_response option" where
  "not_leader raft =
     (case raft of
        None \<Rightarrow> Some (error_doc 400 ''raft is not enabled on this coordinator'')
      | Some n \<Rightarrow>
          if st_role (status n) \<noteq> ''leader''
          then Some \<lparr>http_status = 503, content = Doc (JObj [(''error'', JStr ''not the leader''),
                      (''leader_id'', JInt (st_leader_id (status n)))])\<rparr>
          else None)"

text \<open>
  \<open>POST /admin/shards/set_primary\<close>.  \<open>propose\<close> is what the call returned and \<open>n'\<close> the node
  as it is when the handler applies what was committed.
\<close>

definition handle_set_primary ::
  "(string \<Rightarrow> json option) \<Rightarrow> (json \<Rightarrow> string) \<Rightarrow> (string \<Rightarrow> bool) \<Rightarrow> raft_node \<Rightarrow> string \<Rightarrow> raft_node option \<Rightarrow>
   coordinator \<Rightarrow> http_response \<times> coordinator" where
  "handle_set_primary parse dump propose n' body raft c =
     (case not_leader raft of
        Some r \<Rightarrow> (r, c)
      | None \<Rightarrow> (case parse body of
          None \<Rightarrow> (\<lparr>http_status = 400, content = ErrorText\<rparr>, c)
        | Some j \<Rightarrow> (case (Option.bind (json_at ''shard_id'' j) get_int, Option.bind (json_at ''replica_id'' j) get_int) of
            (Some sid, Some rid) \<Rightarrow>
              if \<exists>sc \<in> set (replicas_for_shard (live_shards c) sid). replica_id sc = rid
              then if propose (dump (set_primary_command sid rid))
                   then (\<lparr>http_status = 200, content = Doc (JObj [(''primary_replica_id'', JInt rid),
                            (''shard_id'', JInt sid), (''status'', JStr ''ok'')])\<rparr>,
                         snd (apply_pending_raft_commands parse dump n' c))
                   else (error_doc 503 ''raft proposal did not commit, lost leadership or timed out'', c)
              else (error_doc 404 ''no such active replica for this shard'', c)
          | _ \<Rightarrow> (\<lparr>http_status = 400, content = ErrorText\<rparr>, c))))"

text \<open>The inner loop of the two rebalancing handlers: migrated and failed keys, and the calls made.\<close>

fun migrate_keys ::
  "(string \<Rightarrow> bool \<times> 'f rpc_call list) \<Rightarrow> string list \<Rightarrow> (nat \<times> nat) \<times> 'f rpc_call list" where
  "migrate_keys migrate [] = ((0, 0), [])"
| "migrate_keys migrate (key # keys) =
     (let (ok, calls) = migrate key; ((m, f), more) = migrate_keys migrate keys
      in (if ok then (Suc m, f) else (m, Suc f), calls @ more))"

text \<open>The loop of \<open>/admin/shards/add\<close> over the source shards.\<close>

fun migrate_sources ::
  "(shard_client \<Rightarrow> string list option) \<Rightarrow> (shard_client \<Rightarrow> string \<Rightarrow> ('f list \<times> string) option) \<Rightarrow>
   (nat \<Rightarrow> shard_client \<Rightarrow> 'f insert_request \<Rightarrow> bool option) \<Rightarrow> hash_ring \<Rightarrow> int \<Rightarrow> shard_client list \<Rightarrow> int list \<Rightarrow>
   (nat \<times> nat) \<times> 'f rpc_call list" where
  "migrate_sources list_rpc get_rpc ins_rpc new_ring new_id pool [] = ((0, 0), [])"
| "migrate_sources list_rpc get_rpc ins_rpc new_ring new_id pool (sid # sids) =
     (let ((m, f), calls) =
            (case find_primary pool sid of
               None \<Rightarrow> ((0, 0), [])
             | Some primary \<Rightarrow> (case list_rpc primary of
                 None \<Rightarrow> ((0, 0), [])
               | Some keys \<Rightarrow>
                   migrate_keys (migrate_one_key get_rpc ins_rpc primary (replicas_for_shard pool sid)
                       (replicas_for_shard pool new_id))
                     (filter (\<lambda>key. route new_ring key = Some new_id) keys)));
          ((m', f'), more) = migrate_sources list_rpc get_rpc ins_rpc new_ring new_id pool sids
      in ((m + m', f + f'), calls @ more))"


text \<open>
  \<open>POST /admin/shards/add\<close>.  The result also has the migration calls made.  The flag is
  taken with a compare-exchange and given back on every way out.
\<close>

definition handle_add_shard ::
  "(string \<Rightarrow> json option) \<Rightarrow> (json \<Rightarrow> string) \<Rightarrow> (string \<Rightarrow> bool) \<Rightarrow> raft_node \<Rightarrow>
   (shard_client \<Rightarrow> string list option) \<Rightarrow> (shard_client \<Rightarrow> string \<Rightarrow> ('f list \<times> string) option) \<Rightarrow>
   (nat \<Rightarrow> shard_client \<Rightarrow> 'f insert_request \<Rightarrow> bool option) \<Rightarrow>
   string \<Rightarrow> raft_node option \<Rightarrow> coordinator \<Rightarrow> http_response \<times> coordinator \<times> 'f rpc_call list" where
  "handle_add_shard parse dump propose n' list_rpc get_rpc ins_rpc body raft c =
     (case not_leader raft of
        Some r \<Rightarrow> (r, c, [])
      | None \<Rightarrow>
          if rebalancing c then (error_doc 409 ''a rebalance is already in progress'', c, [])
          else
            let c = c\<lparr>rebalancing := True\<rparr>;
                fail = (\<lambda>r. (r, c\<lparr>rebalancing := False\<rparr>, []));
                thrown = fail \<lparr>http_status = 400, content = ErrorText\<rparr>
            in case parse body of
                 None \<Rightarrow> thrown
               | Some j \<Rightarrow> (case Option.bind (json_at ''shard_id'' j) get_int of
                   None \<Rightarrow> thrown
                 | Some new_id \<Rightarrow> (case json_at ''replicas'' j of
                     None \<Rightarrow> fail (error_doc 400 ''replicas must be a non-empty array'')
                   | Some rs \<Rightarrow>
                       if json_empty rs then fail (error_doc 400 ''replicas must be a non-empty array'')
                       else case map_throw (json_value ''primary'' get_bool False) (json_items rs) of
                         None \<Rightarrow> thrown
                       | Some primaries \<Rightarrow>
                           if True \<notin> set primaries
                           then fail (error_doc 400 ''exactly one replica must be marked primary'')
                           else if \<not> propose (dump (add_shard_command new_id rs))
                           then fail (error_doc 503 ''raft proposal did not commit, lost leadership or timed out'')
                           else
                             let c = snd (apply_pending_raft_commands parse dump n' c);
                                 pool = live_shards c
                             in if replicas_for_shard pool new_id = []
                                then (error_doc 500 ''committed via raft but not present locally after apply -- this should not happen'',
                                      c\<lparr>rebalancing := False\<rparr>, [])
                                else
                                  let ((migrated, failed), calls) =
                                        migrate_sources list_rpc get_rpc ins_rpc (ring_snapshot c) new_id pool
                                          (filter (\<lambda>sid. sid \<noteq> new_id) (shard_ids pool))
                                  in (\<lparr>http_status = 200, content = Doc (JObj [(''keys_failed'', JInt (int failed)),
                                        (''keys_migrated'', JInt (int migrated)), (''shard_id'', JInt new_id),
                                        (''status'', JStr ''ok'')])\<rparr>, c\<lparr>rebalancing := False\<rparr>, calls))))"

text \<open>\<open>POST /admin/shards/remove\<close>: migrate first, then propose.\<close>

definition handle_remove_shard ::
  "(string \<Rightarrow> json option) \<Rightarrow> (json \<Rightarrow> string) \<Rightarrow> (string \<Rightarrow> bool) \<Rightarrow> raft_node \<Rightarrow>
   (shard_client \<Rightarrow> string list option) \<Rightarrow> (shard_client \<Rightarrow> string \<Rightarrow> ('f list \<times> string) option) \<Rightarrow>
   (nat \<Rightarrow> shard_client \<Rightarrow> 'f insert_request \<Rightarrow> bool option) \<Rightarrow>
   string \<Rightarrow> raft_node option \<Rightarrow> coordinator \<Rightarrow> http_response \<times> coordinator \<times> 'f rpc_call list" where
  "handle_remove_shard parse dump propose n' list_rpc get_rpc ins_rpc body raft c =
     (case not_leader raft of
        Some r \<Rightarrow> (r, c, [])
      | None \<Rightarrow>
          if rebalancing c then (error_doc 409 ''a rebalance is already in progress'', c, [])
          else
            let c = c\<lparr>rebalancing := True\<rparr>;
                fail = (\<lambda>r. (r, c\<lparr>rebalancing := False\<rparr>, []));
                thrown = fail \<lparr>http_status = 400, content = ErrorText\<rparr>
            in case Option.bind (parse body) (\<lambda>j. Option.bind (json_at ''shard_id'' j) get_int) of
                 None \<Rightarrow> thrown
               | Some leaving_id \<Rightarrow>
                   let pool = live_shards c; leaving_replicas = replicas_for_shard pool leaving_id
                   in (case find_primary pool leaving_id of
                         None \<Rightarrow> fail (error_doc 404 ''shard not found or already inactive'')
                       | Some leaving_primary \<Rightarrow>
                           if length (shard_ids pool) \<le> 1 then fail (error_doc 400 ''cannot remove the last shard'')
                           else
                             let post_remove_ring = build (filter (\<lambda>sid. sid \<noteq> leaving_id) (shard_ids pool));
                                 migrate = (\<lambda>key.
                                   case route post_remove_ring key of
                                     None \<Rightarrow> (False, [])
                                   | Some dest \<Rightarrow>
                                       if replicas_for_shard pool dest = [] then (False, [])
                                       else migrate_one_key get_rpc ins_rpc leaving_primary leaving_replicas
                                              (replicas_for_shard pool dest) key);
                                 ((migrated, failed), calls) =
                                   (case list_rpc leaving_primary of
                                      None \<Rightarrow> ((0, 0), [])
                                    | Some keys \<Rightarrow> migrate_keys migrate keys)
                             in if \<not> propose (dump (remove_shard_command leaving_id))
                                then (error_doc 503 ''data was migrated but the raft proposal to finalize removal did not commit -- retry the remove, migration is idempotent'',
                                      c\<lparr>rebalancing := False\<rparr>, calls)
                                else (\<lparr>http_status = 200, content = Doc (JObj [(''keys_failed'', JInt (int failed)),
                                        (''keys_migrated'', JInt (int migrated)), (''shard_id'', JInt leaving_id),
                                        (''status'', JStr ''ok'')])\<rparr>,
                                      (snd (apply_pending_raft_commands parse dump n' c))\<lparr>rebalancing := False\<rparr>, calls)))"

section \<open>Status handlers\<close>

text \<open>
  \<open>GET /stats\<close>: the replicas that answered with their counts, the ones that did not, and
  the total over the primaries.
\<close>

record stats_response =
  total_element_count :: nat
  stats_replicas :: "(shard_client \<times> nat) list"
  unavailable_replicas :: "(int \<times> int) list"

fun handle_stats :: "(shard_client \<Rightarrow> nat option) \<Rightarrow> shard_client list \<Rightarrow> stats_response" where
  "handle_stats stats [] = \<lparr>total_element_count = 0, stats_replicas = [], unavailable_replicas = []\<rparr>"
| "handle_stats stats (sc # pool) =
     (let r = handle_stats stats pool in
      case stats sc of
        None \<Rightarrow> r\<lparr>unavailable_replicas := (shard_id sc, replica_id sc) # unavailable_replicas r\<rparr>
      | Some cnt \<Rightarrow>
          r\<lparr>stats_replicas := (sc, cnt) # stats_replicas r,
             total_element_count := (if is_primary sc then u64 (cnt + total_element_count r) else total_element_count r)\<rparr>)"

definition handle_raft_status :: "raft_node option \<Rightarrow> http_response" where
  "handle_raft_status raft =
     (case raft of
        None \<Rightarrow> error_doc 404 ''raft is not enabled on this coordinator''
      | Some n \<Rightarrow>
          (let st = status n in
           \<lparr>http_status = 200, content = Doc (JObj [(''applied_commands'', JArr (map JStr (st_applied_commands st))),
              (''commit_index'', JInt (int (st_commit_index st))), (''leader_id'', JInt (st_leader_id st)),
              (''log_length'', JInt (int (st_log_length st))), (''node_id'', JInt (st_node_id st)),
              (''role'', JStr (st_role st)), (''snapshot_last_index'', JInt (int (st_snapshot_last_index st))),
              (''term'', JInt (int (st_term st)))])\<rparr>))"

definition handle_raft_propose :: "(string \<Rightarrow> bool) \<Rightarrow> string \<Rightarrow> raft_node option \<Rightarrow> http_response" where
  "handle_raft_propose propose body raft =
     (case raft of
        None \<Rightarrow> error_doc 404 ''raft is not enabled on this coordinator''
      | Some n \<Rightarrow>
          (let ok = propose body
           in \<lparr>http_status = (if ok then 200 else 503), content = Doc (JObj [(''committed'', JBool ok)])\<rparr>))"

section \<open>Order of the migration calls\<close>

text \<open>
  Every delete comes right after an insert of the same key that met its quorum, at
  replicas that satisfy \<open>P\<close>.
\<close>

definition safe_calls ::
  "(nat \<Rightarrow> shard_client \<Rightarrow> 'f insert_request \<Rightarrow> bool option) \<Rightarrow> (shard_client list \<Rightarrow> string \<Rightarrow> bool) \<Rightarrow>
   'f rpc_call list \<Rightarrow> bool" where
  "safe_calls ins_rpc P calls \<longleftrightarrow>
     (\<forall>i < length calls. \<forall>rs key. calls ! i = CallDelete rs key \<longrightarrow>
        0 < i \<and> (\<exists>dest vec md. calls ! (i - 1) = CallInsert dest key vec md \<and> P dest key \<and>
          qr_ok (quorum_insert ins_rpc dest key vec md)))"

lemma safe_calls_Nil [simp]: "safe_calls ins_rpc P []"
  by (simp add: safe_calls_def)

lemma safe_calls_append:
  assumes "safe_calls ins_rpc P xs" and "safe_calls ins_rpc P ys"
  shows "safe_calls ins_rpc P (xs @ ys)"
  unfolding safe_calls_def
proof (intro allI impI)
  fix i rs key assume i: "i < length (xs @ ys)" "(xs @ ys) ! i = CallDelete rs key"
  show "0 < i \<and> (\<exists>dest vec md. (xs @ ys) ! (i - 1) = CallInsert dest key vec md \<and> P dest key \<and>
      qr_ok (quorum_insert ins_rpc dest key vec md))"
  proof (cases "i < length xs")
    case True
    with i assms(1) show ?thesis by (auto simp: safe_calls_def nth_append)
  next
    case False
    let ?j = "i - length xs"
    have "?j < length ys" "ys ! ?j = CallDelete rs key" using False i by (auto simp: nth_append)
    with assms(2) have "0 < ?j \<and> (\<exists>dest vec md. ys ! (?j - 1) = CallInsert dest key vec md \<and> P dest key \<and>
        qr_ok (quorum_insert ins_rpc dest key vec md))"
      unfolding safe_calls_def by blast
    moreover from this have "(xs @ ys) ! (i - 1) = ys ! (?j - 1)" using False by (auto simp: nth_append)
    ultimately show ?thesis by auto
  qed
qed

lemma safe_migrate_one_key:
  assumes "P dest key"
  shows "safe_calls ins_rpc P (snd (migrate_one_key get_rpc ins_rpc primary src dest key))"
  using assms
  by (auto simp: safe_calls_def migrate_one_key_def less_Suc_eq nth_Cons' Let_def split: option.splits prod.splits)

lemma safe_migrate_keys:
  assumes "\<And>key. key \<in> set keys \<Longrightarrow> safe_calls ins_rpc P (snd (migrate key))"
  shows "safe_calls ins_rpc P (snd (migrate_keys migrate keys))"
  using assms
proof (induction keys)
  case (Cons key keys)
  have "snd (migrate_keys migrate (key # keys)) = snd (migrate key) @ snd (migrate_keys migrate keys)"
    by (simp add: Let_def split: prod.splits)
  with Cons show ?case by (simp only: safe_calls_append list.set_intros)
qed simp

lemma safe_migrate_sources:
  "safe_calls ins_rpc (\<lambda>dest key. dest = replicas_for_shard pool new_id \<and> route new_ring key = Some new_id)
     (snd (migrate_sources list_rpc get_rpc ins_rpc new_ring new_id pool sids))"
proof (induction sids)
  case (Cons sid sids)
  let ?P = "\<lambda>dest key. dest = replicas_for_shard pool new_id \<and> route new_ring key = Some new_id"
  let ?one = "case find_primary pool sid of
      None \<Rightarrow> ((0, 0), [])
    | Some primary \<Rightarrow> (case list_rpc primary of
        None \<Rightarrow> ((0, 0), [])
      | Some keys \<Rightarrow>
          migrate_keys (migrate_one_key get_rpc ins_rpc primary (replicas_for_shard pool sid)
              (replicas_for_shard pool new_id))
            (filter (\<lambda>key. route new_ring key = Some new_id) keys))"
  let ?rest = "migrate_sources list_rpc get_rpc ins_rpc new_ring new_id pool sids"
  have "safe_calls ins_rpc ?P (snd (migrate_keys (migrate_one_key get_rpc ins_rpc primary rs (replicas_for_shard pool new_id))
      (filter (\<lambda>key. route new_ring key = Some new_id) keys)))" for primary rs keys
    by (intro safe_migrate_keys safe_migrate_one_key) simp
  then have "safe_calls ins_rpc ?P (snd ?one)" by (simp split: option.splits)
  moreover have "snd (migrate_sources list_rpc get_rpc ins_rpc new_ring new_id pool (sid # sids)) = snd ?one @ snd ?rest"
    unfolding migrate_sources.simps Let_def by (simp add: case_prod_beta)
  ultimately show ?case using Cons by (simp only: safe_calls_append)
qed simp

section \<open>Properties of the handlers\<close>

text \<open>What the body has to hold for a write to be attempted.\<close>

definition insert_body ::
  "(string \<Rightarrow> json option) \<Rightarrow> (json \<Rightarrow> 'f option) \<Rightarrow> string \<Rightarrow> string \<Rightarrow> 'f list \<Rightarrow> string \<Rightarrow> bool" where
  "insert_body parse get_float body key vec md \<longleftrightarrow>
     (\<exists>j v. parse body = Some j \<and> json_at ''vector'' j = Some v \<and> read_external_id j = Some key \<and>
        map_throw get_float (json_items v) = Some vec \<and> json_value ''metadata'' get_string '''' j = Some md)"

lemma read_id_contains: "read_external_id j = Some key \<Longrightarrow> contains ''id'' j"
  by (auto simp: read_external_id_def contains_iff split: option.splits)

lemma handle_insert_good:
  assumes "insert_body parse get_float body key vec md" and "\<not> rebalancing c"
    and "route (ring_snapshot c) key = Some sid" and "replicas_for_shard (live_shards c) sid \<noteq> []"
  shows "\<exists>resp. handle_insert parse get_float rpc body c =
      Returns (resp, qr_ok (quorum_insert rpc (replicas_for_shard (live_shards c) sid) key vec md)) \<and>
    http_status resp = (if qr_ok (quorum_insert rpc (replicas_for_shard (live_shards c) sid) key vec md) then 201 else 502)"
proof -
  obtain j v where j: "parse body = Some j" "json_at ''vector'' j = Some v" "read_external_id j = Some key"
    "map_throw get_float (json_items v) = Some vec" "json_value ''metadata'' get_string '''' j = Some md"
    using assms(1) by (auto simp: insert_body_def)
  moreover have "contains ''id'' j" "contains ''vector'' j"
    using read_id_contains [OF j(3)] j(2) by (simp_all add: contains_iff)
  ultimately show ?thesis using assms(2-4) by (simp add: handle_insert_def Let_def)
qed

lemma handle_insert_bad:
  assumes "\<nexists>key vec md. insert_body parse get_float body key vec md" and "\<not> rebalancing c"
    and "\<And>key. \<exists>sid. route (ring_snapshot c) key = Some sid \<and> replicas_for_shard (live_shards c) sid \<noteq> []"
  shows "\<exists>resp. handle_insert parse get_float rpc body c = Returns (resp, False) \<and> http_status resp = 400"
proof (cases "parse body")
  case None
  with assms(2) show ?thesis by (simp add: handle_insert_def invalid_json_def)
next
  case (Some j)
  show ?thesis
  proof (cases "contains ''id'' j \<and> contains ''vector'' j")
    case False
    with Some assms(2) show ?thesis by (simp add: handle_insert_def error_doc_def)
  next
    case True
    then obtain v where v: "json_at ''vector'' j = Some v" by (auto simp: contains_iff)
    show ?thesis
    proof (cases "read_external_id j")
      case None
      with Some True assms(2) show ?thesis by (simp add: handle_insert_def invalid_json_def)
    next
      case key: (Some key)
      obtain sid where "route (ring_snapshot c) key = Some sid" "replicas_for_shard (live_shards c) sid \<noteq> []"
        using assms(3) by blast
      moreover have "map_throw get_float (json_items v) = None \<or> json_value ''metadata'' get_string '''' j = None"
        using assms(1) Some v key by (auto simp: insert_body_def)
      ultimately show ?thesis using Some True key v assms(2)
        by (auto simp: handle_insert_def invalid_json_def Let_def split: option.splits)
    qed
  qed
qed

text \<open>
  What a client can conclude from \<open>POST /vectors\<close>.  On a coordinator that is not
  rebalancing and has an active shard, whatever happened since it started, the handler
  always answers.  If the body does not name a key and a vector it answers 400 and writes
  nothing; otherwise 201 exactly if the quorum write to the replicas of the shard that the
  ring gives the key succeeded, else 502, and the success counter goes up exactly on 201.
\<close>

lemma insert_handler_outcome:
  assumes "c = apply_runs parse dump ns (start_coordinator eps raft)" and "\<not> rebalancing c" and "live_shards c \<noteq> []"
  shows "\<exists>resp ok. handle_insert parse get_float rpc body c = Returns (resp, ok) \<and>
    (ok \<longleftrightarrow> http_status resp = 201) \<and>
    (if \<exists>key vec md. insert_body parse get_float body key vec md
     then \<exists>key vec md sid. insert_body parse get_float body key vec md \<and> route (ring_snapshot c) key = Some sid \<and>
       http_status resp = (if qr_ok (quorum_insert rpc (replicas_for_shard (live_shards c) sid) key vec md) then 201 else 502)
     else http_status resp = 400)"
proof -
  have route: "\<exists>sid. route (ring_snapshot c) key = Some sid \<and> replicas_for_shard (live_shards c) sid \<noteq> []" for key
    using route_to_live [OF apply_runs_ring_ok [OF start_ring_ok]] assms(1,3) by blast
  show ?thesis
  proof (cases "\<exists>key vec md. insert_body parse get_float body key vec md")
    case True
    then obtain key vec md where b: "insert_body parse get_float body key vec md" by blast
    obtain sid where "route (ring_snapshot c) key = Some sid" "replicas_for_shard (live_shards c) sid \<noteq> []"
      using route by blast
    with handle_insert_good [OF b assms(2)] obtain resp where
      r: "handle_insert parse get_float rpc body c =
            Returns (resp, qr_ok (quorum_insert rpc (replicas_for_shard (live_shards c) sid) key vec md))"
        "http_status resp = (if qr_ok (quorum_insert rpc (replicas_for_shard (live_shards c) sid) key vec md) then 201 else 502)"
        "route (ring_snapshot c) key = Some sid"
      by blast
    with True b show ?thesis by (intro exI [of _ resp] exI conjI) (auto intro!: exI)
  next
    case False
    then obtain resp where r: "handle_insert parse get_float rpc body c = Returns (resp, False)" "http_status resp = 400"
      using handle_insert_bad [OF _ assms(2)] route by blast
    with False show ?thesis by (intro exI [of _ resp] exI [of _ False]) auto
  qed
qed

text \<open>
  Rebalancing is exclusive and always ends.  Of \<open>add\<close> and \<open>remove\<close>, a handler that finds the
  flag set changes nothing and answers 409 (or that this node does not lead); one that
  took the flag gives it back on every way out, success, refusal or exception.
\<close>

lemma rebalance_flag_released:
  "let (resp, c', calls) = handle_add_shard parse dump propose n' list_rpc get_rpc ins_rpc body raft c;
       (resp2, c2, calls2) = handle_remove_shard parse dump propose n' list_rpc get_rpc ins_rpc body raft c
   in if rebalancing c
      then c' = c \<and> calls = [] \<and> c2 = c \<and> calls2 = [] \<and> resp2 = resp \<and> http_status resp \<in> {400, 409, 503}
      else \<not> rebalancing c' \<and> \<not> rebalancing c2"
proof (cases "rebalancing c")
  case True
  then show ?thesis
    by (simp add: handle_add_shard_def handle_remove_shard_def not_leader_def error_doc_def split: option.splits)
next
  case False
  have "\<not> rebalancing (fst (snd (handle_add_shard parse dump propose n' list_rpc get_rpc ins_rpc body raft c)))"
    using False by (simp add: handle_add_shard_def Let_def split: option.splits prod.splits)
  moreover have "\<not> rebalancing (fst (snd (handle_remove_shard parse dump propose n' list_rpc get_rpc ins_rpc body raft c)))"
    using False by (simp add: handle_remove_shard_def Let_def split: option.splits prod.splits)
  ultimately show ?thesis using False by (auto split: prod.splits)
qed

text \<open>
  C28: a key is deleted from its old shard only once it is safe on its new one.  In the calls
  that adding a shard makes, every delete comes right after an insert of the same key that
  met its quorum at the replicas of the shard to which the coordinator's ring now routes
  that key.
\<close>

theorem add_shard_inserts_before_deletes:
  assumes "handle_add_shard parse dump propose n' list_rpc get_rpc ins_rpc body raft c = (resp, c', calls)"
  shows "safe_calls ins_rpc (\<lambda>dest key. \<exists>sid. dest = replicas_for_shard (live_shards c') sid \<and>
    route (ring_snapshot c') key = Some sid) calls"
proof (cases "calls = []")
  case ne: False
  obtain new_id d where calls: "calls = snd (migrate_sources list_rpc get_rpc ins_rpc (ring_snapshot d) new_id (live_shards d)
      (filter (\<lambda>sid. sid \<noteq> new_id) (shard_ids (live_shards d))))" and c': "c' = d\<lparr>rebalancing := False\<rparr>"
    using assms(1) ne by (auto simp: handle_add_shard_def Let_def split: option.splits if_splits prod.splits) (metis snd_conv)
  have same: "live_shards c' = live_shards d" "ring_snapshot c' = ring_snapshot d"
    by (simp_all add: c' live_shards_def ring_snapshot_def)
  from safe_migrate_sources [of ins_rpc "live_shards d" new_id "ring_snapshot d" list_rpc get_rpc
      "filter (\<lambda>sid. sid \<noteq> new_id) (shard_ids (live_shards d))", folded calls]
  show ?thesis unfolding safe_calls_def same by blast
qed simp

text \<open>
  A shard joins a shard that holds \<open>''k''\<close>.  Of the shards 0 and 1, the one that owns
  \<open>''k''\<close> on the ring of both joins second, so that the key has to move: the handler
  reads it at the old shard, inserts it at the new one, then deletes it at the old one.
\<close>

definition sample_join :: "int \<Rightarrow> int \<Rightarrow> http_response \<times> coordinator \<times> nat rpc_call list" where
  "sample_join a b =
     handle_add_shard (\<lambda>_. Some (add_shard_command b (JArr [replica_json 0 ''h'' 9090 True]))) (\<lambda>_. ''a'') (\<lambda>_. True)
       sample_leader (\<lambda>_. Some [''k'']) (\<lambda>_ _. Some ([1], ''m'')) (\<lambda>_ _ _. Some True) ''a'' (Some sample_leader)
       (start_coordinator [sample_endpoint a 0 True] None)"

lemma sample_join_calls:
  assumes "a \<noteq> b" and "is_i32 b" and "route (build [a, b]) ''k'' = Some b"
  shows "\<exists>resp c' src dest. sample_join a b = (resp, c', [CallGet (hd src) ''k'', CallInsert dest ''k'' [1] ''m'', CallDelete src ''k'']) \<and>
    http_status resp = 200 \<and> map shard_id src = [a] \<and> map shard_id dest = [b]"
proof -
  let ?parse = "\<lambda>_. Some (add_shard_command b (JArr [replica_json 0 ''h'' 9090 True]))"
  let ?a = "make_shard_client a 0 ''h'' 9090 True" and ?b = "(make_shard_client b 0 ''h'' 9090 True)\<lparr>epoch := 1\<rparr>"
  define c where "c = snd (apply_pending_raft_commands ?parse (\<lambda>_. ''a'') sample_leader
    (start_coordinator [sample_endpoint a 0 True] None\<lparr>rebalancing := True\<rparr>))"
  have st: "st_snapshot_last_index (status sample_leader) = 0" "st_applied_commands (status sample_leader) = [''a'']"
    "st_role (status sample_leader) = ''leader''"
    by (simp_all add: status_def sample_leader_def sample_defs)
  have live: "live_shards c = [?a, ?b]"
    using assms(1,2) by (simp add: c_def apply_pending_raft_commands_def catch_up_snapshot_def apply_new_commands_def st
        start_coordinator_def sample_endpoint_def COMPACTION_THRESHOLD_def command_defs wrap_signed_id is_i32_def
        make_shard_client_def live_shards_def rebuild_ring_def Let_def)
  have "ring_ok c" unfolding c_def by (intro apply_pending_ring_ok) (simp add: start_ring_ok)
  then have "route (ring_snapshot c) ''k'' = Some b"
    using hr.owner_set [of "shard_ids (live_shards c)" "[a, b]" "''k''"] assms(3)
    by (simp add: ring_ok_def ring_snapshot_def live make_shard_client_def)
  moreover have "filter (\<lambda>sid. sid \<noteq> b) (shard_ids (live_shards c)) = [a]"
    using assms(1) by (simp add: live shard_ids_def make_shard_client_def)
  moreover have "replicas_for_shard (live_shards c) a = [?a]" "replicas_for_shard (live_shards c) b = [?b]"
    "find_primary (live_shards c) a = Some ?a"
    using assms(1) by (simp_all add: live replicas_for_shard_def find_primary_def make_shard_client_def)
  moreover have "\<not> rebalancing (start_coordinator [sample_endpoint a 0 True] None)"
    by (simp add: start_coordinator_def Let_def)
  moreover have "Option.bind (json_at ''shard_id'' (add_shard_command b rs)) get_int = Some b"
      "json_at ''replicas'' (add_shard_command b rs) = Some rs"
      "json_value ''primary'' get_bool False (replica_json 0 ''h'' 9090 True) = Some True" for rs
    using assms(2) by (simp_all add: add_shard_command_def replica_json_def wrap_signed_id is_i32_def)
  ultimately show ?thesis
    by (simp add: sample_join_def handle_add_shard_def not_leader_def st migrate_one_key_def quorum_insert_def
        quorum_outcome_def primary_idx_def Let_def flip: c_def) (simp add: make_shard_client_def)
qed

theorem add_shard_inserts_before_deletes_witness:
  "\<exists>a b resp c' src dest. {a, b} = {0, 1} \<and>
     sample_join a b = (resp, c', [CallGet (hd src) ''k'', CallInsert dest ''k'' [1] ''m'', CallDelete src ''k'']) \<and> http_status resp = 200 \<and>
     map shard_id src = [a] \<and> map shard_id dest = [b] \<and> route (ring_snapshot c') ''k'' = Some b \<and>
     qr_ok (quorum_insert (\<lambda>_ _ _. Some True) dest ''k'' [1 :: nat] ''m'')"
proof -
  obtain b where b: "b \<in> set [0, 1]" "route (build [0, 1]) ''k'' = Some b" using hr.owner_mem [of "[0, 1]" "''k''"] by auto
  define a where "a = 1 - b"
  have ab: "{a, b} = {0, 1}" "a \<noteq> b" "is_i32 b" using b(1) by (auto simp: a_def is_i32_def)
  have "route (build [a, b]) ''k'' = Some b"
    using hr.owner_set [of "[a, b]" "[0, 1]" "''k''"] ab(1) b(2) by simp
  from sample_join_calls [OF ab(2,3) this] obtain resp c' src dest where
    join: "sample_join a b = (resp, c', [CallGet (hd src) ''k'', CallInsert dest ''k'' [1] ''m'', CallDelete src ''k''])"
    and res: "http_status resp = 200" "map shard_id src = [a]" "map shard_id dest = [b]" by (elim exE conjE) (rule that)
  have "safe_calls (\<lambda>_ _ _. Some True) (\<lambda>dest key. \<exists>sid. dest = replicas_for_shard (live_shards c') sid \<and>
      route (ring_snapshot c') key = Some sid)
      [CallGet (hd src) ''k'', CallInsert dest ''k'' [1 :: nat] ''m'', CallDelete src ''k'']"
    by (rule add_shard_inserts_before_deletes [OF join [unfolded sample_join_def]])
  from this [unfolded safe_calls_def, rule_format, of 2 src "''k''"]
  obtain sid where sid: "dest = replicas_for_shard (live_shards c') sid" "route (ring_snapshot c') ''k'' = Some sid"
    and q: "qr_ok (quorum_insert (\<lambda>_ _ _. Some True) dest ''k'' [1 :: nat] ''m'')"
    by auto
  have "\<forall>sc \<in> set dest. shard_id sc = sid" by (auto simp: sid(1) replicas_for_shard_def Let_def)
  with res(3) have "sid = b" by auto
  with sid(2) have "route (ring_snapshot c') ''k'' = Some b" by simp
  with ab(1) join res q show ?thesis by (intro exI conjI)
qed

text \<open>
  The search answer is the best of what the shards returned.  The merged answer has no id
  twice, is in order of distance, has at most \<open>k\<close> hits, every hit is one a shard returned
  and the closest returned for its id, and an id that was returned but is missing from the answer is no
  closer than any hit in it, the answer then being full.
\<close>

lemma search_merge_best:
  fixes hits :: "'d::linorder search_hit list"
  assumes "0 < k"
  shows "let out = dedupe k {} [] (sort_key distance hits) in
    distinct (map hit_id out) \<and> sorted (map distance out) \<and> length out \<le> k \<and> set out \<subseteq> set hits \<and>
    (\<forall>r \<in> set out. \<forall>r' \<in> set hits. hit_id r' = hit_id r \<longrightarrow> distance r \<le> distance r') \<and>
    (\<forall>r' \<in> set hits. hit_id r' \<notin> hit_id ` set out \<longrightarrow>
       length out = k \<and> (\<forall>r \<in> set out. distance r \<le> distance r'))"
proof -
  let ?hs = "sort_key distance hits"
  let ?fs = "firsts {} ?hs"
  have out: "dedupe k {} [] ?hs = take k ?fs" using assms dedupe_firsts [of "[]" k "{}" ?hs] by (simp add: max_def)
  have sorted: "sorted (map distance ?hs)" by simp
  have best: "distance r \<le> distance r'" if "r \<in> set ?fs" "r' \<in> set hits" "hit_id r' = hit_id r" for r r'
    using firsts_closest [OF sorted that(1)] that(2,3) by simp
  have missing: "length (take k ?fs) = k \<and> (\<forall>r \<in> set (take k ?fs). distance r \<le> distance r')"
    if r': "r' \<in> set hits" "hit_id r' \<notin> hit_id ` set (take k ?fs)" for r'
  proof -
    obtain f where f: "f \<in> set ?fs" "hit_id f = hit_id r'"
      using r'(1) hit_ids_firsts [of "{}" ?hs] by (metis (no_types, lifting) Diff_empty image_iff set_sort)
    with r'(2) have "f \<notin> set (take k ?fs)" by (metis image_eqI)
    with f(1) have d: "f \<in> set (drop k ?fs)" by (metis Un_iff append_take_drop_id set_append)
    then have "k < length ?fs" by (metis drop_all empty_iff linorder_not_less list.set(1))
    moreover have "sorted (map distance (take k ?fs @ drop k ?fs))" using sorted_firsts [OF sorted] by simp
    then have "\<forall>r \<in> set (take k ?fs). distance r \<le> distance f" using d by (simp only: map_append sorted_append) auto
    moreover have "distance f \<le> distance r'" using best f r'(1) by simp
    ultimately show ?thesis by (auto intro: order_trans)
  qed
  have "distinct (map hit_id (take k ?fs))" using distinct_firsts [of "{}" ?hs] by (metis distinct_take take_map)
  moreover have "sorted (map distance (take k ?fs))" using sorted_firsts [OF sorted] by (metis sorted_wrt_take take_map)
  moreover have "set (take k ?fs) \<subseteq> set hits" using set_firsts [of "{}" ?hs] by (auto dest: in_set_takeD)
  ultimately show ?thesis
    unfolding out Let_def using best missing by (auto dest: in_set_takeD)
qed

section \<open>Searches\<close>

text \<open>The replicas a search asks: one per shard at most, a primary for a strong read, and every shard for an eventual one.\<close>

lemma find_Some_in: "find P xs = Some x \<Longrightarrow> x \<in> set xs \<and> P x"
  by (induction xs) (auto split: if_splits)

lemma read_target_in: "read_target consistency replicas = Some r \<Longrightarrow> r \<in> set replicas"
  by (auto simp: read_target_def dest!: find_Some_in split: if_splits option.splits list.splits)

lemma read_target_primary: "read_target ''strong'' replicas = Some r \<Longrightarrow> is_primary r"
  by (auto simp: read_target_def dest!: find_Some_in)

lemma read_target_eventual: "consistency \<noteq> ''strong'' \<Longrightarrow> replicas \<noteq> [] \<Longrightarrow> \<exists>r. read_target consistency replicas = Some r"
  by (auto simp: read_target_def split: option.splits list.splits)

lemma set_read_targets:
  "r \<in> set (select_read_targets pool consistency) \<longleftrightarrow>
   (\<exists>sid \<in> set (shard_ids pool). read_target consistency (filter (\<lambda>sc. shard_id sc = sid) pool) = Some r)"
  by (auto simp: select_read_targets_def List.map_filter_def image_iff)

lemma read_target_shard: "read_target consistency (filter (\<lambda>sc. shard_id sc = sid) pool) = Some r \<Longrightarrow> r \<in> set pool \<and> shard_id r = sid"
  using read_target_in by fastforce

lemma distinct_map_filter_key:
  assumes "\<And>x y. x \<in> set xs \<Longrightarrow> f x = Some y \<Longrightarrow> key y = x" and "distinct xs"
  shows "distinct (map key (List.map_filter f xs))"
  using assms
proof (induction xs)
  case (Cons x xs)
  have "key ` set (List.map_filter f xs) \<subseteq> set xs" using Cons.prems(1) by (fastforce simp: List.map_filter_def)
  moreover have "distinct (map key (List.map_filter f xs))" using Cons by auto
  moreover have "key y = x" if "f x = Some y" for y using Cons.prems(1) that by simp
  ultimately show ?case using Cons.prems(2) by (auto simp: List.map_filter_simps split: option.splits)
qed (simp add: List.map_filter_simps)

lemma distinct_read_targets: "distinct (map shard_id (select_read_targets pool consistency))"
  unfolding select_read_targets_def
proof (rule distinct_map_filter_key)
  show "shard_id r = sid" if "read_target consistency (filter (\<lambda>sc. shard_id sc = sid) pool) = Some r" for sid r
    using read_target_shard [OF that] by simp
qed (simp add: shard_ids_def)

lemma eventual_targets:
  assumes "consistency \<noteq> ''strong''"
  shows "shard_id ` set (select_read_targets pool consistency) = shard_id ` set pool"
proof (intro equalityI subsetI)
  fix sid assume "sid \<in> shard_id ` set pool"
  then have sid: "sid \<in> set (shard_ids pool)" "filter (\<lambda>sc. shard_id sc = sid) pool \<noteq> []" by (auto simp: filter_empty_conv)
  with read_target_eventual [OF assms sid(2)] obtain r where "read_target consistency (filter (\<lambda>sc. shard_id sc = sid) pool) = Some r" by blast
  with sid(1) read_target_shard show "sid \<in> shard_id ` set (select_read_targets pool consistency)"
    by (metis imageI set_read_targets)
next
  fix sid assume "sid \<in> shard_id ` set (select_read_targets pool consistency)"
  then obtain r sid' where "sid = shard_id r" "read_target consistency (filter (\<lambda>sc. shard_id sc = sid') pool) = Some r"
    by (auto simp: set_read_targets)
  with read_target_shard [of consistency sid' pool r] show "sid \<in> shard_id ` set pool" by blast
qed

lemma merged_hits: "x \<in> set (fst (merge_responses rs)) \<longleftrightarrow> (\<exists>sid hits. (sid, Some hits) \<in> set rs \<and> x \<in> set hits)"
proof (induction rs rule: merge_responses.induct)
  case (2 sid res rest)
  then show ?case by (cases res) (auto split: prod.splits)
qed simp

lemma merged_unavailable: "snd (merge_responses rs) = map fst (filter (\<lambda>p. snd p = None) rs)"
proof (induction rs rule: merge_responses.induct)
  case (2 sid res rest)
  then show ?case by (cases "merge_responses rest"; cases res) simp_all
qed simp

text \<open>What the body has to hold for the shards to be asked.\<close>

definition search_body ::
  "(string \<Rightarrow> json option) \<Rightarrow> (json \<Rightarrow> 'f option) \<Rightarrow> string \<Rightarrow> 'f list \<Rightarrow> int \<Rightarrow> string \<Rightarrow> bool" where
  "search_body parse get_float body vec k consistency \<longleftrightarrow>
     (\<exists>j v. parse body = Some j \<and> json_at ''vector'' j = Some v \<and> map_throw get_float (json_items v) = Some vec \<and>
        Option.bind (json_at ''k'' j) get_int = Some k \<and> json_value ''consistency'' get_string ''eventual'' j = Some consistency)"

text \<open>
  \<open>POST /search\<close> gives the best of what the shards returned.  One replica per active shard is asked, the
  primary for a strong read, and for an eventual one no shard is left out; the shards reported as
  unavailable are exactly those whose replica did not answer.  The answer has no id twice, is in order of
  distance, has at most \<open>k\<close> hits, every hit is one a shard returned and the closest returned for
  its id, and an id that was returned but is missing is no closer than any hit, the answer then being full.
\<close>

lemma search_answer_best:
  fixes rpc :: "shard_client \<Rightarrow> 'f list \<Rightarrow> int \<Rightarrow> 'd::linorder search_hit list option" and c :: coordinator
  assumes "search_body parse get_float body vec k consistency" and "0 < k" and "k < 2 ^ 31"
  defines "targets \<equiv> select_read_targets (live_shards c) consistency"
  defines "hits \<equiv> {x. \<exists>sc \<in> set targets. \<exists>hs. rpc sc vec k = Some hs \<and> x \<in> set hs}"
  shows "(\<exists>out. handle_search parse get_float rpc body c =
        Inr \<lparr>results = out, used_consistency = consistency,
             unavailable_shards = map shard_id (filter (\<lambda>sc. rpc sc vec k = None) targets)\<rparr> \<and>
      distinct (map hit_id out) \<and> sorted (map distance out) \<and> length out \<le> nat k \<and> set out \<subseteq> hits \<and>
      (\<forall>r \<in> set out. \<forall>r' \<in> hits. hit_id r' = hit_id r \<longrightarrow> distance r \<le> distance r') \<and>
      (\<forall>r' \<in> hits. hit_id r' \<notin> hit_id ` set out \<longrightarrow> length out = nat k \<and> (\<forall>r \<in> set out. distance r \<le> distance r'))) \<and>
    distinct (map shard_id targets) \<and> set targets \<subseteq> set (live_shards c) \<and>
    (if consistency = ''strong'' then \<forall>sc \<in> set targets. is_primary sc
     else shard_id ` set targets = shard_id ` set (live_shards c))"
proof -
  let ?rs = "map (\<lambda>sc. (shard_id sc, rpc sc vec k)) targets"
  obtain merged unavailable where m: "merge_responses ?rs = (merged, unavailable)" by (metis surj_pair)
  have "x \<in> set merged \<longleftrightarrow> x \<in> hits" for x
  proof -
    have "(sid, Some hs) \<in> set ?rs \<longleftrightarrow> (\<exists>sc \<in> set targets. shard_id sc = sid \<and> rpc sc vec k = Some hs)" for sid hs by auto
    with merged_hits [of x ?rs] m show ?thesis unfolding hits_def mem_Collect_eq fst_conv by (simp only: fst_conv) blast
  qed
  then have hits: "set merged = hits" by blast
  have un: "unavailable = map shard_id (filter (\<lambda>sc. rpc sc vec k = None) targets)"
    using merged_unavailable [of ?rs] m by (simp add: filter_map comp_def)
  have size: "size_of_k k = nat k" using assms(2,3) by (simp add: size_of_k_def)
  obtain j v where j: "parse body = Some j" "json_at ''vector'' j = Some v" "map_throw get_float (json_items v) = Some vec"
    "Option.bind (json_at ''k'' j) get_int = Some k" "json_value ''consistency'' get_string ''eventual'' j = Some consistency"
    using assms(1) by (auto simp: search_body_def)
  then have "contains ''vector'' j" "contains ''k'' j" by (auto simp: contains_iff bind_eq_Some_conv)
  with j have run: "handle_search parse get_float rpc body c = Inr \<lparr>results = dedupe (nat k) {} [] (sort_key distance merged),
      used_consistency = consistency, unavailable_shards = unavailable\<rparr>"
    using m by (simp add: handle_search_def Let_def targets_def [symmetric] size)
  define out where "out = dedupe (nat k) {} [] (sort_key distance merged)"
  have best: "distinct (map hit_id out)" "sorted (map distance out)" "length out \<le> nat k" "set out \<subseteq> hits"
    "\<forall>r \<in> set out. \<forall>r' \<in> hits. hit_id r' = hit_id r \<longrightarrow> distance r \<le> distance r'"
    "\<forall>r' \<in> hits. hit_id r' \<notin> hit_id ` set out \<longrightarrow> length out = nat k \<and> (\<forall>r \<in> set out. distance r \<le> distance r')"
    using search_merge_best [of "nat k" merged] assms(2) unfolding hits Let_def out_def [symmetric] by simp_all
  have in_targets: "sc \<in> set (live_shards c) \<and> (consistency = ''strong'' \<longrightarrow> is_primary sc)" if sc: "sc \<in> set targets" for sc
  proof -
    obtain sid where "read_target consistency (filter (\<lambda>sc. shard_id sc = sid) (live_shards c)) = Some sc"
      using sc by (auto simp: targets_def set_read_targets)
    then show ?thesis using read_target_shard read_target_primary by blast
  qed
  have "distinct (map shard_id targets)" unfolding targets_def by (rule distinct_read_targets)
  moreover have "set targets \<subseteq> set (live_shards c)" using in_targets by blast
  moreover have "if consistency = ''strong'' then \<forall>sc \<in> set targets. is_primary sc
      else shard_id ` set targets = shard_id ` set (live_shards c)"
  proof (cases "consistency = ''strong''")
    case True
    then show ?thesis using in_targets by simp
  next
    case False
    from eventual_targets [OF False] show ?thesis unfolding targets_def if_not_P [OF False] .
  qed
  ultimately show ?thesis using run [folded out_def, unfolded un] best by blast
qed

end
