(* ===== verification/Float32.thy ===== *)
theory Float32
  imports Complex_Main
begin

text \<open>
  \<open>float\<close> as IEEE 754 binary32 with rounding to nearest, ties to even: what the distance
  functions and the quantizer compute with.  A finite value is the rational it denotes, so
  the two zeros are one value; no operation of the program tells them apart.  Every operation
  rounds by itself, in the order of the source: a compiler that contracts a product and a sum
  into one fused operation computes other last bits.
\<close>

section \<open>Values and rounding\<close>

datatype f32 = NaN | NInf | Fin rat | PInf

definition pow2 :: "int \<Rightarrow> rat" where
  "pow2 e = (if e \<ge> 0 then 2 ^ nat e else 1 / 2 ^ nat (- e))"

function bits :: "int \<Rightarrow> nat" where
  "bits n = (if n \<le> 0 then 0 else Suc (bits (n div 2)))"
  by pat_completeness auto
termination by (relation "measure nat") auto

declare bits.simps [simp del]

text \<open>The exponent of a positive number, and the nearest integer.\<close>

definition exponent :: "rat \<Rightarrow> int" where
  "exponent q = (case quotient_of q of (n, d) \<Rightarrow>
     let k = int (bits n) - int (bits d) in if pow2 k \<le> q then k else k - 1)"

definition nearest :: "rat \<Rightarrow> int" where
  "nearest x = (let f = \<lfloor>x\<rfloor>; r = x - of_int f in
     if r < 1 / 2 then f else if r > 1 / 2 then f + 1 else if even f then f else f + 1)"

text \<open>The exponent of the last place: 24 bits of precision, subnormal below \<open>2 ^ -126\<close>.\<close>

definition last_place :: "rat \<Rightarrow> int" where
  "last_place q = max (exponent \<bar>q\<bar>) (- 126) - 23"

definition round32 :: "rat \<Rightarrow> f32" where
  "round32 q =
     (if q = 0 then Fin 0
      else let u = pow2 (last_place q); r = of_int (nearest (q / u)) * u in
           if r \<ge> pow2 128 then PInf else if r \<le> - pow2 128 then NInf else Fin r)"

section \<open>Arithmetic and comparison\<close>

fun fneg :: "f32 \<Rightarrow> f32" where
  "fneg NaN = NaN"
| "fneg NInf = PInf"
| "fneg PInf = NInf"
| "fneg (Fin a) = Fin (- a)"

fun fadd :: "f32 \<Rightarrow> f32 \<Rightarrow> f32" where
  "fadd (Fin a) (Fin b) = round32 (a + b)"
| "fadd NaN _ = NaN"
| "fadd _ NaN = NaN"
| "fadd PInf NInf = NaN"
| "fadd NInf PInf = NaN"
| "fadd PInf _ = PInf"
| "fadd NInf _ = NInf"
| "fadd _ PInf = PInf"
| "fadd _ NInf = NInf"

definition fsub :: "f32 \<Rightarrow> f32 \<Rightarrow> f32" where
  "fsub x y = fadd x (fneg y)"

definition signed_inf :: "rat \<Rightarrow> f32" where
  "signed_inf s = (if s = 0 then NaN else if s > 0 then PInf else NInf)"

fun fmul :: "f32 \<Rightarrow> f32 \<Rightarrow> f32" where
  "fmul (Fin a) (Fin b) = round32 (a * b)"
| "fmul NaN _ = NaN"
| "fmul _ NaN = NaN"
| "fmul PInf (Fin b) = signed_inf b"
| "fmul NInf (Fin b) = signed_inf (- b)"
| "fmul (Fin a) PInf = signed_inf a"
| "fmul (Fin a) NInf = signed_inf (- a)"
| "fmul PInf PInf = PInf"
| "fmul NInf NInf = PInf"
| "fmul PInf NInf = NInf"
| "fmul NInf PInf = NInf"

text \<open>The program divides by values it has compared with a positive bound only.\<close>

fun fdiv :: "f32 \<Rightarrow> f32 \<Rightarrow> f32" where
  "fdiv (Fin a) (Fin b) = (if b = 0 then signed_inf a else round32 (a / b))"
| "fdiv NaN _ = NaN"
| "fdiv _ NaN = NaN"
| "fdiv (Fin a) _ = Fin 0"
| "fdiv PInf (Fin b) = (if b \<ge> 0 then PInf else NInf)"
| "fdiv NInf (Fin b) = (if b \<ge> 0 then NInf else PInf)"
| "fdiv _ _ = NaN"

text \<open>
  The square root, correctly rounded: with \<open>u\<close> the last place of the root, the integer
  \<open>m = \<lfloor>sqrt (q / u\<^sup>2)\<rfloor>\<close> or the one after it, whichever is nearer.
\<close>

fun isqrt_from :: "nat \<Rightarrow> int \<Rightarrow> int \<Rightarrow> int" where
  "isqrt_from 0 m n = m"
| "isqrt_from (Suc b) m n = isqrt_from b (if (m + 2 ^ b) ^ 2 \<le> n then m + 2 ^ b else m) n"

definition isqrt :: "int \<Rightarrow> int" where
  "isqrt n = isqrt_from (Suc (bits n div 2)) 0 n"

definition fsqrt_fin :: "rat \<Rightarrow> rat" where
  "fsqrt_fin q =
     (let u = pow2 (exponent q div 2 - 23); x = q / (u * u); m = isqrt \<lfloor>x\<rfloor>
      in (if (2 * of_int m + 1) ^ 2 < 4 * x then of_int m + 1 else of_int m) * u)"

fun fsqrt :: "f32 \<Rightarrow> f32" where
  "fsqrt NaN = NaN"
| "fsqrt NInf = NaN"
| "fsqrt PInf = PInf"
| "fsqrt (Fin q) = (if q = 0 then Fin 0 else if q < 0 then NaN else Fin (fsqrt_fin q))"

text \<open>Comparison: a NaN is neither less than nor equal to anything.\<close>

instantiation f32 :: ord
begin

fun less_f32 :: "f32 \<Rightarrow> f32 \<Rightarrow> bool" where
  "less_f32 (Fin a) (Fin b) \<longleftrightarrow> a < b"
| "less_f32 NInf (Fin _) \<longleftrightarrow> True"
| "less_f32 NInf PInf \<longleftrightarrow> True"
| "less_f32 (Fin _) PInf \<longleftrightarrow> True"
| "less_f32 _ _ \<longleftrightarrow> False"

definition less_eq_f32 :: "f32 \<Rightarrow> f32 \<Rightarrow> bool" where
  "less_eq_f32 x y \<longleftrightarrow> x < y \<or> (x = y \<and> x \<noteq> NaN)"

instance ..

end

section \<open>Rounding\<close>

lemma pow2_pos [simp]: "pow2 e > 0"
  by (simp add: pow2_def)

lemma pow2_nonzero [simp]: "pow2 e \<noteq> 0"
  by (simp add: pow2_def)

lemma pow2_abs [simp]: "\<bar>pow2 e\<bar> = pow2 e"
  by (simp add: pow2_def)

lemma pow2_powi: "pow2 e = 2 powi e"
  by (simp add: pow2_def power_int_def field_simps)

lemma pow2_add: "pow2 (a + b) = pow2 a * pow2 b"
  by (simp add: pow2_powi power_int_add)

lemma pow2_nat: "pow2 (int n) = 2 ^ n"
  by (simp add: pow2_def)

lemma pow2_less_iff: "pow2 a < pow2 b \<longleftrightarrow> a < b"
  using power_int_strict_increasing [of a b "2 :: rat"] power_int_increasing [of b a "2 :: rat"]
  by (cases "a < b") (auto simp: pow2_powi)

lemma bits_bounds:
  assumes "n > 0"
  shows "2 ^ (bits n - 1) \<le> n \<and> n < 2 ^ bits n \<and> bits n > 0"
  using assms
proof (induction n rule: bits.induct)
  case (1 n)
  show ?case
  proof (cases "n div 2 = 0")
    case True
    with 1(2) have "n = 1" by linarith
    then show ?thesis by (simp add: bits.simps [of 1] bits.simps [of 0])
  next
    case False
    with 1 have ih: "2 ^ (bits (n div 2) - 1) \<le> n div 2" "n div 2 < 2 ^ bits (n div 2)" "bits (n div 2) > 0"
      by auto
    have b: "bits n = Suc (bits (n div 2))" using 1(2) by (simp add: bits.simps [of n])
    have "2 ^ bits (n div 2) = 2 * (2 ^ (bits (n div 2) - 1) :: int)"
      using ih(3) by (cases "bits (n div 2)") auto
    with ih show ?thesis by (simp add: b) linarith
  qed
qed

lemma exponent_le:
  assumes "q > 0"
  shows "pow2 (exponent q) \<le> q"
proof -
  obtain n d where qd: "quotient_of q = (n, d)" by fastforce
  have d: "d > 0" using qd quotient_of_denom_pos by blast
  have q: "q = of_int n / of_int d" using qd quotient_of_div by blast
  with assms d have n: "n > 0" by (simp add: zero_less_divide_iff)
  define bn bd where "bn = bits n" and "bd = bits d"
  have "2 ^ (bn - 1) \<le> n" "bn > 0" "d \<le> 2 ^ bd"
    using bits_bounds [of n] bits_bounds [of d] n d by (auto simp: bn_def bd_def)
  then have nr: "(2 :: rat) ^ (bn - 1) \<le> of_int n" and dr: "of_int d \<le> (2 :: rat) ^ bd"
    by (metis of_int_le_iff of_int_numeral of_int_power)+
  have "pow2 (int bn - int bd - 1) = 2 ^ (bn - 1) / 2 ^ bd"
    using \<open>bn > 0\<close> pow2_add [of "int bn - int bd - 1" "int bd"] pow2_nat [of "bn - 1"]
    by (simp add: pow2_nat of_nat_diff field_simps)
  also have "\<dots> \<le> of_int n / of_int d"
    by (rule frac_le) (use nr dr d n in auto)
  finally have "pow2 (int bn - int bd - 1) \<le> q" by (simp add: q)
  then show ?thesis by (simp add: exponent_def qd Let_def bn_def bd_def)
qed

lemma nearest_of_int [simp]: "nearest (of_int z) = z"
  by (simp add: nearest_def)

lemma nearest_minus: "nearest (- x) = - nearest x"
proof (cases "x = of_int \<lfloor>x\<rfloor>")
  case True
  then show ?thesis by (metis nearest_of_int of_int_minus)
next
  case False
  moreover have "of_int \<lfloor>x\<rfloor> \<le> x" "x < of_int \<lfloor>x\<rfloor> + 1" by linarith+
  ultimately have "\<lfloor>- x\<rfloor> = - \<lfloor>x\<rfloor> - 1"
    by (intro floor_unique) linarith+
  then show ?thesis by (auto simp: nearest_def Let_def)
qed

lemma nearest_nonneg: "x \<ge> 0 \<Longrightarrow> nearest x \<ge> 0"
  by (auto simp: nearest_def Let_def)

text \<open>A number with 24 significant bits in the exponent range is not rounded.\<close>

lemma round32_exact:
  assumes "q = of_int m * pow2 k" and "\<bar>m\<bar> < 2 ^ 24" and "- 149 \<le> k" and "k \<le> 104"
  shows "round32 q = Fin q"
proof (cases "q = 0")
  case False
  then have m: "m \<noteq> 0" using assms(1) by auto
  have p24: "(2 :: rat) ^ 24 = pow2 24" by (simp add: pow2_def)
  have "\<bar>of_int m :: rat\<bar> < pow2 24"
    using assms(2) unfolding p24 [symmetric] by (metis of_int_abs of_int_less_iff of_int_numeral of_int_power)
  then have ub: "\<bar>q\<bar> < pow2 (24 + k)"
    by (simp add: assms(1) abs_mult pow2_add mult_strict_right_mono)
  have "pow2 (exponent \<bar>q\<bar>) < pow2 (24 + k)"
    using exponent_le [of "\<bar>q\<bar>"] False ub by simp
  then have "last_place q \<le> k"
    using assms(3) by (simp add: pow2_less_iff last_place_def)
  then obtain j where j: "k = last_place q + int j"
    using zle_iff_zadd by blast
  have r: "of_int (m * 2 ^ j) * pow2 (last_place q) = q"
  proof -
    have "q = of_int m * (pow2 (last_place q) * 2 ^ j)"
      using assms(1) unfolding j pow2_add pow2_nat .
    then show ?thesis by (simp add: mult.commute mult.left_commute)
  qed
  then have "q / pow2 (last_place q) = of_int (m * 2 ^ j)"
    by (metis nonzero_mult_div_cancel_right pow2_nonzero)
  then have n: "nearest (q / pow2 (last_place q)) = m * 2 ^ j" by (metis nearest_of_int)
  have "pow2 (24 + k) \<le> pow2 128" using assms(4) pow2_less_iff [of 128 "24 + k"] by linarith
  with ub have "\<bar>q\<bar> < pow2 128" by linarith
  then have "\<not> pow2 128 \<le> q" "\<not> q \<le> - pow2 128" by linarith+
  then show ?thesis using False unfolding round32_def Let_def n r by simp
qed (simp add: round32_def)

lemma round32_of_int:
  assumes "\<bar>z\<bar> < 2 ^ 24"
  shows "round32 (of_int z) = Fin (of_int z)"
  by (rule round32_exact [of _ z 0]) (use assms in \<open>simp_all add: pow2_def\<close>)

lemma round32_minus: "round32 (- q) = fneg (round32 q)"
proof -
  have "last_place (- q) = last_place q" by (simp add: last_place_def)
  moreover have "nearest (- q / u) = - nearest (q / u)" for u
    by (metis minus_divide_left nearest_minus)
  ultimately show ?thesis
    using pow2_pos [of 128] by (simp add: round32_def Let_def del: pow2_pos)
qed

section \<open>Comparisons and signs\<close>

lemma less_f32_irrefl [simp]: "\<not> (x :: f32) < x"
  by (cases x) auto

lemma less_f32_trans: "(x :: f32) < y \<Longrightarrow> y < z \<Longrightarrow> x < z"
  by (cases x; cases y; cases z) auto

lemma NaN_less [simp]: "\<not> NaN < x" "\<not> x < NaN"
  by (cases x; simp)+

lemma less_f32_total: "x \<noteq> NaN \<Longrightarrow> y \<noteq> NaN \<Longrightarrow> x < y \<or> x = y \<or> (y :: f32) < x"
  by (cases x; cases y) auto

lemma fneg_fneg [simp]: "fneg (fneg x) = x"
  by (cases x) auto

lemma fadd_fneg: "fadd (fneg x) (fneg y) = fneg (fadd x y)"
  by (cases x; cases y) (auto simp flip: round32_minus simp: add.commute)

lemma fadd_commute: "fadd x y = fadd y x"
  by (cases x; cases y) (auto simp: add.commute)

lemma fmul_commute: "fmul x y = fmul y x"
  by (cases x; cases y) (auto simp: mult.commute)

lemma fsub_swap: "fsub y x = fneg (fsub x y)"
  by (metis fadd_commute fadd_fneg fneg_fneg fsub_def)

lemma fmul_fneg_self: "fmul (fneg x) (fneg x) = fmul x x"
  by (cases x) auto

lemma round32_nonneg:
  assumes "q \<ge> 0"
  shows "\<not> round32 q < Fin 0"
proof -
  define r where "r = of_int (nearest (q / pow2 (last_place q))) * pow2 (last_place q)"
  have "nearest (q / pow2 (last_place q)) \<ge> 0"
    by (rule nearest_nonneg) (use assms in \<open>simp add: less_imp_le\<close>)
  then have "r \<ge> 0" by (simp add: r_def less_imp_le)
  moreover have "pow2 128 > 0" by (rule pow2_pos)
  ultimately show ?thesis by (simp add: round32_def Let_def flip: r_def)
qed

lemma fmul_self_nonneg: "\<not> fmul x x < Fin 0"
  by (cases x) (simp_all add: round32_nonneg)

lemma fadd_nonneg:
  assumes "\<not> x < Fin 0" and "\<not> y < Fin 0"
  shows "\<not> fadd x y < Fin 0"
  using assms by (cases x; cases y) (auto intro!: round32_nonneg)

lemma fadd_int:
  "\<bar>x + y\<bar> < 2 ^ 24 \<Longrightarrow> fadd (Fin (of_int x)) (Fin (of_int y)) = Fin (of_int (x + y))"
  using round32_of_int [of "x + y"] by simp

lemma fsub_int:
  "\<bar>x - y\<bar> < 2 ^ 24 \<Longrightarrow> fsub (Fin (of_int x)) (Fin (of_int y)) = Fin (of_int (x - y))"
  using round32_of_int [of "x - y"] by (simp add: fsub_def)

lemma fmul_int:
  "\<bar>x * y\<bar> < 2 ^ 24 \<Longrightarrow> fmul (Fin (of_int x)) (Fin (of_int y)) = Fin (of_int (x * y))"
  using round32_of_int [of "x * y"] by simp

lemma round32_not_NaN [simp]: "round32 q \<noteq> NaN"
  by (simp add: round32_def Let_def)

section \<open>Rounding is monotone\<close>

lemma less_exponent:
  assumes "q > 0"
  shows "q < pow2 (exponent q + 1)"
proof -
  obtain n d where qd: "quotient_of q = (n, d)" by fastforce
  have d: "d > 0" using qd quotient_of_denom_pos by blast
  have q: "q = of_int n / of_int d" using qd quotient_of_div by blast
  with assms d have n: "n > 0" by (simp add: zero_less_divide_iff)
  define bn bd where "bn = bits n" and "bd = bits d"
  have "n < 2 ^ bn" "2 ^ (bd - 1) \<le> d" "bd > 0"
    using bits_bounds [of n] bits_bounds [of d] n d by (auto simp: bn_def bd_def)
  then have nr: "of_int n < (2 :: rat) ^ bn" and dr: "(2 :: rat) ^ (bd - 1) \<le> of_int d"
    by (metis of_int_less_iff of_int_numeral of_int_power) (metis of_int_le_iff of_int_numeral of_int_power \<open>2 ^ (bd - 1) \<le> d\<close>)
  have "of_int n / of_int d < (2 :: rat) ^ bn / 2 ^ (bd - 1)"
    by (rule frac_less) (use nr dr d n in auto)
  also have "\<dots> = pow2 (int bn - int bd + 1)"
    using \<open>bd > 0\<close> pow2_add [of "int bn - int bd + 1" "int (bd - 1)"] pow2_nat [of "bd - 1"] pow2_nat [of bn]
    by (simp add: of_nat_diff field_simps)
  finally have "q < pow2 (int bn - int bd + 1)" using q by simp
  then show ?thesis using qd by (auto simp: exponent_def bn_def bd_def Let_def)
qed

lemma nearest_mono:
  assumes "x \<le> y"
  shows "nearest x \<le> nearest y"
proof (cases "\<lfloor>x\<rfloor> = \<lfloor>y\<rfloor>")
  case True
  then show ?thesis using assms by (auto simp: nearest_def Let_def)
next
  case False
  then have "\<lfloor>x\<rfloor> + 1 \<le> \<lfloor>y\<rfloor>" using floor_mono [OF assms] by linarith
  then show ?thesis by (auto simp: nearest_def Let_def)
qed

text \<open>The value before the check for overflow.\<close>

definition rounded :: "rat \<Rightarrow> rat" where
  "rounded q = of_int (nearest (q / pow2 (last_place q))) * pow2 (last_place q)"

lemma pow2_le_iff: "pow2 a \<le> pow2 b \<longleftrightarrow> a \<le> b"
  using pow2_less_iff [of b a] by (simp add: linorder_not_less [symmetric])

lemma pow2_div_int: "b \<le> a \<Longrightarrow> pow2 a / pow2 b = of_int (2 ^ nat (a - b))"
  using pow2_add [of "a - b" b] pow2_nat [of "nat (a - b)"] by (simp add: field_simps)

lemma nearest_pow2:
  assumes "b \<le> a"
  shows "of_int (nearest (pow2 a / pow2 b)) * pow2 b = pow2 a"
  unfolding pow2_div_int [OF assms] nearest_of_int using pow2_div_int [OF assms] by (simp add: field_simps)

lemma rounded_mono:
  assumes "0 < p" and "p \<le> q"
  shows "rounded p \<le> rounded q"
proof -
  let ?u = "last_place p" and ?v = "last_place q"
  have q0: "0 < q" using assms by simp
  have "pow2 (exponent p) < pow2 (exponent q + 1)"
    using exponent_le [OF assms(1)] less_exponent [OF q0] assms(2) by linarith
  then have ex: "exponent p \<le> exponent q" by (simp add: pow2_less_iff)
  show ?thesis
  proof (cases "?u = ?v")
    case True
    then show ?thesis using assms(2) nearest_mono [of "p / pow2 ?v" "q / pow2 ?v"]
      by (simp add: rounded_def divide_right_mono mult_right_mono less_imp_le)
  next
    case False
    let ?e = "exponent q"
    have e: "?u < ?v" "?v = ?e - 23" "exponent p < ?e"
      using False ex assms(1) q0 by (auto simp: last_place_def)
    have "p \<le> pow2 ?e" using less_exponent [OF assms(1)] e(3) pow2_le_iff [of "exponent p + 1" ?e] by linarith
    then have "nearest (p / pow2 ?u) \<le> nearest (pow2 ?e / pow2 ?u)" by (intro nearest_mono divide_right_mono) (simp_all add: less_imp_le)
    then have "rounded p \<le> of_int (nearest (pow2 ?e / pow2 ?u)) * pow2 ?u"
      unfolding rounded_def by (intro mult_right_mono) (simp_all add: less_imp_le)
    also have "\<dots> = pow2 ?e" by (rule nearest_pow2) (use e in simp)
    also have "\<dots> = of_int (nearest (pow2 ?e / pow2 ?v)) * pow2 ?v" by (rule nearest_pow2 [symmetric]) (use e in simp)
    also have "\<dots> \<le> rounded q"
      unfolding rounded_def using exponent_le [OF q0]
      by (intro mult_right_mono) (simp_all add: less_imp_le nearest_mono divide_right_mono)
    finally show ?thesis .
  qed
qed

lemma round32_rounded: "q \<noteq> 0 \<Longrightarrow> round32 q =
    (if rounded q \<ge> pow2 128 then PInf else if rounded q \<le> - pow2 128 then NInf else Fin (rounded q))"
  by (simp add: round32_def rounded_def Let_def)

lemma rounded_nonneg: "0 < q \<Longrightarrow> 0 \<le> rounded q"
  by (simp add: rounded_def nearest_nonneg less_imp_le)

lemma round32_mono_pos:
  assumes "0 < p" and "p \<le> q"
  shows "round32 p \<le> round32 q"
  using assms rounded_mono [OF assms] rounded_nonneg [OF assms(1)] pow2_pos [of 128]
  by (auto simp: round32_rounded less_eq_f32_def)

lemma fneg_mono: "x \<le> y \<Longrightarrow> fneg y \<le> fneg x"
  by (cases x; cases y) (auto simp: less_eq_f32_def)

lemma f32_le_trans: "x \<le> y \<Longrightarrow> y \<le> z \<Longrightarrow> x \<le> (z :: f32)"
  by (cases x; cases y; cases z) (auto simp: less_eq_f32_def)

lemma round32_0 [simp]: "round32 0 = Fin 0"
  by (simp add: round32_def)

lemma round32_nonneg_le: "0 \<le> q \<Longrightarrow> Fin 0 \<le> round32 q"
  using rounded_nonneg [of q] pow2_pos [of 128] by (cases "q = 0") (auto simp: round32_rounded less_eq_f32_def)

lemma round32_mono:
  assumes "p \<le> q"
  shows "round32 p \<le> round32 q"
proof -
  consider "0 < p" | "p \<le> 0" "0 \<le> q" | "q < 0" by linarith
  then show ?thesis
  proof cases
    case 1
    then show ?thesis by (rule round32_mono_pos [OF _ assms])
  next
    case 2
    have "Fin 0 \<le> round32 (- p)" using 2 by (intro round32_nonneg_le) simp
    then have "round32 p \<le> Fin 0" using fneg_mono [of "Fin 0" "round32 (- p)"] by (simp add: round32_minus)
    then show ?thesis using round32_nonneg_le [OF 2(2)] f32_le_trans by blast
  next
    case 3
    then have "round32 (- q) \<le> round32 (- p)" using assms by (intro round32_mono_pos) simp_all
    then show ?thesis using fneg_mono by (fastforce simp: round32_minus)
  qed
qed

text \<open>A value up to \<open>2 ^ 127\<close> does not overflow.\<close>

lemma f32_le_Fin [simp]: "Fin a \<le> Fin b \<longleftrightarrow> a \<le> b"
  by (auto simp: less_eq_f32_def)

lemma round32_pow2_127: "round32 (pow2 127) = Fin (pow2 127)"
proof (rule round32_exact [where m = "2 ^ 23" and k = 104])
  show "pow2 127 = of_int (2 ^ 23) * pow2 104" by (simp add: pow2_def)
qed simp_all

lemma round32_finite:
  assumes "\<bar>q\<bar> \<le> pow2 127"
  shows "\<exists>r. round32 q = Fin r"
proof -
  have "q \<le> pow2 127" "- pow2 127 \<le> q" using assms by linarith+
  then have "round32 q \<le> Fin (pow2 127)" "Fin (- pow2 127) \<le> round32 q"
    using round32_mono [of q "pow2 127"] round32_mono [of "- pow2 127" q] by (simp_all add: round32_minus round32_pow2_127)
  then show ?thesis by (cases "round32 q") (auto simp: less_eq_f32_def)
qed

end
