(* ===== verification/Distance.thy ===== *)
theory Distance
  imports Float32
begin

text \<open>
  \<^verbatim>\<open>src/index/distance.cpp\<close> with its header and the metric of \<^verbatim>\<open>include/config/types.hpp\<close>: the
  three AVX2 distance kernels and their dispatcher, in binary32.  An array is the list of its
  elements; callers pass arrays with at least \<open>dim\<close> (here \<open>len\<close>) of them.
\<close>

section \<open>Kernels\<close>

datatype distance_metric = L2 | Cosine | InnerProduct

text \<open>
  The loop over blocks of eight lanes: \<open>acc\<close> is the vector register, \<open>g\<close> what a lane adds.
  The three kernels share it, the cosine kernel runs it on three registers.
\<close>

function simd_blocks :: "(f32 \<Rightarrow> f32 \<Rightarrow> f32) \<Rightarrow> f32 list \<Rightarrow> f32 list \<Rightarrow> f32 list \<Rightarrow> f32 list \<times> f32 list \<times> f32 list" where
  "simd_blocks g acc a b =
     (if 8 \<le> length a \<and> 8 \<le> length b
      then simd_blocks g (map2 fadd acc (map2 g (take 8 a) (take 8 b))) (drop 8 a) (drop 8 b)
      else (acc, a, b))"
  by pat_completeness auto
termination by (relation "measure (\<lambda>(g, acc, a, b). length a)") auto

declare simd_blocks.simps [simp del]

text \<open>The blocks, the horizontal reduction from left to right, and the scalar tail.\<close>

definition simd_sum :: "(f32 \<Rightarrow> f32 \<Rightarrow> f32) \<Rightarrow> f32 list \<Rightarrow> f32 list \<Rightarrow> f32" where
  "simd_sum g a b =
     (let (temp, a, b) = simd_blocks g (replicate 8 (Fin 0)) a b;
          total = foldl fadd (Fin 0) temp
      in foldl fadd total (map2 g a b))"

definition l2_distance :: "f32 list \<Rightarrow> f32 list \<Rightarrow> nat \<Rightarrow> f32" where
  "l2_distance a b len = simd_sum (\<lambda>x y. let d = fsub x y in fmul d d) (take len a) (take len b)"

definition cosine_distance :: "f32 list \<Rightarrow> f32 list \<Rightarrow> nat \<Rightarrow> f32" where
  "cosine_distance a b len =
     (let a = take len a; b = take len b;
          dot = simd_sum fmul a b; na = simd_sum fmul a a; nb = simd_sum fmul b b;
          denom = fmul (fsqrt na) (fsqrt nb)
      in if denom < round32 (1 / 10 ^ 10) then Fin 1 else fsub (Fin 1) (fdiv dot denom))"

definition inner_product_distance :: "f32 list \<Rightarrow> f32 list \<Rightarrow> nat \<Rightarrow> f32" where
  "inner_product_distance a b len = fneg (simd_sum fmul (take len a) (take len b))"

definition compute_distance :: "f32 list \<Rightarrow> f32 list \<Rightarrow> nat \<Rightarrow> distance_metric \<Rightarrow> f32" where
  "compute_distance a b len metric =
     (case metric of
        Cosine \<Rightarrow> cosine_distance a b len
      | InnerProduct \<Rightarrow> inner_product_distance a b len
      | L2 \<Rightarrow> l2_distance a b len)"

definition get_distance :: "f32 list \<Rightarrow> f32 list \<Rightarrow> nat \<Rightarrow> f32" where
  "get_distance a b len = l2_distance a b len"

section \<open>Exact sums\<close>

text \<open>Small integers are summed without rounding, in whatever order.\<close>

abbreviation fint :: "int \<Rightarrow> f32" where
  "fint z \<equiv> Fin (of_int z)"

abbreviation abs_sum :: "int list \<Rightarrow> int" where
  "abs_sum zs \<equiv> sum_list (map abs zs)"

lemma abs_sum_nonneg: "abs_sum zs \<ge> 0"
  by (rule sum_list_nonneg) auto

lemma foldl_fadd_int:
  "\<bar>s\<bar> + abs_sum zs < 2 ^ 24 \<Longrightarrow> foldl fadd (fint s) (map fint zs) = fint (s + sum_list zs)"
proof (induction zs arbitrary: s)
  case (Cons z zs)
  have "\<bar>s + z\<bar> < 2 ^ 24" "\<bar>s + z\<bar> + abs_sum zs < 2 ^ 24"
    using Cons.prems abs_sum_nonneg [of zs] by simp_all
  then have "fadd (fint s) (fint z) = fint (s + z)"
    "foldl fadd (fint (s + z)) (map fint zs) = fint (s + z + sum_list zs)"
    using fadd_int [of s z] Cons.IH by blast+
  then show ?case by (simp only: list.map foldl.simps sum_list.Cons add.assoc)
qed simp

lemma map2_fadd_int:
  "length ws = length zs \<Longrightarrow> abs_sum ws + abs_sum zs < 2 ^ 24 \<Longrightarrow>
   map2 fadd (map fint ws) (map fint zs) = map fint (map2 (+) ws zs)"
proof (induction ws zs rule: list_induct2)
  case (Cons w ws z zs)
  then have "\<bar>w + z\<bar> < 2 ^ 24"
    using abs_sum_nonneg [of zs] abs_sum_nonneg [of ws] by simp
  moreover have "abs_sum ws + abs_sum zs < 2 ^ 24" using Cons.prems by simp
  ultimately show ?case using Cons.IH fadd_int [of w z] by simp
qed simp

lemma sum_map2_add: "length ws = length (zs :: int list) \<Longrightarrow> sum_list (map2 (+) ws zs) = sum_list ws + sum_list zs"
  by (induction ws zs rule: list_induct2) auto

lemma abs_sum_map2_add: "length ws = length zs \<Longrightarrow> abs_sum (map2 (+) ws zs) \<le> abs_sum ws + abs_sum zs"
  by (induction ws zs rule: list_induct2) auto

lemma take_zip_map: "map2 g a b = map fint zs \<Longrightarrow> map2 g (take n a) (take n b) = map fint (take n zs)"
  by (metis take_map take_zip)

lemma drop_zip_map: "map2 g a b = map fint zs \<Longrightarrow> map2 g (drop n a) (drop n b) = map fint (drop n zs)"
  by (metis drop_map drop_zip)

lemma abs_sum_split: "abs_sum (take n zs) + abs_sum (drop n zs) = abs_sum zs"
  by (metis append_take_drop_id map_append sum_list_append)

lemma shorter_by_8: "8 \<le> length a \<Longrightarrow> length (drop 8 a) < length a"
  by simp

lemma simd_blocks_step:
  "8 \<le> length a \<Longrightarrow> 8 \<le> length b \<Longrightarrow>
   simd_blocks g acc a b = simd_blocks g (map2 fadd acc (map2 g (take 8 a) (take 8 b))) (drop 8 a) (drop 8 b)"
  by (subst simd_blocks.simps) simp

lemma simd_blocks_stop: "\<not> (8 \<le> length a \<and> 8 \<le> length b) \<Longrightarrow> simd_blocks g acc a b = (acc, a, b)"
  by (subst simd_blocks.simps) auto

lemma simd_blocks_int:
  assumes "map2 g a b = map fint zs" and "length ws = 8" and "abs_sum ws + abs_sum zs < 2 ^ 24"
  shows "\<exists>ws' zs' a' b'. simd_blocks g (map fint ws) a b = (map fint ws', a', b') \<and>
           map2 g a' b' = map fint zs' \<and> abs_sum ws' + abs_sum zs' < 2 ^ 24 \<and>
           sum_list ws' + sum_list zs' = sum_list ws + sum_list zs"
  using assms
proof (induction "length a" arbitrary: a b ws zs rule: less_induct)
  case less
  show ?case
  proof (cases "8 \<le> length a \<and> 8 \<le> length b")
    case True
    let ?ws = "map2 (+) ws (take 8 zs)" and ?zs = "drop 8 zs"
    have "length zs \<ge> 8" using arg_cong [OF less.prems(1), of length] True by (simp add: min_def split: if_splits)
    then have len: "length ws = length (take 8 zs)" using less.prems(2) by simp
    have "abs_sum ws + abs_sum (take 8 zs) < 2 ^ 24"
      using less.prems(3) abs_sum_split [of 8 zs] abs_sum_nonneg [of ?zs] by linarith
    then have step: "simd_blocks g (map fint ws) a b = simd_blocks g (map fint ?ws) (drop 8 a) (drop 8 b)"
      using True take_zip_map [OF less.prems(1), of 8] map2_fadd_int [OF len]
      by (subst simd_blocks.simps) simp
    have "abs_sum ?ws + abs_sum ?zs < 2 ^ 24"
      using less.prems(3) abs_sum_split [of 8 zs] abs_sum_map2_add [OF len] by linarith
    moreover have "sum_list ?ws + sum_list ?zs = sum_list ws + sum_list zs"
      using sum_map2_add [OF len] sum_list_append [of "take 8 zs" ?zs] by simp
    moreover have "length (drop 8 a) < length a" "length ?ws = 8"
      using True shorter_by_8 [of a] len less.prems(2) by simp_all
    ultimately show ?thesis
      using less.hyps [OF _ drop_zip_map [OF less.prems(1), of 8], of ?ws] unfolding step by metis
  next
    case False
    then have "simd_blocks g (map fint ws) a b = (map fint ws, a, b)" by (rule simd_blocks_stop)
    with less.prems show ?thesis by blast
  qed
qed

lemma simd_sum_int:
  assumes "map2 g a b = map fint zs" and "abs_sum zs < 2 ^ 24"
  shows "simd_sum g a b = fint (sum_list zs)"
proof -
  have "abs_sum (replicate 8 0) + abs_sum zs < 2 ^ 24" using assms(2) by (simp add: sum_list_replicate)
  then obtain ws' zs' a' b' where r: "simd_blocks g (map fint (replicate 8 0)) a b = (map fint ws', a', b')"
    "map2 g a' b' = map fint zs'" "abs_sum ws' + abs_sum zs' < 2 ^ 24"
    "sum_list ws' + sum_list zs' = sum_list (replicate 8 0) + sum_list zs"
    using simd_blocks_int [OF assms(1), of "replicate 8 0"] by fastforce
  have "\<bar>sum_list ws'\<bar> \<le> abs_sum ws'" by (rule sum_list_abs)
  then have "foldl fadd (fint (sum_list ws')) (map fint zs') = fint (sum_list ws' + sum_list zs')"
    using r(3) by (intro foldl_fadd_int) linarith
  moreover have "foldl fadd (fint 0) (map fint ws') = fint (0 + sum_list ws')"
    using r(3) abs_sum_nonneg [of zs'] by (intro foldl_fadd_int) simp
  ultimately show ?thesis
    using r by (simp add: simd_sum_def sum_list_replicate)
qed

section \<open>Symmetry and sign\<close>

lemma map2_swap: "(\<And>x y. g y x = g x y) \<Longrightarrow> map2 g b a = map2 g a b"
  by (subst zip_commute) (auto intro!: map_cong)

lemma simd_blocks_swap:
  assumes "\<And>x y. g y x = g x y"
  shows "simd_blocks g acc b a = (case simd_blocks g acc a b of (acc', a', b') \<Rightarrow> (acc', b', a'))"
proof (induction "length a" arbitrary: acc a b rule: less_induct)
  case less
  show ?case
  proof (cases "8 \<le> length a \<and> 8 \<le> length b")
    case True
    then show ?thesis
      using less [of "drop 8 a" "map2 fadd acc (map2 g (take 8 a) (take 8 b))" "drop 8 b", OF shorter_by_8]
      by (simp only: simd_blocks_step map2_swap [OF assms, where b = "take 8 b"])
  next
    case False
    then show ?thesis using simd_blocks_stop [of a b g acc] simd_blocks_stop [of b a g acc] by auto
  qed
qed

lemma simd_sum_swap:
  assumes "\<And>x y. g y x = g x y"
  shows "simd_sum g b a = simd_sum g a b"
  unfolding simd_sum_def simd_blocks_swap [OF assms, where a = a and b = b]
  by (simp add: split_beta map2_swap [OF assms])

lemma l2_swap: "(let d = fsub y x in fmul d d) = (let d = fsub x y in fmul d d)"
  by (simp add: Let_def fsub_swap [of y x] fmul_fneg_self)

lemma foldl_fadd_nonneg:
  "\<not> s < Fin 0 \<Longrightarrow> \<forall>x \<in> set xs. \<not> x < Fin 0 \<Longrightarrow> \<not> foldl fadd s xs < Fin 0"
  by (induction xs arbitrary: s) (auto simp: fadd_nonneg)

lemma map2_fadd_nonneg:
  assumes "\<forall>x \<in> set xs. \<not> x < Fin 0" and "\<forall>y \<in> set ys. \<not> y < Fin 0"
  shows "\<forall>z \<in> set (map2 fadd xs ys). \<not> z < Fin 0"
proof
  fix z assume "z \<in> set (map2 fadd xs ys)"
  then obtain x y where "(x, y) \<in> set (zip xs ys)" and z: "z = fadd x y" by auto
  then have "x \<in> set xs" "y \<in> set ys" by (blast dest: set_zip_leftD set_zip_rightD)+
  with assms show "\<not> z < Fin 0" unfolding z by (simp add: fadd_nonneg del: not_less)
qed

lemma simd_blocks_nonneg:
  assumes "\<And>x y. \<not> g x y < Fin 0" and "\<forall>x \<in> set acc. \<not> x < Fin 0"
  shows "\<forall>x \<in> set (fst (simd_blocks g acc a b)). \<not> x < Fin 0"
  using assms(2)
proof (induction "length a" arbitrary: acc a b rule: less_induct)
  case less
  let ?acc = "map2 fadd acc (map2 g (take 8 a) (take 8 b))"
  have "\<forall>x \<in> set ?acc. \<not> x < Fin 0"
    by (rule map2_fadd_nonneg) (use less.prems assms(1) in auto)
  then show ?case
    using less shorter_by_8 [of a] simd_blocks_step [of a b g acc] simd_blocks_stop [of a b g acc]
    by (cases "8 \<le> length a \<and> 8 \<le> length b") (metis, simp)
qed

lemma simd_sum_nonneg:
  assumes "\<And>x y. \<not> g x y < Fin 0"
  shows "\<not> simd_sum g a b < Fin 0"
proof -
  obtain temp a' b' where s: "simd_blocks g (replicate 8 (Fin 0)) a b = (temp, a', b')"
    by (metis prod_cases3)
  have "\<forall>x \<in> set temp. \<not> x < Fin 0"
    using simd_blocks_nonneg [of g "replicate 8 (Fin 0)" a b] assms s by simp
  then show ?thesis
    by (simp add: simd_sum_def s) (intro foldl_fadd_nonneg; use assms in auto)
qed

section \<open>Properties\<close>

text \<open>
  C33: on vectors of small integers the vectorised kernels compute the exact distance: the
  squared Euclidean distance, and the negated dot product.
\<close>

theorem kernels_exact_on_integers:
  assumes "length xs = n" and "length ys = n"
    and "(\<Sum>(x, y) \<leftarrow> zip xs ys. (x - y)\<^sup>2) < 2 ^ 24" and "(\<Sum>(x, y) \<leftarrow> zip xs ys. \<bar>x * y\<bar>) < 2 ^ 24"
  shows "compute_distance (map fint xs) (map fint ys) n L2 = fint (\<Sum>(x, y) \<leftarrow> zip xs ys. (x - y)\<^sup>2) \<and>
         compute_distance (map fint xs) (map fint ys) n InnerProduct = fint (- (\<Sum>(x, y) \<leftarrow> zip xs ys. x * y))"
proof -
  have sq: "(let d = fsub (fint x) (fint y) in fmul d d) = fint ((x - y)\<^sup>2)" if "(x, y) \<in> set (zip xs ys)" for x y
  proof -
    have "(x - y)\<^sup>2 \<le> (\<Sum>(x, y) \<leftarrow> zip xs ys. (x - y)\<^sup>2)"
      by (rule member_le_sum_list) (use that in force)+
    then have b: "(x - y)\<^sup>2 < 2 ^ 24" using assms(3) by linarith
    then have "\<bar>x - y\<bar> < 2 ^ 12" using power2_less_imp_less [of "\<bar>x - y\<bar>" "2 ^ 12"] by simp
    then have "fsub (fint x) (fint y) = fint (x - y)" by (intro fsub_int) simp
    moreover have "fmul (fint (x - y)) (fint (x - y)) = fint ((x - y)\<^sup>2)"
      unfolding power2_eq_square by (rule fmul_int) (use b in \<open>simp only: flip: power2_eq_square; simp\<close>)
    ultimately show ?thesis by (simp only: Let_def)
  qed
  have mu: "fmul (fint x) (fint y) = fint (x * y)" if "(x, y) \<in> set (zip xs ys)" for x y
  proof -
    have "\<bar>x * y\<bar> \<le> (\<Sum>(x, y) \<leftarrow> zip xs ys. \<bar>x * y\<bar>)"
      by (rule member_le_sum_list) (use that in force)+
    then show ?thesis using assms(4) by (intro fmul_int) linarith
  qed
  have "simd_sum (\<lambda>x y. let d = fsub x y in fmul d d) (map fint xs) (map fint ys)
      = fint (sum_list (map (\<lambda>(x, y). (x - y)\<^sup>2) (zip xs ys)))"
    by (rule simd_sum_int) (use sq assms(3) in \<open>auto simp: zip_map_map split_def comp_def\<close>)
  moreover have "simd_sum fmul (map fint xs) (map fint ys) = fint (sum_list (map (\<lambda>(x, y). x * y) (zip xs ys)))"
    by (rule simd_sum_int) (use mu assms(4) in \<open>auto simp: zip_map_map split_def comp_def\<close>)
  ultimately show ?thesis using assms(1,2)
    by (simp add: compute_distance_def l2_distance_def inner_product_distance_def)
qed

theorem kernels_exact_on_integers_witness:
  "length [3, -1, 4, 1, -5, 9, 2, 6, 5 :: int] = 9 \<and> length [2, 7, 1, -8, 2, 8, 1, 8, 2 :: int] = 9 \<and>
   compute_distance (map fint [3, -1, 4, 1, -5, 9, 2, 6, 5]) (map fint [2, 7, 1, -8, 2, 8, 1, 8, 2]) 9 L2 = fint 219 \<and>
   compute_distance (map fint [3, -1, 4, 1, -5, 9, 2, 6, 5]) (map fint [2, 7, 1, -8, 2, 8, 1, 8, 2]) 9 InnerProduct
     = fint (- 117)"
  using kernels_exact_on_integers [of "[3, -1, 4, 1, -5, 9, 2, 6, 5]" 9 "[2, 7, 1, -8, 2, 8, 1, 8, 2]"]
  by simp

text \<open>
  Every metric is symmetric for all vectors, with infinities and NaNs, and the squared
  Euclidean distance is never negative.
\<close>

lemma distance_symmetric:
  "compute_distance b a len metric = compute_distance a b len metric \<and>
   \<not> compute_distance a b len L2 < Fin 0"
proof -
  have "\<not> compute_distance a b len L2 < Fin 0"
    unfolding compute_distance_def l2_distance_def distance_metric.case
    by (rule simd_sum_nonneg) (simp add: Let_def fmul_self_nonneg)
  moreover have "compute_distance b a len metric = compute_distance a b len metric"
    using simd_sum_swap [of fmul "take len b" "take len a", OF fmul_commute]
      simd_sum_swap [of "\<lambda>x y. let d = fsub x y in fmul d d" "take len b" "take len a", OF l2_swap]
      fmul_commute [of "fsqrt (simd_sum fmul (take len a) (take len a))"]
    by (cases metric)
       (simp_all only: compute_distance_def cosine_distance_def inner_product_distance_def
          l2_distance_def distance_metric.case Let_def)
  ultimately show ?thesis by blast
qed

text \<open>
  The cosine distance of a vector from itself can be negative, outside the range from 0
  to 2 that the header promises: the square of the rounded root of 2 is below 2.
\<close>

lemma cosine_below_zero:
  "cosine_distance [Fin 1, Fin 1] [Fin 1, Fin 1] 2 = Fin (- (1 / 8388608)) \<and>
   cosine_distance [Fin 1, Fin 1] [Fin 1, Fin 1] 2 < Fin 0"
  by code_simp

end
