(* ===== verification/Memory_Map.thy ===== *)
theory Memory_Map
  imports Prelude
begin

text \<open>
  \<^verbatim>\<open>src/storage/memory_map.cpp\<close> (its POSIX half): the file that backs the index, mapped shared
  and writable.  Contents are of any type \<open>'c\<close>; what lies behind the end of a file reads as
  zero once the file is extended, so extending keeps the contents.  The system's answers
  (whether \<open>open\<close>, \<open>ftruncate\<close> and \<open>mmap\<close> succeed) are an argument.
\<close>

section \<open>The handler\<close>

record 'c mapped_file =
  f_size :: nat
  f_data :: 'c

type_synonym 'c files = "string \<rightharpoonup> 'c mapped_file"

text \<open>The pointer \<open>data_\<close>: null, \<open>MAP_FAILED\<close>, or the mapped contents.\<close>

datatype 'c mapping = Unmapped | MapFailed | Mapped 'c

record 'c mmap_handler =
  mm_path :: string
  mm_size :: nat
  mm_data :: "'c mapping"

record os_answers =
  opens :: bool
  truncates :: bool
  maps :: bool

datatype mmap_error = OpenFailed | ResizeFailed | MmapFailed

definition new_mmap :: "'c mmap_handler" where
  "new_mmap = \<lparr>mm_path = '''', mm_size = 0, mm_data = Unmapped\<rparr>"

text \<open>\<open>open_file\<close>; \<open>zero\<close> is what a file of zero bytes holds.\<close>

definition open_mmap ::
  "os_answers \<Rightarrow> 'c \<Rightarrow> string \<Rightarrow> nat \<Rightarrow> 'c mmap_handler \<times> 'c files
   \<Rightarrow> mmap_error option \<times> 'c mmap_handler \<times> 'c files" where
  "open_mmap os zero path min_size hf =
     (case hf of (h, fs) \<Rightarrow>
        let h = h\<lparr>mm_path := path, mm_size := min_size\<rparr> in
        if \<not> opens os then (Some OpenFailed, h, fs)
        else
          let f = (case fs path of Some f \<Rightarrow> f | None \<Rightarrow> \<lparr>f_size = 0, f_data = zero\<rparr>);
              fs = fs(path \<mapsto> f)
          in if f_size f < min_size \<and> \<not> truncates os then (Some ResizeFailed, h, fs)
             else
               let f = (if f_size f < min_size then f\<lparr>f_size := min_size\<rparr> else f);
                   fs = fs(path \<mapsto> f);
                   h = h\<lparr>mm_size := f_size f\<rparr>
               in if \<not> maps os then (Some MmapFailed, h\<lparr>mm_data := MapFailed\<rparr>, fs)
                  else (None, h\<lparr>mm_data := Mapped (f_data f)\<rparr>, fs))"

text \<open>\<open>close_file\<close>: what was written to a shared mapping is in the file.\<close>

definition close_mmap :: "'c mmap_handler \<times> 'c files \<Rightarrow> 'c mmap_handler \<times> 'c files" where
  "close_mmap hf =
     (case hf of (h, fs) \<Rightarrow>
        case mm_data h of
          Unmapped \<Rightarrow> (h, fs)
        | MapFailed \<Rightarrow> (h\<lparr>mm_data := Unmapped\<rparr>, fs)
        | Mapped c \<Rightarrow> (h\<lparr>mm_data := Unmapped\<rparr>, fs(mm_path h \<mapsto> \<lparr>f_size = mm_size h, f_data = c\<rparr>)))"

definition resize_mmap ::
  "os_answers \<Rightarrow> 'c \<Rightarrow> nat \<Rightarrow> 'c mmap_handler \<times> 'c files \<Rightarrow> mmap_error option \<times> 'c mmap_handler \<times> 'c files" where
  "resize_mmap os zero new_size hf = open_mmap os zero (mm_path (fst hf)) new_size (close_mmap hf)"

definition os_ok :: os_answers where
  "os_ok = \<lparr>opens = True, truncates = True, maps = True\<rparr>"

section \<open>Lemmas\<close>

lemma resize_mmap_ok:
  assumes "mm_data h = Mapped c" and "mm_size h \<le> n"
  shows "\<exists>h' fs'. resize_mmap os_ok zero n (h, fs) = (None, h', fs') \<and>
           mm_data h' = Mapped c \<and> mm_size h' = n \<and> mm_path h' = mm_path h"
  using assms
  by (auto simp: resize_mmap_def open_mmap_def close_mmap_def os_ok_def Let_def)

text \<open>Closing and opening again gives back the contents, whatever the size asked for.\<close>

lemma reopen_mmap:
  assumes "mm_data h = Mapped c"
  shows "\<exists>h' fs'. open_mmap os_ok zero (mm_path h) n (g, snd (close_mmap (h, fs))) = (None, h', fs') \<and>
           mm_data h' = Mapped c \<and> mm_size h' = max n (mm_size h)"
  using assms
  by (auto simp: open_mmap_def close_mmap_def os_ok_def Let_def max_def)

end
