(* ===== verification/Metadata_Store.thy ===== *)
theory Metadata_Store
  imports Prelude
begin

text \<open>
  \<^verbatim>\<open>include/storage/metadata_store.hpp\<close>: metadata strings in an append-only file of
  length-prefixed records, with a vector of (offset, length) indexed by vector id.  The file
  is written whole here.  \<open>int\<close> ids are compared with the vector's unsigned size, so a
  negative id counts as out of range.
\<close>

section \<open>The store\<close>

record metadata_store =
  md_bytes :: string
  offsets :: "(nat \<times> nat) list"

definition new_metadata :: metadata_store where
  "new_metadata = \<lparr>md_bytes = '''', offsets = []\<rparr>"

text \<open>\<open>std::vector::resize\<close> with a fill value.\<close>

definition resize :: "nat \<Rightarrow> 'a \<Rightarrow> 'a list \<Rightarrow> 'a list" where
  "resize n v xs = take n xs @ replicate (n - length xs) v"

text \<open>
  \<open>save_metadata\<close>.  A negative id passes the unsigned comparison, so the vector is resized to
  \<open>id + 1000\<close> and then written at a negative index; an id near \<open>INT_MAX\<close> overflows \<open>id + 1000\<close>.  Both are
  undefined.
\<close>

definition save_metadata :: "int \<Rightarrow> string \<Rightarrow> metadata_store \<Rightarrow> metadata_store outcome" where
  "save_metadata i metadata st =
     (if metadata = '''' then Returns st
      else
        let offset = length (md_bytes st);
            len = length metadata;
            st = st\<lparr>md_bytes := md_bytes st @ put_u32 (u32 len) @ metadata\<rparr>
        in if i < 0 then Undefined
           else if nat i \<ge> length (offsets st) \<and> i + 1000 \<ge> 2 ^ 31 then Undefined
           else
             let offs = (if nat i \<ge> length (offsets st) then resize (nat i + 1000) (0, 0) (offsets st)
                         else offsets st)
             in Returns (st\<lparr>offsets := offs[nat i := (offset, len)]\<rparr>))"

definition get_metadata :: "int \<Rightarrow> metadata_store \<Rightarrow> string" where
  "get_metadata i st =
     (if i < 0 \<or> nat i \<ge> length (offsets st) then ''''
      else
        case offsets st ! nat i of (offset, len) \<Rightarrow>
          if len = 0 then ''''
          else
            let data = take len (drop (offset + 4) (md_bytes st))
            in if length data = len then data else '''')"

text \<open>
  \<open>rebuild_index\<close>: one entry per record, numbered from 0.  The last record is entered even if its
  data is cut off: \<open>seekg\<close> past the end succeeds and the loop then sees the end.
\<close>

function rebuild_offsets :: "string \<Rightarrow> nat \<Rightarrow> nat \<Rightarrow> (nat \<times> nat) list \<Rightarrow> (nat \<times> nat) list" where
  "rebuild_offsets bs pos current_id offs =
     (if length bs \<le> pos then offs
      else if length bs < pos + 4 then offs
      else
        let len = get_u32 (drop pos bs);
            offs = (if current_id \<ge> length offs then resize (current_id + 1000) (0, 0) offs else offs)
        in rebuild_offsets bs (pos + 4 + len) (current_id + 1) (offs[current_id := (pos, len)]))"
  by pat_completeness auto
termination by (relation "measure (\<lambda>(bs, pos, current_id, offs). length bs - pos)") auto

declare rebuild_offsets.simps [simp del]

definition open_metadata :: "string \<Rightarrow> metadata_store \<Rightarrow> metadata_store" where
  "open_metadata bs st = \<lparr>md_bytes = bs, offsets = rebuild_offsets bs 0 0 (offsets st)\<rparr>"

section \<open>What is stored where\<close>

text \<open>An id's entry points at a record with its data, or is empty.\<close>

definition entry_ok :: "string \<Rightarrow> nat \<times> nat \<Rightarrow> bool" where
  "entry_ok bs e \<longleftrightarrow> snd e = 0 \<or> fst e + 4 + snd e \<le> length bs"

definition metadata_wf :: "metadata_store \<Rightarrow> bool" where
  "metadata_wf st \<longleftrightarrow> (\<forall>e \<in> set (offsets st). entry_ok (md_bytes st) e)"

lemma length_resize [simp]: "length (resize n v xs) = n"
  by (simp add: resize_def)

lemma nth_resize: "i < n \<Longrightarrow> resize n v xs ! i = (if i < length xs then xs ! i else v)"
  by (simp add: resize_def nth_append)

lemma set_resize: "set (resize n v xs) \<subseteq> insert v (set xs)"
  by (auto simp: resize_def dest: in_set_takeD)

lemma entry_ok_append: "entry_ok bs e \<Longrightarrow> entry_ok (bs @ cs) e"
  by (auto simp: entry_ok_def)

lemma all_set_update: "\<forall>e \<in> set xs. P e \<Longrightarrow> P v \<Longrightarrow> \<forall>e \<in> set (xs[i := v]). P e"
  using set_update_subset_insert by fastforce

lemma save_metadata_wf:
  assumes "metadata_wf st" and "save_metadata i m st = Returns st'"
  shows "metadata_wf st'"
proof (cases "m = ''''")
  case False
  let ?offs = "if nat i \<ge> length (offsets st) then resize (nat i + 1000) (0, 0) (offsets st) else offsets st"
  have st': "st' = \<lparr>md_bytes = md_bytes st @ put_u32 (u32 (length m)) @ m,
      offsets = ?offs[nat i := (length (md_bytes st), length m)]\<rparr>"
    using assms(2) False by (auto simp: save_metadata_def Let_def split: if_splits)
  have "set ?offs \<subseteq> insert (0, 0) (set (offsets st))"
    by (simp add: set_resize subset_insertI)
  then have "\<forall>e \<in> set ?offs. entry_ok (md_bytes st) e"
    using assms(1) by (auto simp: metadata_wf_def entry_ok_def)
  then have "\<forall>e \<in> set ?offs. entry_ok (md_bytes st') e" by (simp add: st' entry_ok_append)
  moreover have "entry_ok (md_bytes st') (length (md_bytes st), length m)" by (simp add: st' entry_ok_def)
  ultimately have "\<forall>e \<in> set (?offs[nat i := (length (md_bytes st), length m)]). entry_ok (md_bytes st') e"
    by (rule all_set_update)
  then show ?thesis by (simp add: metadata_wf_def st')
qed (use assms in \<open>simp add: save_metadata_def\<close>)

text \<open>The value an entry stands for.\<close>

definition value_at :: "string \<Rightarrow> nat \<times> nat \<Rightarrow> string" where
  "value_at bs e = take (snd e) (drop (fst e + 4) bs)"

lemma get_metadata_value:
  assumes "metadata_wf st" and "0 \<le> i" and "nat i < length (offsets st)"
  shows "get_metadata i st = value_at (md_bytes st) (offsets st ! nat i)"
proof -
  have "entry_ok (md_bytes st) (offsets st ! nat i)"
    using assms by (simp add: metadata_wf_def)
  with assms(2,3) show ?thesis
    by (cases "offsets st ! nat i") (auto simp: get_metadata_def value_at_def entry_ok_def Let_def)
qed

lemma value_at_append: "entry_ok bs e \<Longrightarrow> value_at (bs @ cs) e = value_at bs e"
  by (auto simp: value_at_def entry_ok_def)

lemma get_after_save:
  assumes "metadata_wf st" and "save_metadata i m st = Returns st'" and "m \<noteq> ''''"
  shows "get_metadata j st' = (if j = i then m else get_metadata j st)"
proof -
  let ?offs = "if nat i \<ge> length (offsets st) then resize (nat i + 1000) (0, 0) (offsets st) else offsets st"
  have st': "st' = \<lparr>md_bytes = md_bytes st @ put_u32 (u32 (length m)) @ m,
      offsets = ?offs[nat i := (length (md_bytes st), length m)]\<rparr>" and i: "0 \<le> i"
    using assms(2,3) by (auto simp: save_metadata_def Let_def split: if_splits)
  have wf': "metadata_wf st'" by (rule save_metadata_wf) fact+
  have len: "nat i < length (offsets st')" "length (offsets st) \<le> length (offsets st')" by (simp_all add: st')
  consider "j = i" | "j < 0" | "j \<noteq> i" "0 \<le> j" "nat j < length (offsets st)"
    | "j \<noteq> i" "0 \<le> j" "length (offsets st) \<le> nat j" "nat j < length (offsets st')"
    | "j \<noteq> i" "0 \<le> j" "length (offsets st') \<le> nat j"
    by linarith
  then show ?thesis
  proof cases
    case 1
    with i len show ?thesis by (simp add: get_metadata_value [OF wf'], simp add: st' value_at_def)
  next
    case 2
    with i show ?thesis by (simp add: get_metadata_def)
  next
    case 3
    then have ne: "nat j \<noteq> nat i" using i by auto
    have "offsets st' ! nat j = offsets st ! nat j" using 3 ne by (simp add: st' nth_resize)
    moreover have "entry_ok (md_bytes st) (offsets st ! nat j)" using 3 assms(1) by (simp add: metadata_wf_def)
    ultimately show ?thesis
      using 3 len by (simp add: get_metadata_value [OF wf'] get_metadata_value [OF assms(1)])
        (simp add: st' value_at_append)
  next
    case 4
    then have "nat j \<noteq> nat i" using i by auto
    then have "offsets st' ! nat j = (0, 0)" using 4 by (auto simp: st' nth_resize)
    with 4 show ?thesis by (simp add: get_metadata_value [OF wf'] value_at_def) (simp add: get_metadata_def)
  next
    case 5
    with len show ?thesis by (simp add: get_metadata_def)
  qed
qed

section \<open>Replaying the file\<close>

definition encode_md :: "string \<Rightarrow> string" where
  "encode_md m = put_u32 (length m) @ m"

text \<open>Where the records of \<open>ms\<close> start, if the first starts at \<open>pos\<close>.\<close>

primrec record_offsets :: "nat \<Rightarrow> string list \<Rightarrow> (nat \<times> nat) list" where
  "record_offsets pos [] = []"
| "record_offsets pos (m # ms) = (pos, length m) # record_offsets (pos + (4 + length m)) ms"

lemma length_record_offsets [simp]: "length (record_offsets pos ms) = length ms"
  by (induction ms arbitrary: pos) simp_all

lemma rebuild_records:
  assumes "\<forall>m \<in> set ms. length m < 2 ^ 32" and "cid \<le> length offs"
    and "\<forall>i. cid \<le> i \<and> i < length offs \<longrightarrow> offs ! i = (0, 0)"
  shows "let offs' = rebuild_offsets (bs @ concat (map encode_md ms)) (length bs) cid offs in
    length offs \<le> length offs' \<and> cid + length ms \<le> length offs' \<and>
    (\<forall>i < length offs'. offs' ! i = (if i < cid then offs ! i
       else if i < cid + length ms then record_offsets (length bs) ms ! (i - cid) else (0, 0)))"
  using assms
proof (induction ms arbitrary: bs cid offs)
  case Nil
  then show ?case by (subst rebuild_offsets.simps) (auto simp: Let_def)
next
  case (Cons m ms)
  let ?all = "bs @ concat (map encode_md (m # ms))"
  let ?offs = "(if cid \<ge> length offs then resize (cid + 1000) (0, 0) offs else offs)[cid := (length bs, length m)]"
  have get: "get_u32 (drop (length bs) ?all) = length m"
    using Cons.prems(1) by (simp add: encode_md_def wrap_simps)
  have step: "rebuild_offsets ?all (length bs) cid offs =
      rebuild_offsets ((bs @ encode_md m) @ concat (map encode_md ms)) (length (bs @ encode_md m)) (Suc cid) ?offs"
    using get by (subst rebuild_offsets.simps) (simp add: encode_md_def Let_def add.assoc)
  have len: "Suc cid \<le> length ?offs" "length offs \<le> length ?offs" using Cons.prems(2) by auto
  have old: "?offs ! i = offs ! i" if "i < cid" for i
    using that Cons.prems(2) by (simp add: nth_resize)
  have at: "?offs ! cid = (length bs, length m)" using Cons.prems(2) by simp
  have zero: "\<forall>i. Suc cid \<le> i \<and> i < length ?offs \<longrightarrow> ?offs ! i = (0, 0)"
    using Cons.prems(2,3) by (auto simp: nth_resize)
  from Cons.IH [OF _ len(1) zero, of "bs @ encode_md m"] Cons.prems(1)
  show ?case
    unfolding step Let_def using len(2) old at
    by (auto simp: nth_Cons' encode_md_def less_Suc_eq)
qed

section \<open>Runs of saves\<close>

fun save_all :: "(int \<times> string) list \<Rightarrow> metadata_store \<Rightarrow> metadata_store outcome" where
  "save_all [] st = Returns st"
| "save_all ((i, m) # ops) st = bind_outcome (save_metadata i m st) (save_all ops)"

text \<open>What a reader of id \<open>j\<close> should see: the last non-empty metadata saved for it.\<close>

definition latest :: "int \<Rightarrow> (int \<times> string) list \<Rightarrow> string \<Rightarrow> string" where
  "latest j ops m0 = fold (\<lambda>(i, m) acc. if i = j \<and> m \<noteq> '''' then m else acc) ops m0"

definition saved :: "(int \<times> string) list \<Rightarrow> string list" where
  "saved ops = filter (\<lambda>m. m \<noteq> '''') (map snd ops)"

lemma save_bytes:
  assumes "save_metadata i m st = Returns st'" and "length m < 2 ^ 32"
  shows "md_bytes st' = md_bytes st @ (if m = '''' then '''' else encode_md m)"
  using assms by (auto simp: save_metadata_def encode_md_def Let_def wrap_simps split: if_splits)

lemma save_all_latest:
  assumes "save_all ops st = Returns st'" and "metadata_wf st"
  shows "metadata_wf st' \<and> get_metadata j st' = latest j ops (get_metadata j st)"
  using assms
proof (induction ops arbitrary: st)
  case Nil
  then show ?case by (simp add: latest_def)
next
  case (Cons im ops)
  obtain i m where im: "im = (i, m)" by (cases im)
  then obtain st1 where st1: "save_metadata i m st = Returns st1" "save_all ops st1 = Returns st'"
    using Cons.prems(1) by auto
  have get: "get_metadata j st1 = (if i = j \<and> m \<noteq> '''' then m else get_metadata j st)"
    using st1(1) get_after_save [OF Cons.prems(2) st1(1), of j]
    by (cases "m = ''''") (auto simp: save_metadata_def)
  from Cons.IH [OF st1(2) save_metadata_wf [OF Cons.prems(2) st1(1)]] show ?case
    by (simp add: im latest_def get)
qed

lemma save_all_bytes:
  assumes "save_all ops st = Returns st'" and "\<forall>m \<in> set (map snd ops). length m < 2 ^ 32"
  shows "md_bytes st' = md_bytes st @ concat (map encode_md (saved ops))"
  using assms
proof (induction ops arbitrary: st)
  case Nil
  then show ?case by (simp add: saved_def)
next
  case (Cons im ops)
  obtain i m where im: "im = (i, m)" by (cases im)
  then obtain st1 where st1: "save_metadata i m st = Returns st1" "save_all ops st1 = Returns st'"
    using Cons.prems(1) by auto
  with Cons.IH [OF st1(2)] save_bytes [OF st1(1)] Cons.prems(2) show ?case
    by (simp add: im saved_def)
qed

lemma save_defined: "0 \<le> i \<Longrightarrow> i + 1000 < 2 ^ 31 \<Longrightarrow> \<exists>st'. save_metadata i m st = Returns st'"
  by (auto simp: save_metadata_def Let_def)

lemma save_all_defined:
  "\<forall>i \<in> fst ` set ops. 0 \<le> i \<and> i + 1000 < 2 ^ 31 \<Longrightarrow> \<exists>st'. save_all ops st = Returns st'"
proof (induction ops arbitrary: st)
  case (Cons im ops)
  obtain i m where im: "im = (i, m)" by (cases im)
  with Cons.prems have "0 \<le> i" "i + 1000 < 2 ^ 31" by simp_all
  then obtain st1 where "save_metadata i m st = Returns st1" using save_defined by blast
  with Cons im show ?case by simp
qed simp

lemma value_at_record:
  "k < length ms \<Longrightarrow> value_at (bs @ concat (map encode_md ms)) (record_offsets (length bs) ms ! k) = ms ! k"
proof (induction ms arbitrary: bs k)
  case (Cons m ms)
  show ?case
  proof (cases k)
    case 0
    then show ?thesis by (simp add: value_at_def encode_md_def)
  next
    case (Suc k')
    with Cons.IH [of k' "bs @ encode_md m"] Cons.prems show ?thesis by (simp add: encode_md_def)
  qed
qed simp

lemma record_entry_ok:
  "k < length ms \<Longrightarrow> entry_ok (bs @ concat (map encode_md ms)) (record_offsets (length bs) ms ! k)"
proof (induction ms arbitrary: bs k)
  case (Cons m ms)
  show ?case
  proof (cases k)
    case 0
    then show ?thesis by (simp add: entry_ok_def encode_md_def)
  next
    case (Suc k')
    with Cons.IH [of k' "bs @ encode_md m"] Cons.prems show ?thesis by (simp add: encode_md_def)
  qed
qed simp

lemma reopen_offsets:
  assumes "\<forall>m \<in> set ms. length m < 2 ^ 32"
  defines "st \<equiv> open_metadata (concat (map encode_md ms)) new_metadata"
  shows "md_bytes st = concat (map encode_md ms)" "length ms \<le> length (offsets st)" "metadata_wf st"
    "i < length (offsets st) \<Longrightarrow> offsets st ! i = (if i < length ms then record_offsets 0 ms ! i else (0, 0))"
proof -
  let ?bs = "concat (map encode_md ms)"
  show bytes: "md_bytes st = ?bs" by (simp add: st_def open_metadata_def)
  have offs: "offsets st = rebuild_offsets ?bs 0 0 []" by (simp add: st_def open_metadata_def new_metadata_def)
  from rebuild_records [OF assms(1), of 0 "[]" "[]"]
  show "length ms \<le> length (offsets st)"
    and at: "i < length (offsets st) \<Longrightarrow> offsets st ! i = (if i < length ms then record_offsets 0 ms ! i else (0, 0))" for i
    by (auto simp: Let_def offs)
  have "entry_ok ?bs (offsets st ! k)" if "k < length (offsets st)" for k
    using at [OF that] record_entry_ok [of k ms "[]"] by (simp add: entry_ok_def)
  then show "metadata_wf st" unfolding metadata_wf_def bytes by (metis in_set_conv_nth)
qed

lemma reopen_by_position:
  assumes "\<forall>m \<in> set ms. length m < 2 ^ 32"
  shows "get_metadata (int k) (open_metadata (concat (map encode_md ms)) new_metadata) =
    (if k < length ms then ms ! k else '''')"
proof -
  let ?st = "open_metadata (concat (map encode_md ms)) new_metadata"
  note r = reopen_offsets [OF assms]
  show ?thesis
  proof (cases "k < length (offsets ?st)")
    case True
    with r(4) [OF True] value_at_record [of k ms "[]"] show ?thesis
      by (simp add: get_metadata_value [OF r(3)] r(1)) (simp add: value_at_def)
  next
    case False
    with r(2) show ?thesis by (simp add: get_metadata_def)
  qed
qed

section \<open>Properties\<close>

text \<open>
  Readers see the last write.  Any run of saves with ids that fit returns, and then reading an
  id gives the last non-empty metadata saved for it, or nothing if there was none; saving one
  id never disturbs another.
\<close>

lemma metadata_read_latest:
  assumes "\<forall>i \<in> fst ` set ops. 0 \<le> i \<and> i + 1000 < 2 ^ 31"
  shows "\<exists>st. save_all ops new_metadata = Returns st \<and> (\<forall>j. get_metadata j st = latest j ops '''')"
proof -
  obtain st where st: "save_all ops new_metadata = Returns st" using save_all_defined [OF assms] by blast
  have "metadata_wf new_metadata" "\<And>j. get_metadata j new_metadata = ''''"
    by (simp_all add: metadata_wf_def new_metadata_def get_metadata_def)
  with save_all_latest [OF st] st show ?thesis by auto
qed

text \<open>
  C37: a restart renumbers.  After reopening the file, the metadata found under id \<open>k\<close> is the
  \<open>k\<close>-th non-empty one that was saved, whatever ids they were saved under.
\<close>

theorem metadata_restart_by_position:
  assumes "save_all ops new_metadata = Returns st" and "\<forall>m \<in> set (map snd ops). length m < 2 ^ 32"
  shows "get_metadata (int k) (open_metadata (md_bytes st) new_metadata) =
    (if k < length (saved ops) then saved ops ! k else '''')"
proof -
  have "\<forall>m \<in> set (saved ops). length m < 2 ^ 32" using assms(2) by (auto simp: saved_def)
  from reopen_by_position [OF this] show ?thesis
    using save_all_bytes [OF assms] by (simp add: new_metadata_def)
qed

theorem metadata_restart_by_position_witness:
  "\<exists>st. save_all [(5, ''x'')] new_metadata = Returns st \<and>
     get_metadata 5 st = ''x'' \<and> get_metadata (int 0) (open_metadata (md_bytes st) new_metadata) = ''x''"
proof -
  obtain st where st: "save_all [(5, ''x'')] new_metadata = Returns st"
    using save_all_defined [of "[(5, ''x'')]"] by auto
  have "get_metadata 5 st = ''x''"
    using save_all_latest [OF st, of 5] by (simp add: latest_def metadata_wf_def new_metadata_def)
  with st metadata_restart_by_position [OF st, of 0] show ?thesis by (simp add: saved_def)
qed

text \<open>
  So ids that were saved in order survive a restart.  If each of the ids 0, 1, 2, ... was
  saved once, in that order and never with empty metadata, reopening changes nothing a reader can see.
\<close>

lemma metadata_sequential_survives:
  assumes "\<forall>m \<in> set ms. m \<noteq> '''' \<and> length m < 2 ^ 32"
    and "save_all (zip (map int [0..<length ms]) ms) new_metadata = Returns st" and "0 \<le> j"
  shows "get_metadata j (open_metadata (md_bytes st) new_metadata) = get_metadata j st"
proof -
  let ?ops = "zip (map int [0..<length ms]) ms"
  have saved: "saved ?ops = ms" using assms(1) by (simp add: saved_def)
  have late: "latest (int k) ?ops '''' = (if k < length ms then ms ! k else '''')" for k
    using assms(1)
  proof (induction ms rule: rev_induct)
    case (snoc m ms)
    then show ?case by (auto simp: latest_def nth_append less_Suc_eq)
  qed (simp add: latest_def)
  have "metadata_wf new_metadata" "get_metadata j new_metadata = ''''"
    by (simp_all add: metadata_wf_def new_metadata_def get_metadata_def)
  with save_all_latest [OF assms(2)] have "get_metadata j st = latest j ?ops ''''" by simp
  also have "\<dots> = (if nat j < length ms then ms ! nat j else '''')" using late [of "nat j"] assms(3) by simp
  also have "\<dots> = get_metadata j (open_metadata (md_bytes st) new_metadata)"
    using reopen_by_position [of ms "nat j"] save_all_bytes [OF assms(2)] assms(1,3) saved
    by (simp add: new_metadata_def)
  finally show ?thesis by simp
qed

end
