(* ===== verification/Hnsw.thy ===== *)
theory Hnsw
  imports Distance Memory_Map Metadata_Store
begin

text \<open>
  \<^verbatim>\<open>include/index/hnsw.hpp\<close> with \<^verbatim>\<open>include/index/graph_node.hpp\<close> and the constants of
  \<^verbatim>\<open>include/config\<close>: the vector index, a layered graph of fixed-size nodes in a mapped file.
  A node is addressed by its id; reading one that does not lie inside the mapping, or an
  array past its end, is \<open>Undefined\<close>.  Calls run one after another here.  The draws of the
  random generator and the system's answers to a resize are arguments.  Among elements of
  equal distance a \<open>std::priority_queue\<close> is taken to give back the one that was pushed first.
\<close>

section \<open>Constants and data\<close>

definition VECTOR_DIM :: nat where "VECTOR_DIM = 128"
definition M :: nat where "M = 16"
definition M_MAX0 :: nat where "M_MAX0 = M * 2"
definition EF_CONSTRUCTION :: nat where "EF_CONSTRUCTION = 200"
definition MAX_LAYERS :: nat where "MAX_LAYERS = 4"

definition NANODB_MAGIC :: nat where "NANODB_MAGIC = 1313096192"
definition HEADER_SIZE :: nat where "HEADER_SIZE = 64"

text \<open>
  \<open>sizeof(Node)\<close>: id, layer and flag with padding (12 bytes), 128 floats, 4 times 32 links
  and 4 counts, rounded up to the alignment of 32.
\<close>

definition NODE_SIZE :: nat where "NODE_SIZE = 1056"

record file_header =
  magic :: nat
  h_element_count :: nat
  h_entry_point_id :: int
  h_max_layer :: int

record node =
  nd_id :: nat
  nd_max_layer :: int
  is_deleted :: bool
  nd_vector :: "f32 list"
  neighbors :: "nat list list"
  neighbor_counts :: "nat list"

definition zero_node :: node where
  "zero_node = \<lparr>nd_id = 0, nd_max_layer = 0, is_deleted = False, nd_vector = replicate VECTOR_DIM (Fin 0),
     neighbors = replicate MAX_LAYERS (replicate M_MAX0 0), neighbor_counts = replicate MAX_LAYERS 0\<rparr>"

text \<open>The constructor, from a vector with at least \<open>VECTOR_DIM\<close> elements.\<close>

definition new_node :: "nat \<Rightarrow> int \<Rightarrow> f32 list \<Rightarrow> node" where
  "new_node external_id level vec_data =
     \<lparr>nd_id = external_id, nd_max_layer = level, is_deleted = False, nd_vector = take VECTOR_DIM vec_data,
      neighbors = replicate MAX_LAYERS (replicate M_MAX0 (2 ^ 32 - 1)),
      neighbor_counts = replicate MAX_LAYERS 0\<rparr>"

record contents =
  header :: file_header
  node_at :: "nat \<Rightarrow> node"

definition zero_contents :: contents where
  "zero_contents = \<lparr>header = \<lparr>magic = 0, h_element_count = 0, h_entry_point_id = 0, h_max_layer = 0\<rparr>,
     node_at = (\<lambda>_. zero_node)\<rparr>"

text \<open>\<open>Result\<close>, ordered by distance.\<close>

record result =
  r_id :: nat
  r_distance :: f32
  r_metadata :: string

record hnsw =
  storage :: "contents mmap_handler \<times> contents files"
  metadata :: metadata_store
  metric :: distance_metric
  entry_point_id :: nat
  current_max_layer :: int
  element_count :: nat
  node_locks :: nat

text \<open>\<open>id_t\<close> and \<open>int\<close> are the same 32 bits.\<close>

definition as_int :: "nat \<Rightarrow> int" where
  "as_int i = (if i < 2 ^ 31 then int i else int i - 2 ^ 32)"

definition as_id :: "int \<Rightarrow> nat" where
  "as_id z = nat (z mod 2 ^ 32)"

definition no_id :: nat where
  "no_id = 2 ^ 32 - 1"

section \<open>Storage access\<close>

definition contents_of :: "hnsw \<Rightarrow> contents" where
  "contents_of h = (case mm_data (fst (storage h)) of Mapped c \<Rightarrow> c | _ \<Rightarrow> zero_contents)"

definition get_size :: "hnsw \<Rightarrow> nat" where
  "get_size h = mm_size (fst (storage h))"

definition set_contents :: "contents \<Rightarrow> hnsw \<Rightarrow> hnsw" where
  "set_contents c h = h\<lparr>storage := ((fst (storage h))\<lparr>mm_data := Mapped c\<rparr>, snd (storage h))\<rparr>"

definition node_end :: "nat \<Rightarrow> nat" where
  "node_end i = HEADER_SIZE + i * NODE_SIZE + NODE_SIZE"

definition in_storage :: "nat \<Rightarrow> hnsw \<Rightarrow> bool" where
  "in_storage i h \<longleftrightarrow> (\<exists>c. mm_data (fst (storage h)) = Mapped c) \<and> node_end i \<le> get_size h"

definition get_node :: "hnsw \<Rightarrow> nat \<Rightarrow> node outcome" where
  "get_node h i =
     (case mm_data (fst (storage h)) of
        Mapped c \<Rightarrow> (if node_end i \<le> get_size h then Returns (node_at c i) else Undefined)
      | _ \<Rightarrow> Undefined)"

lemma get_node_Returns:
  "get_node h i = Returns nd \<longleftrightarrow> in_storage i h \<and> nd = node_at (contents_of h) i"
  by (auto simp: get_node_def in_storage_def contents_of_def split: mapping.splits)

definition set_node_at :: "nat \<Rightarrow> node \<Rightarrow> hnsw \<Rightarrow> hnsw" where
  "set_node_at i nd h = (let c = contents_of h in set_contents (c\<lparr>node_at := (node_at c)(i := nd)\<rparr>) h)"

definition persist_header :: "hnsw \<Rightarrow> hnsw" where
  "persist_header h =
     (let c = contents_of h
      in set_contents (c\<lparr>header := (header c)\<lparr>h_element_count := u32 (element_count h),
           h_entry_point_id := as_int (entry_point_id h), h_max_layer := current_max_layer h\<rparr>\<rparr>) h)"

text \<open>The constructor, on opened metadata; without a mapping it reads the header through a null pointer.\<close>

definition open_hnsw :: "contents mmap_handler \<times> contents files \<Rightarrow> metadata_store \<Rightarrow> distance_metric \<Rightarrow> hnsw outcome" where
  "open_hnsw st md mt =
     (let h = \<lparr>storage = st, metadata = md, metric = mt, entry_point_id = no_id, current_max_layer = - 1,
               element_count = 0, node_locks = 10000\<rparr>
      in case mm_data (fst st) of
           Mapped c \<Rightarrow>
             Returns (if magic (header c) \<noteq> NANODB_MAGIC
               then set_contents (c\<lparr>header := \<lparr>magic = NANODB_MAGIC, h_element_count = 0,
                      h_entry_point_id = - 1, h_max_layer = - 1\<rparr>\<rparr>) h
               else h\<lparr>entry_point_id := as_id (h_entry_point_id (header c)),
                      current_max_layer := h_max_layer (header c),
                      element_count := h_element_count (header c),
                      node_locks := h_element_count (header c) + 10000\<rparr>)
         | _ \<Rightarrow> Undefined)"

section \<open>Search\<close>

definition dist_to :: "hnsw \<Rightarrow> f32 list \<Rightarrow> nat \<Rightarrow> f32 outcome" where
  "dist_to h q i = bind_outcome (get_node h i) (\<lambda>nd. Returns (compute_distance q (nd_vector nd) VECTOR_DIM (metric h)))"

text \<open>The links of a node in a layer, in the order of the loops over \<open>neighbor_counts[layer]\<close>.\<close>

definition layer_links :: "nat \<Rightarrow> node \<Rightarrow> nat list outcome" where
  "layer_links l nd =
     bind_outcome (vector_at (neighbor_counts nd) l) (\<lambda>count.
     bind_outcome (vector_at (neighbors nd) l) (\<lambda>row.
       if count \<le> length row then Returns (take count row) else Undefined))"

definition links_of :: "hnsw \<Rightarrow> nat \<Rightarrow> nat \<Rightarrow> nat list outcome" where
  "links_of h l i = bind_outcome (get_node h i) (layer_links l)"

text \<open>One pass over the links in the greedy descent.\<close>

fun scan_links :: "(nat \<Rightarrow> f32 outcome) \<Rightarrow> nat list \<Rightarrow> f32 \<times> nat \<times> bool \<Rightarrow> (f32 \<times> nat \<times> bool) outcome" where
  "scan_links D [] s = Returns s"
| "scan_links D (n # ns) s =
     (case D n of
        Undefined \<Rightarrow> Undefined
      | Returns d \<Rightarrow> scan_links D ns (if d < fst s then (d, n, True) else s))"

lemma scan_links_closer:
  "scan_links D ns (cur, obj, changed) = Returns (cur', obj', True) \<Longrightarrow> \<not> changed \<Longrightarrow>
   cur' < cur \<and> D obj' = Returns cur'"
proof -
  have "scan_links D ns s = Returns (cur', obj', True) \<Longrightarrow>
    (snd (snd s) \<longrightarrow> D (fst (snd s)) = Returns (fst s)) \<Longrightarrow>
    (cur' < fst s \<or> (cur', obj', True) = s) \<and> D obj' = Returns cur'" for s
  proof (induction ns arbitrary: s)
    case (Cons n ns)
    from Cons.prems(1) obtain d where d: "D n = Returns d" by (auto split: outcome.splits)
    show ?case
    proof (cases "d < fst s")
      case True
      with d Cons.prems(1) Cons.IH [of "(d, n, True)"]
      have "(cur' < d \<or> cur' = d) \<and> D obj' = Returns cur'" by auto
      with True show ?thesis by (auto dest: less_f32_trans)
    qed (use d Cons in auto)
  qed auto
  from this [of "(cur, obj, changed)"]
  show "scan_links D ns (cur, obj, changed) = Returns (cur', obj', True) \<Longrightarrow> \<not> changed \<Longrightarrow>
   cur' < cur \<and> D obj' = Returns cur'" by auto
qed

definition closer :: "hnsw \<Rightarrow> f32 list \<Rightarrow> f32 \<Rightarrow> nat set" where
  "closer h q cur = {i. \<exists>d. dist_to h q i = Returns d \<and> d < cur}"

lemma finite_closer: "finite (closer h q cur)"
proof -
  have "closer h q cur \<subseteq> {..get_size h}"
    by (auto simp: closer_def dist_to_def get_node_Returns in_storage_def node_end_def NODE_SIZE_def)
  then show ?thesis using finite_subset by blast
qed

lemma closer_shrinks:
  assumes "dist_to h q i = Returns d" and "d < cur"
  shows "card (closer h q d) < card (closer h q cur)"
proof (rule psubset_card_mono [OF finite_closer])
  have "i \<in> closer h q cur" "i \<notin> closer h q d" using assms by (auto simp: closer_def)
  moreover have "closer h q d \<subseteq> closer h q cur"
    using assms(2) by (auto simp: closer_def dest: less_f32_trans)
  ultimately show "closer h q d \<subset> closer h q cur" by blast
qed

function descend_layer :: "hnsw \<Rightarrow> f32 list \<Rightarrow> nat \<Rightarrow> f32 \<times> nat \<Rightarrow> (f32 \<times> nat) outcome" where
  "descend_layer h q l (cur, obj) =
     (case links_of h l obj of
        Undefined \<Rightarrow> Undefined
      | Returns ns \<Rightarrow>
          (case scan_links (dist_to h q) ns (cur, obj, False) of
             Undefined \<Rightarrow> Undefined
           | Returns (cur', obj', changed) \<Rightarrow>
               if changed then descend_layer h q l (cur', obj') else Returns (cur', obj')))"
  by pat_completeness auto
termination
proof (relation "measure (\<lambda>(h, q, l, s). card (closer h q (fst s)))", goal_cases)
  case (2 h q l cur obj ns s cur' p obj' changed)
  then have "cur' < cur \<and> dist_to h q obj' = Returns cur'"
    using scan_links_closer [of "dist_to h q" ns cur obj False cur' obj'] by simp
  then show ?case using closer_shrinks [of h q obj' cur' cur] by simp
qed simp

declare descend_layer.simps [simp del]

text \<open>The descent through several layers, from the top one on.\<close>

fun descend :: "hnsw \<Rightarrow> f32 list \<Rightarrow> nat list \<Rightarrow> f32 \<times> nat \<Rightarrow> (f32 \<times> nat) outcome" where
  "descend h q [] s = Returns s"
| "descend h q (l # ls) s = bind_outcome (descend_layer h q l s) (descend h q ls)"

text \<open>The layers \<open>from, from - 1, \<dots>, to + 1\<close>.\<close>

definition layers_above :: "int \<Rightarrow> int \<Rightarrow> nat list" where
  "layers_above from to = map nat (rev [to + 1..from])"

text \<open>
  Priority queues as lists with the top first: \<open>candidates\<close> has the smallest distance on
  top, \<open>found_results\<close> the largest.
\<close>

fun push_min :: "result \<Rightarrow> result list \<Rightarrow> result list" where
  "push_min r [] = [r]"
| "push_min r (x # xs) = (if r_distance r < r_distance x then r # x # xs else x # push_min r xs)"

fun push_max :: "result \<Rightarrow> result list \<Rightarrow> result list" where
  "push_max r [] = [r]"
| "push_max r (x # xs) = (if r_distance x < r_distance r then r # x # xs else x # push_max r xs)"

abbreviation new_result :: "nat \<Rightarrow> f32 \<Rightarrow> result" where
  "new_result i d \<equiv> \<lparr>r_id = i, r_distance = d, r_metadata = ''''\<rparr>"

text \<open>
  The state of the beam search: the visited ids (set in a bit vector of \<open>bound\<close> bits),
  \<open>candidates\<close> and \<open>found_results\<close>.
\<close>

type_synonym beam_state = "nat list \<times> result list \<times> result list"

fun visit_links :: "hnsw \<Rightarrow> f32 list \<Rightarrow> nat \<Rightarrow> nat \<Rightarrow> nat list \<Rightarrow> beam_state \<Rightarrow> beam_state outcome" where
  "visit_links h q ef bound [] s = Returns s"
| "visit_links h q ef bound (n # ns) (visited, candidates, found) =
     (if n \<ge> bound \<or> n \<in> set visited then visit_links h q ef bound ns (visited, candidates, found)
      else
        case get_node h n of
          Undefined \<Rightarrow> Undefined
        | Returns nd \<Rightarrow>
            let d = compute_distance q (nd_vector nd) VECTOR_DIM (metric h); visited = n # visited in
            if length found < ef \<or> d < r_distance (hd found)
            then
              let candidates = push_min (new_result n d) candidates;
                  pushed = push_max (new_result n d) found;
                  found = (if is_deleted nd then found
                           else if length pushed > ef then tl pushed else pushed)
              in visit_links h q ef bound ns (visited, candidates, found)
            else visit_links h q ef bound ns (visited, candidates, found))"

definition unvisited :: "nat \<Rightarrow> nat list \<Rightarrow> nat" where
  "unvisited bound visited = card ({..<bound} - set visited)"

lemma length_push [simp]: "length (push_min r xs) = Suc (length xs)" "length (push_max r xs) = Suc (length xs)"
  by (induction xs) auto

lemma unvisited_step: "n < bound \<Longrightarrow> n \<notin> set visited \<Longrightarrow> unvisited bound visited = Suc (unvisited bound (n # visited))"
proof -
  assume a: "n < bound" "n \<notin> set visited"
  then have "insert n ({..<bound} - set (n # visited)) = {..<bound} - set visited" by auto
  moreover have "card (insert n ({..<bound} - set (n # visited))) = Suc (card ({..<bound} - set (n # visited)))"
    by (rule card_insert_disjoint) auto
  ultimately show ?thesis unfolding unvisited_def by metis
qed

lemma visit_links_work:
  "visit_links h q ef bound ns (visited, candidates, found) = Returns (visited', candidates', found') \<Longrightarrow>
   unvisited bound visited' + length candidates' \<le> unvisited bound visited + length candidates"
proof (induction ns arbitrary: visited candidates found)
  case (Cons n ns)
  show ?case
  proof (cases "n \<ge> bound \<or> n \<in> set visited")
    case True
    with Cons.prems have "visit_links h q ef bound ns (visited, candidates, found) = Returns (visited', candidates', found')"
      by simp
    then show ?thesis by (rule Cons.IH)
  next
    case False
    then have "unvisited bound visited = Suc (unvisited bound (n # visited))"
      by (intro unvisited_step) auto
    with False Cons.prems show ?thesis
      by (auto simp: Let_def split: outcome.splits if_splits dest!: Cons.IH)
  qed
qed simp

function beam :: "hnsw \<Rightarrow> f32 list \<Rightarrow> nat \<Rightarrow> nat \<Rightarrow> nat \<Rightarrow> beam_state \<Rightarrow> result list outcome" where
  "beam h q ef l bound (visited, candidates, found) =
     (case candidates of
        [] \<Rightarrow> Returns found
      | cand # rest \<Rightarrow>
          if found \<noteq> [] \<and> r_distance (hd found) < r_distance cand \<and> length found \<ge> ef then Returns found
          else
            case links_of h l (r_id cand) of
              Undefined \<Rightarrow> Undefined
            | Returns ns \<Rightarrow>
                (case visit_links h q ef bound ns (visited, rest, found) of
                   Undefined \<Rightarrow> Undefined
                 | Returns s \<Rightarrow> beam h q ef l bound s))"
  by pat_completeness auto
termination
proof (relation "measure (\<lambda>(h, q, ef, l, bound, s). unvisited bound (fst s) + length (fst (snd s)))", goal_cases)
  case (2 h q ef l bound visited candidates found cand rest ns s)
  then show ?case
    using visit_links_work [of h q ef bound ns visited rest found "fst s" "fst (snd s)" "snd (snd s)"] by auto
qed simp

declare beam.simps [simp del]

text \<open>
  \<open>search_layer\<close>.  The size of \<open>visited\<close> is computed in \<open>size_t\<close>: with an element count that has wrapped
  below zero it wraps again and is below 2000, or it is more than \<open>vector<bool>\<close> can hold.  The
  constructor throws in that case; nothing in the repository handles that exception, and it
  counts as \<open>Undefined\<close> here.
\<close>

definition VECTOR_BOOL_MAX :: nat where
  "VECTOR_BOOL_MAX = 2 ^ 63 - 64"

definition visited_size :: "nat \<Rightarrow> nat \<Rightarrow> nat" where
  "visited_size entry_point elements = u64 (max entry_point elements + 2000)"

definition search_layer :: "hnsw \<Rightarrow> nat \<Rightarrow> f32 list \<Rightarrow> nat \<Rightarrow> nat \<Rightarrow> result list outcome" where
  "search_layer h entry_point q ef l =
     (let bound = visited_size entry_point (element_count h) in
      if bound > VECTOR_BOOL_MAX then Undefined else
      bind_outcome (get_node h entry_point) (\<lambda>nd.
        let start = new_result entry_point (compute_distance q (nd_vector nd) VECTOR_DIM (metric h))
        in beam h q ef l bound ([entry_point], [start], if is_deleted nd then [] else [start])))"

text \<open>The loop that takes the results out, skipping tombstones and fetching the metadata.\<close>

fun drain :: "hnsw \<Rightarrow> result list \<Rightarrow> result list outcome" where
  "drain h [] = Returns []"
| "drain h (r # rs) =
     bind_outcome (get_node h (r_id r)) (\<lambda>nd.
     bind_outcome (drain h rs) (\<lambda>out.
       Returns (if is_deleted nd then out
                else r\<lparr>r_metadata := get_metadata (as_int (r_id r)) (metadata h)\<rparr> # out)))"

text \<open>\<open>search\<close>; \<open>(size_t)k\<close> makes a negative \<open>k\<close> huge.  A query shorter than the dimension is read past its end.\<close>

definition search :: "f32 list \<Rightarrow> int \<Rightarrow> hnsw \<Rightarrow> result list outcome" where
  "search query k h =
     (if entry_point_id h = no_id then Returns []
      else if length query < VECTOR_DIM then Undefined
      else
        bind_outcome (dist_to h query (entry_point_id h)) (\<lambda>d.
        bind_outcome (descend h query (layers_above (current_max_layer h) 0) (d, entry_point_id h)) (\<lambda>(d, curr_obj).
        bind_outcome (search_layer h curr_obj query (nat (max 100 k)) 0) (\<lambda>top_candidates.
        bind_outcome (drain h top_candidates) (\<lambda>results.
          Returns (if 0 \<le> k \<and> int (length results) > k then take (nat k) (rev results) else rev results))))))"

section \<open>Insertion\<close>

text \<open>\<open>get_random_level\<close> on the draws of the generator; the bound is the double nearest to 0.03.\<close>

definition LEVEL_THRESHOLD :: rat where
  "LEVEL_THRESHOLD = 8646911284551352 / 2 ^ 58"

fun random_level :: "nat \<Rightarrow> rat list \<Rightarrow> nat" where
  "random_level level [] = level"
| "random_level level (r # rs) = (if r < LEVEL_THRESHOLD \<and> level < M then random_level (level + 1) rs else level)"

definition get_random_level :: "rat list \<Rightarrow> nat" where
  "get_random_level draws = random_level 0 draws"

text \<open>The search for the farthest neighbour in \<open>add_link\<close>: its distance and position.\<close>

fun farthest :: "(nat \<Rightarrow> f32 outcome) \<Rightarrow> nat list \<Rightarrow> nat \<Rightarrow> f32 \<times> nat option \<Rightarrow> (f32 \<times> nat option) outcome" where
  "farthest D [] i s = Returns s"
| "farthest D (n # ns) i s =
     bind_outcome (D n) (\<lambda>d. farthest D ns (i + 1) (if fst s < d then (d, Some i) else s))"

definition add_link :: "nat \<Rightarrow> nat \<Rightarrow> nat \<Rightarrow> hnsw \<Rightarrow> hnsw outcome" where
  "add_link src dest l h =
     (if src \<ge> node_locks h then Returns h
      else
        bind_outcome (get_node h src) (\<lambda>nd.
        bind_outcome (vector_at (neighbor_counts nd) l) (\<lambda>count.
        bind_outcome (vector_at (neighbors nd) l) (\<lambda>row.
          let max_conn = (if l = 0 then M_MAX0 else M);
              put = (\<lambda>i nd. nd\<lparr>neighbors := (neighbors nd)[l := row[i := dest]]\<rparr>)
          in if count < max_conn
             then Returns (set_node_at src (put count nd\<lparr>neighbor_counts := (neighbor_counts nd)[l := count + 1]\<rparr>) h)
             else
               bind_outcome (dist_to h (nd_vector nd) dest) (\<lambda>dest_dist.
               bind_outcome (farthest (dist_to h (nd_vector nd)) (take count row) 0 (Fin (- 1), None)) (\<lambda>(max_d, max_idx).
                 case max_idx of
                   Some i \<Rightarrow> Returns (if dest_dist < max_d then set_node_at src (put i nd) h else h)
                 | None \<Rightarrow> Returns h))))))"

fun link_all :: "nat \<Rightarrow> nat \<Rightarrow> nat list \<Rightarrow> hnsw \<Rightarrow> hnsw outcome" where
  "link_all i l [] h = Returns h"
| "link_all i l (n # ns) h =
     bind_outcome (add_link i n l h) (\<lambda>h.
     bind_outcome (add_link n i l h) (link_all i l ns))"

text \<open>Connecting a node layer by layer, from the top of both down to 0.\<close>

fun connect :: "nat \<Rightarrow> f32 list \<Rightarrow> nat list \<Rightarrow> nat \<Rightarrow> hnsw \<Rightarrow> hnsw outcome" where
  "connect i q [] curr_obj h = Returns h"
| "connect i q (l # ls) curr_obj h =
     bind_outcome (search_layer h curr_obj q EF_CONSTRUCTION l) (\<lambda>candidates.
       let selected = map r_id (take M candidates) in
       bind_outcome (link_all i l selected h)
         (connect i q ls (if selected = [] then curr_obj else hd selected)))"

text \<open>Growing the storage, once, by 10 MiB, and the locks with it.\<close>

definition expand_storage :: "os_answers \<Rightarrow> nat \<Rightarrow> hnsw \<Rightarrow> mmap_error option \<times> hnsw" where
  "expand_storage os i h =
     (if node_end i > get_size h
      then
        (case resize_mmap os zero_contents (get_size h + 10 * 1024 * 1024) (storage h) of
           (Some e, st) \<Rightarrow> (Some e, h\<lparr>storage := st\<rparr>)
         | (None, st) \<Rightarrow>
             (None, h\<lparr>storage := st,
                node_locks := (if i \<ge> node_locks h then max (node_locks h) (u32 (i + 10000)) else node_locks h)\<rparr>))
      else (None, h))"

definition count_and_persist :: "hnsw \<Rightarrow> hnsw" where
  "count_and_persist h = persist_header (h\<lparr>element_count := u64 (element_count h + 1)\<rparr>)"

definition store_metadata :: "nat \<Rightarrow> string \<Rightarrow> hnsw \<Rightarrow> hnsw outcome" where
  "store_metadata i md h =
     (if md = '''' then Returns h
      else bind_outcome (save_metadata (as_int i) md (metadata h)) (\<lambda>m. Returns (h\<lparr>metadata := m\<rparr>)))"

text \<open>
  The second half of \<open>insert\<close>, once the node is written: the first element becomes the entry
  point, any other is linked into the graph.
\<close>

definition link_node :: "nat \<Rightarrow> node \<Rightarrow> nat \<Rightarrow> string \<Rightarrow> hnsw \<Rightarrow> hnsw outcome" where
  "link_node i nd level md h =
     (if entry_point_id h = no_id
      then store_metadata i md (count_and_persist (h\<lparr>entry_point_id := i, current_max_layer := int level\<rparr>))
      else
        bind_outcome (dist_to h (nd_vector nd) (entry_point_id h)) (\<lambda>d.
        bind_outcome (descend h (nd_vector nd) (layers_above (current_max_layer h) (int level)) (d, entry_point_id h)) (\<lambda>(d, curr_obj).
        bind_outcome (connect i (nd_vector nd) (layers_above (min (int level) (current_max_layer h)) (- 1)) curr_obj h) (\<lambda>h.
          let h = (if int level > current_max_layer h then h\<lparr>entry_point_id := i, current_max_layer := int level\<rparr> else h)
          in store_metadata i md (count_and_persist h)))))"

text \<open>
  \<open>insert\<close>.  A vector shorter than the dimension leaves part of the new node uninitialised;
  an exception of \<open>resize\<close> passes through.
\<close>

definition hnsw_insert ::
  "os_answers \<Rightarrow> rat list \<Rightarrow> f32 list \<Rightarrow> nat \<Rightarrow> string \<Rightarrow> hnsw \<Rightarrow> (mmap_error option \<times> hnsw) outcome" where
  "hnsw_insert os draws vec_data i md h =
     (let level = get_random_level draws; nd = new_node i (int level) vec_data in
      if length vec_data < VECTOR_DIM then Undefined
      else
        case expand_storage os i h of
          (Some e, h) \<Rightarrow> Returns (Some e, h)
        | (None, h) \<Rightarrow>
            bind_outcome (get_node h i) (\<lambda>_.
            bind_outcome (link_node i nd level md (set_node_at i nd h)) (\<lambda>h. Returns (None, h))))"

section \<open>Deletion and accessors\<close>

definition delete_vector :: "nat \<Rightarrow> hnsw \<Rightarrow> hnsw outcome" where
  "delete_vector i h =
     (if node_end i > get_size h then Returns h
      else
        bind_outcome (get_node h i) (\<lambda>nd.
          Returns (if is_deleted nd then h
                   else let h = set_node_at i (nd\<lparr>is_deleted := True\<rparr>) h
                        in persist_header (h\<lparr>element_count := u64_sub (element_count h) 1\<rparr>))))"

definition node_deleted :: "nat \<Rightarrow> hnsw \<Rightarrow> bool outcome" where
  "node_deleted i h =
     (if node_end i > get_size h then Returns False
      else bind_outcome (get_node h i) (\<lambda>nd. Returns (is_deleted nd)))"

definition get_vector_data :: "nat \<Rightarrow> hnsw \<Rightarrow> f32 list outcome" where
  "get_vector_data i h =
     (if node_end i > get_size h then Returns []
      else bind_outcome (get_node h i) (\<lambda>nd. Returns (if is_deleted nd then [] else take VECTOR_DIM (nd_vector nd))))"

definition hnsw_metadata :: "nat \<Rightarrow> hnsw \<Rightarrow> string" where
  "hnsw_metadata i h = get_metadata (as_int i) (metadata h)"

definition hnsw_size :: "hnsw \<Rightarrow> nat" where
  "hnsw_size h = element_count h"

end
