(* ===== verification/Hnsw_Graph.thy ===== *)
theory Hnsw_Graph
  imports Hnsw
begin

text \<open>
  The graph invariant of the index and what it gives: every operation is defined, insertion
  keeps the graph closed, and what a search returns.
\<close>

section \<open>Storage\<close>

abbreviation nodes :: "hnsw \<Rightarrow> nat \<Rightarrow> node" where
  "nodes h \<equiv> node_at (contents_of h)"

definition mapped :: "hnsw \<Rightarrow> bool" where
  "mapped h \<longleftrightarrow> (\<exists>c. mm_data (fst (storage h)) = Mapped c)"

named_theorems storage_simps \<open>reading back what was written to the mapped file\<close>

lemma in_storage_iff [storage_simps]: "in_storage i h \<longleftrightarrow> mapped h \<and> node_end i \<le> get_size h"
  by (auto simp: in_storage_def mapped_def)

lemma set_contents_simps [storage_simps]:
  "contents_of (set_contents c h) = c" "get_size (set_contents c h) = get_size h" "mapped (set_contents c h)"
  "metadata (set_contents c h) = metadata h" "metric (set_contents c h) = metric h"
  "entry_point_id (set_contents c h) = entry_point_id h" "current_max_layer (set_contents c h) = current_max_layer h"
  "element_count (set_contents c h) = element_count h" "node_locks (set_contents c h) = node_locks h"
  by (simp_all add: set_contents_def contents_of_def get_size_def mapped_def)

lemma set_node_at_simps [storage_simps]:
  "nodes (set_node_at i nd h) = (nodes h)(i := nd)" "get_size (set_node_at i nd h) = get_size h"
  "mapped (set_node_at i nd h)" "metadata (set_node_at i nd h) = metadata h" "metric (set_node_at i nd h) = metric h"
  "entry_point_id (set_node_at i nd h) = entry_point_id h"
  "current_max_layer (set_node_at i nd h) = current_max_layer h"
  "element_count (set_node_at i nd h) = element_count h" "node_locks (set_node_at i nd h) = node_locks h"
  by (simp_all add: set_node_at_def Let_def storage_simps)

lemma persist_header_simps [storage_simps]:
  "nodes (persist_header h) = nodes h" "get_size (persist_header h) = get_size h"
  "mapped (persist_header h)" "metadata (persist_header h) = metadata h" "metric (persist_header h) = metric h"
  "entry_point_id (persist_header h) = entry_point_id h"
  "current_max_layer (persist_header h) = current_max_layer h"
  "element_count (persist_header h) = element_count h" "node_locks (persist_header h) = node_locks h"
  by (simp_all add: persist_header_def Let_def storage_simps)

text \<open>Fields outside the file do not matter for what is in it.\<close>

lemma field_update_simps [storage_simps]:
  "contents_of (h\<lparr>entry_point_id := e\<rparr>) = contents_of h" "contents_of (h\<lparr>current_max_layer := m\<rparr>) = contents_of h"
  "contents_of (h\<lparr>element_count := n\<rparr>) = contents_of h" "contents_of (h\<lparr>metadata := md\<rparr>) = contents_of h"
  "get_size (h\<lparr>entry_point_id := e\<rparr>) = get_size h" "get_size (h\<lparr>current_max_layer := m\<rparr>) = get_size h"
  "get_size (h\<lparr>element_count := n\<rparr>) = get_size h" "get_size (h\<lparr>metadata := md\<rparr>) = get_size h"
  "mapped (h\<lparr>entry_point_id := e\<rparr>) = mapped h" "mapped (h\<lparr>current_max_layer := m\<rparr>) = mapped h"
  "mapped (h\<lparr>element_count := n\<rparr>) = mapped h" "mapped (h\<lparr>metadata := md\<rparr>) = mapped h"
  by (simp_all add: contents_of_def get_size_def mapped_def)

abbreviation file_magic :: "hnsw \<Rightarrow> nat" where
  "file_magic h \<equiv> magic (header (contents_of h))"

lemma header_simps [storage_simps]:
  "header (contents_of (set_node_at i nd h)) = header (contents_of h)"
  "header (contents_of (persist_header h)) = (header (contents_of h))\<lparr>h_element_count := u32 (element_count h),
     h_entry_point_id := as_int (entry_point_id h), h_max_layer := current_max_layer h\<rparr>"
  by (simp_all add: set_node_at_def persist_header_def Let_def storage_simps)

text \<open>The header in the file says what the fields say; the magic number is written once.\<close>

definition header_ok :: "hnsw \<Rightarrow> bool" where
  "header_ok h \<longleftrightarrow> mapped h \<and> header (contents_of h) = \<lparr>magic = NANODB_MAGIC, h_element_count = u32 (element_count h),
     h_entry_point_id = as_int (entry_point_id h), h_max_layer = current_max_layer h\<rparr>"

section \<open>The graph invariant\<close>

definition max_conn :: "nat \<Rightarrow> nat" where
  "max_conn l = (if l = 0 then M_MAX0 else M)"

definition used_links :: "node \<Rightarrow> nat \<Rightarrow> nat list" where
  "used_links nd l = take (neighbor_counts nd ! l) (neighbors nd ! l)"

definition node_ok :: "nat set \<Rightarrow> node \<Rightarrow> bool" where
  "node_ok S nd \<longleftrightarrow>
     length (nd_vector nd) = VECTOR_DIM \<and> length (neighbor_counts nd) = MAX_LAYERS \<and>
     length (neighbors nd) = MAX_LAYERS \<and>
     (\<forall>l < MAX_LAYERS. length (neighbors nd ! l) = M_MAX0 \<and> neighbor_counts nd ! l \<le> max_conn l \<and>
        set (used_links nd l) \<subseteq> S)"

text \<open>A count with which the bit vector of a search has a size that can be allocated.\<close>

definition count_ok :: "nat \<Rightarrow> bool" where
  "count_ok c \<longleftrightarrow> u64 (c + 2000) \<le> VECTOR_BOOL_MAX"

lemma count_ok_small: "c < 2 ^ 62 \<Longrightarrow> count_ok c"
  by (simp add: count_ok_def u64_def VECTOR_BOOL_MAX_def)

lemma count_ok_wrapped: "2 ^ 64 - 2000 \<le> c \<Longrightarrow> c < 2 ^ 64 \<Longrightarrow> count_ok c"
proof -
  assume "2 ^ 64 - 2000 \<le> c" "c < 2 ^ 64"
  then obtain j where "c = 2 ^ 64 - 2000 + j" "j < 2000" using le_Suc_ex by fastforce
  then show ?thesis by (simp add: count_ok_def u64_def VECTOR_BOOL_MAX_def)
qed

lemma visited_size_ok: "count_ok c \<Longrightarrow> e < 2 ^ 32 \<Longrightarrow> visited_size e c \<le> VECTOR_BOOL_MAX"
  by (cases "e \<le> c") (simp_all add: count_ok_def visited_size_def max_def u64_def VECTOR_BOOL_MAX_def)

definition nodes_ok :: "nat set \<Rightarrow> hnsw \<Rightarrow> bool" where
  "nodes_ok S h \<longleftrightarrow> mapped h \<and> S \<subseteq> {..<no_id} \<and> count_ok (element_count h) \<and> (\<forall>i \<in> S. node_end i \<le> get_size h \<and> node_ok S (nodes h i))"

definition graph_ok :: "nat set \<Rightarrow> hnsw \<Rightarrow> bool" where
  "graph_ok S h \<longleftrightarrow> nodes_ok S h \<and>
     (if entry_point_id h = no_id then S = {}
      else entry_point_id h \<in> S \<and> 0 \<le> current_max_layer h \<and> current_max_layer h < int MAX_LAYERS)"

lemma nodes_ok_no_id: "nodes_ok S h \<Longrightarrow> i \<in> S \<Longrightarrow> i \<noteq> no_id \<and> i < 2 ^ 32"
  by (auto simp: nodes_ok_def no_id_def)

lemma max_conn_le: "max_conn l \<le> M_MAX0"
  by (simp add: max_conn_def M_MAX0_def)

lemma get_node_ok: "nodes_ok S h \<Longrightarrow> i \<in> S \<Longrightarrow> get_node h i = Returns (nodes h i)"
  by (simp add: get_node_Returns nodes_ok_def storage_simps)

lemma dist_to_ok:
  "nodes_ok S h \<Longrightarrow> i \<in> S \<Longrightarrow>
   dist_to h q i = Returns (compute_distance q (nd_vector (nodes h i)) VECTOR_DIM (metric h))"
  by (simp add: dist_to_def get_node_ok)

lemma links_of_ok:
  assumes "nodes_ok S h" and "i \<in> S" and "l < MAX_LAYERS"
  shows "links_of h l i = Returns (used_links (nodes h i) l)" and "set (used_links (nodes h i) l) \<subseteq> S"
proof -
  have ok: "node_ok S (nodes h i)" using assms by (simp add: nodes_ok_def)
  then have "neighbor_counts (nodes h i) ! l \<le> length (neighbors (nodes h i) ! l)"
    using assms(3) max_conn_le [of l] by (auto simp: node_ok_def intro: order.trans)
  then show "links_of h l i = Returns (used_links (nodes h i) l)"
    using ok assms get_node_ok [OF assms(1,2)]
    by (simp add: links_of_def layer_links_def vector_at_def node_ok_def used_links_def)
  show "set (used_links (nodes h i) l) \<subseteq> S" using ok assms(3) by (simp add: node_ok_def)
qed

section \<open>Descending\<close>

lemma scan_links_ok:
  assumes "nodes_ok S h" and "set ns \<subseteq> S" and "fst (snd s) \<in> S"
  shows "\<exists>cur obj changed. scan_links (dist_to h q) ns s = Returns (cur, obj, changed) \<and> obj \<in> S"
  using assms(2,3)
proof (induction ns arbitrary: s)
  case Nil
  then show ?case by (cases s) auto
next
  case (Cons n ns)
  then show ?case using dist_to_ok [OF assms(1), of n q] by simp
qed

lemma descend_layer_ok:
  assumes "nodes_ok S h" and "l < MAX_LAYERS" and "snd s \<in> S"
  shows "\<exists>cur obj. descend_layer h q l s = Returns (cur, obj) \<and> obj \<in> S"
  using assms
proof (induction h q l s rule: descend_layer.induct)
  case (1 h q l cur obj)
  note links = links_of_ok [OF "1.prems"(1) _ "1.prems"(2), of obj]
  have obj: "obj \<in> S" using "1.prems"(3) by simp
  obtain cur' obj' changed where s:
    "scan_links (dist_to h q) (used_links (nodes h obj) l) (cur, obj, False) = Returns (cur', obj', changed)" "obj' \<in> S"
    using scan_links_ok [OF "1.prems"(1) links(2) [OF obj], of "(cur, obj, False)" q] obj by auto
  show ?case
  proof (cases changed)
    case True
    with s "1.IH" [OF links(1) [OF obj] s(1)] "1.prems" links(1) [OF obj] show ?thesis
      by (simp add: descend_layer.simps [of h q l cur obj])
  next
    case False
    with s links(1) [OF obj] show ?thesis by (simp add: descend_layer.simps [of h q l cur obj])
  qed
qed

lemma descend_ok:
  assumes "nodes_ok S h" and "\<forall>l \<in> set ls. l < MAX_LAYERS" and "snd s \<in> S"
  shows "\<exists>cur obj. descend h q ls s = Returns (cur, obj) \<and> obj \<in> S"
  using assms(2,3)
proof (induction ls arbitrary: s)
  case Nil
  then show ?case by (cases s) auto
next
  case (Cons l ls)
  then obtain cur obj where "descend_layer h q l s = Returns (cur, obj)" "obj \<in> S"
    using descend_layer_ok [OF assms(1), of l s q] by auto
  with Cons.IH [of "(cur, obj)"] Cons.prems(1) show ?case by simp
qed

lemma layers_above_bound: "m < int MAX_LAYERS \<Longrightarrow> \<forall>l \<in> set (layers_above m k). l < MAX_LAYERS"
  by (auto simp: layers_above_def MAX_LAYERS_def)

section \<open>Priority queues\<close>

abbreviation D :: "hnsw \<Rightarrow> f32 list \<Rightarrow> nat \<Rightarrow> f32" where
  "D h q i \<equiv> compute_distance q (nd_vector (nodes h i)) VECTOR_DIM (metric h)"

definition farther_first :: "result list \<Rightarrow> bool" where
  "farther_first rs \<longleftrightarrow> sorted_wrt (\<lambda>a b. \<not> r_distance a < r_distance b) rs"

lemma set_push [simp]: "set (push_max r xs) = insert r (set xs)" "set (push_min r xs) = insert r (set xs)"
  by (induction xs) auto

lemma distinct_push_max:
  "distinct (map r_id (push_max r xs)) \<longleftrightarrow> r_id r \<notin> r_id ` set xs \<and> distinct (map r_id xs)"
  by (induction xs) auto

lemma not_less_f32_trans: "y \<noteq> NaN \<Longrightarrow> \<not> x < y \<Longrightarrow> \<not> y < z \<Longrightarrow> \<not> x < (z :: f32)"
  by (cases x; cases y; cases z) auto

lemma push_max_sorted:
  assumes "farther_first xs" and "\<forall>x \<in> set (r # xs). r_distance x \<noteq> NaN"
  shows "farther_first (push_max r xs)"
  using assms
proof (induction xs)
  case Nil
  then show ?case by (simp add: farther_first_def)
next
  case (Cons x xs)
  show ?case
  proof (cases "r_distance x < r_distance r")
    case True
    then have "\<not> r_distance r < r_distance x" by (auto dest: less_f32_trans)
    with Cons.prems True show ?thesis
      by (auto simp: farther_first_def dest: less_f32_trans)
  next
    case False
    with Cons show ?thesis by (auto simp: farther_first_def)
  qed
qed

lemma farther_first_tl: "farther_first xs \<Longrightarrow> farther_first (tl xs)"
  by (cases xs) (auto simp: farther_first_def)

section \<open>The beam search\<close>

text \<open>
  The invariant of \<open>search_layer\<close>: candidates and results have been visited, results are live
  and distinct, carry their distance, are at most \<open>ef\<close>, and are ordered if no distance is NaN.
\<close>

definition no_NaN :: "nat set \<Rightarrow> hnsw \<Rightarrow> f32 list \<Rightarrow> bool" where
  "no_NaN S h q \<longleftrightarrow> (\<forall>i \<in> S. D h q i \<noteq> NaN)"

definition found_ok :: "nat set \<Rightarrow> hnsw \<Rightarrow> f32 list \<Rightarrow> nat \<Rightarrow> nat set \<Rightarrow> result list \<Rightarrow> bool" where
  "found_ok S h q ef V found \<longleftrightarrow>
     (\<forall>r \<in> set found. r_id r \<in> V \<and> \<not> is_deleted (nodes h (r_id r)) \<and> r_distance r = D h q (r_id r) \<and> r_metadata r = '''') \<and>
     distinct (map r_id found) \<and> length found \<le> ef \<and> (no_NaN S h q \<longrightarrow> farther_first found)"

fun beam_inv :: "nat set \<Rightarrow> hnsw \<Rightarrow> f32 list \<Rightarrow> nat \<Rightarrow> beam_state \<Rightarrow> bool" where
  "beam_inv S h q ef (visited, candidates, found) \<longleftrightarrow>
     set visited \<subseteq> S \<and> r_id ` set candidates \<subseteq> set visited \<and> found_ok S h q ef (set visited) found"

lemma found_ok_mono: "found_ok S h q ef V found \<Longrightarrow> V \<subseteq> V' \<Longrightarrow> found_ok S h q ef V' found"
  by (auto simp: found_ok_def)

lemma found_ok_push:
  assumes "found_ok S h q ef V found" and "V \<subseteq> S" and "n \<in> S" and "n \<notin> V" and "\<not> is_deleted (nodes h n)"
  defines "pushed \<equiv> push_max (new_result n (D h q n)) found"
  shows "found_ok S h q ef (insert n V) (if length pushed > ef then tl pushed else pushed)"
proof -
  have "n \<notin> r_id ` set found" using assms(1,4) by (auto simp: found_ok_def)
  then have d: "distinct (map r_id pushed)"
    using assms(1) by (simp add: pushed_def distinct_push_max found_ok_def)
  have "farther_first pushed" if "no_NaN S h q"
    unfolding pushed_def
    by (rule push_max_sorted) (use assms(1-3) that in \<open>auto simp: found_ok_def no_NaN_def\<close>)
  moreover have "\<forall>r \<in> set pushed. r_id r \<in> insert n V \<and> \<not> is_deleted (nodes h (r_id r)) \<and>
      r_distance r = D h q (r_id r) \<and> r_metadata r = ''''"
    using assms(1,5) by (auto simp: pushed_def found_ok_def)
  moreover have "length pushed \<le> Suc ef" using assms(1) by (simp add: pushed_def found_ok_def)
  moreover have "set (tl pushed) \<subseteq> set pushed" by (cases pushed) auto
  ultimately show ?thesis
    using d by (auto simp: found_ok_def farther_first_tl map_tl distinct_tl)
qed

text \<open>One pass over links: what is visited, and, if the index is small, what is found.\<close>

lemma visit_links_spec:
  assumes "nodes_ok S h" and "set ns \<subseteq> S" and "beam_inv S h q ef (v, c, f)"
  shows "\<exists>v' c' f'. visit_links h q ef bound ns (v, c, f) = Returns (v', c', f') \<and>
           beam_inv S h q ef (v', c', f') \<and> set v' = set v \<union> {n \<in> set ns. n < bound} \<and>
           (finite S \<and> card S < ef \<longrightarrow>
              r_id ` set c' = r_id ` set c \<union> (set v' - set v) \<and>
              r_id ` set f' = r_id ` set f \<union> {i \<in> set v' - set v. \<not> is_deleted (nodes h i)})"
  using assms(2,3)
proof (induction ns arbitrary: v c f)
  case Nil
  then show ?case by auto
next
  case (Cons n ns)
  have n: "n \<in> S" using Cons.prems(1) by simp
  show ?case
  proof (cases "n \<ge> bound \<or> n \<in> set v")
    case True
    then have "visit_links h q ef bound (n # ns) (v, c, f) = visit_links h q ef bound ns (v, c, f)" by simp
    with Cons.IH [OF _ Cons.prems(2)] Cons.prems(1) True show ?thesis by fastforce
  next
    case False
    define d where "d = D h q n"
    define pushed where "pushed = push_max (new_result n d) f"
    define f' where "f' = (if is_deleted (nodes h n) then f else if length pushed > ef then tl pushed else pushed)"
    define go where "go \<longleftrightarrow> length f < ef \<or> d < r_distance (hd f)"
    define c' where "c' = (if go then push_min (new_result n d) c else c)"
    have eq: "visit_links h q ef bound (n # ns) (v, c, f)
        = visit_links h q ef bound ns (n # v, c', if go then f' else f)"
      using False get_node_ok [OF assms(1) n]
      by (simp add: Let_def d_def pushed_def f'_def c'_def go_def)
    have inv: "set v \<subseteq> S" "r_id ` set c \<subseteq> set v" "found_ok S h q ef (set v) f" using Cons.prems(2) by auto
    have "found_ok S h q ef (insert n (set v)) f'"
      using found_ok_push [OF inv(3,1) n] found_ok_mono [OF inv(3)] False
      by (auto simp: f'_def pushed_def d_def)
    moreover have "found_ok S h q ef (insert n (set v)) f" using found_ok_mono [OF inv(3)] by blast
    ultimately have binv: "beam_inv S h q ef (n # v, c', if go then f' else f)"
      using inv n by (auto simp: c'_def)
    have "set ns \<subseteq> S" using Cons.prems(1) by simp
    from Cons.IH [OF this binv] obtain v'' c'' f'' where r: "visit_links h q ef bound ns (n # v, c', if go then f' else f) = Returns (v'', c'', f'')"
      "beam_inv S h q ef (v'', c'', f'')" "set v'' = set (n # v) \<union> {n \<in> set ns. n < bound}"
      "finite S \<and> card S < ef \<longrightarrow>
         r_id ` set c'' = r_id ` set c' \<union> (set v'' - set (n # v)) \<and>
         r_id ` set f'' = r_id ` set (if go then f' else f) \<union> {i \<in> set v'' - set (n # v). \<not> is_deleted (nodes h i)}"
      by (elim exE conjE) (rule that; assumption)
    have small: "go \<and> r_id ` set f' = r_id ` set f \<union> {i \<in> {n}. \<not> is_deleted (nodes h i)}" if "finite S" "card S < ef"
    proof -
      have "n \<notin> r_id ` set f" using inv(3) False by (auto simp: found_ok_def)
      moreover have "r_id ` set f \<subseteq> S" using inv(1,3) by (auto simp: found_ok_def)
      ultimately have "n \<notin> r_id ` set f" "insert n (r_id ` set f) \<subseteq> S" using n by auto
      then have "card (insert n (r_id ` set f)) \<le> card S" "n \<notin> r_id ` set f"
        using card_mono [OF that(1)] by blast+
      moreover have "card (r_id ` set f) = length f"
        using inv(3) by (metis found_ok_def distinct_card length_map set_map)
      ultimately have "Suc (length f) < ef" using that by simp
      then show ?thesis by (auto simp: go_def f'_def pushed_def)
    qed
    have vis: "set v'' = set v \<union> {m \<in> set (n # ns). m < bound}" using r(3) False by auto
    have "n \<in> set v'' - set v" using r(3) False by auto
    then have split: "set v'' - set v = insert n (set v'' - set (n # v))" by auto
    have "r_id ` set c'' = r_id ` set c \<union> (set v'' - set v) \<and>
          r_id ` set f'' = r_id ` set f \<union> {i \<in> set v'' - set v. \<not> is_deleted (nodes h i)}"
      if "finite S \<and> card S < ef"
    proof -
      have go: "go" and f': "r_id ` set f' = r_id ` set f \<union> {i \<in> {n}. \<not> is_deleted (nodes h i)}"
        using small that by auto
      have "r_id ` set c' = insert n (r_id ` set c)" using go by (simp add: c'_def)
      then show ?thesis using r(4) that go f' unfolding split by auto
    qed
    moreover have "visit_links h q ef bound (n # ns) (v, c, f) = Returns (v'', c'', f'')" using eq r(1) by metis
    ultimately show ?thesis using r(2) vis
      by - (intro exI conjI, assumption, assumption, assumption, blast)
  qed
qed

text \<open>
  The whole search is defined and keeps the invariant.  If the index has fewer than \<open>ef\<close>
  nodes, nothing is cut off: the results are the live visited nodes, and the visited set is
  closed under the links (as far as they fit the bit vector).
\<close>

definition frontier_inv :: "hnsw \<Rightarrow> nat \<Rightarrow> nat \<Rightarrow> beam_state \<Rightarrow> bool" where
  "frontier_inv h l bound s \<longleftrightarrow> (case s of (v, c, f) \<Rightarrow>
     (\<forall>i \<in> set v. i \<in> r_id ` set c \<or> {n \<in> set (used_links (nodes h i) l). n < bound} \<subseteq> set v) \<and>
     r_id ` set f = {i \<in> set v. \<not> is_deleted (nodes h i)})"

lemma beam_spec:
  assumes "nodes_ok S h" and "l < MAX_LAYERS" and "beam_inv S h q ef s"
  shows "\<exists>v c f. beam h q ef l bound s = Returns f \<and> beam_inv S h q ef (v, c, f) \<and> set (fst s) \<subseteq> set v \<and>
           (finite S \<and> card S < ef \<and> frontier_inv h l bound s \<longrightarrow> frontier_inv h l bound (v, [], f))"
  using assms
proof (induction h q ef l bound s rule: beam.induct)
  case (1 h q ef l bound v c f)
  show ?case
  proof (cases c)
    case Nil
    then show ?thesis using "1.prems"(3) by (intro exI [of _ v] exI [of _ c] exI [of _ f]) (simp add: beam.simps)
  next
    case (Cons cand rest)
    show ?thesis
    proof (cases "f \<noteq> [] \<and> r_distance (hd f) < r_distance cand \<and> length f \<ge> ef")
      case True
      then have "beam h q ef l bound (v, c, f) = Returns f" by (simp add: beam.simps [of h q ef l bound v] Cons)
      moreover have "\<not> (finite S \<and> card S < ef)"
      proof -
        have "r_id ` set f \<subseteq> S" "distinct (map r_id f)" using "1.prems"(3) by (auto simp: found_ok_def)
        then have "finite S \<Longrightarrow> length f \<le> card S" by (metis card_mono distinct_card length_map set_map)
        then show ?thesis using True by linarith
      qed
      ultimately show ?thesis using "1.prems"(3)
        by (intro exI [of _ v] exI [of _ c] exI [of _ f]) auto
    next
      case False
      have cand: "r_id cand \<in> S" and rest: "beam_inv S h q ef (v, rest, f)" using "1.prems"(3) Cons by auto
      note links = links_of_ok [OF "1.prems"(1) cand "1.prems"(2)]
      obtain v' c' f' where r: "visit_links h q ef bound (used_links (nodes h (r_id cand)) l) (v, rest, f) = Returns (v', c', f')"
        "beam_inv S h q ef (v', c', f')" "set v' = set v \<union> {n \<in> set (used_links (nodes h (r_id cand)) l). n < bound}"
        "finite S \<and> card S < ef \<longrightarrow> r_id ` set c' = r_id ` set rest \<union> (set v' - set v) \<and>
              r_id ` set f' = r_id ` set f \<union> {i \<in> set v' - set v. \<not> is_deleted (nodes h i)}"
        using visit_links_spec [OF "1.prems"(1) links(2) rest, of bound] by (elim exE conjE) (rule that; assumption)
      have eq: "beam h q ef l bound (v, c, f) = beam h q ef l bound (v', c', f')"
        unfolding Cons beam.simps [of h q ef l bound v "cand # rest"] list.case if_not_P [OF False] links(1)
        using r(1) by simp
      have front: "frontier_inv h l bound (v', c', f')"
        if "finite S \<and> card S < ef" "frontier_inv h l bound (v, c, f)"
      proof -
        have c': "r_id ` set c' = r_id ` set rest \<union> (set v' - set v)"
          and f': "r_id ` set f' = r_id ` set f \<union> {i \<in> set v' - set v. \<not> is_deleted (nodes h i)}"
          using r(4) that(1) by auto
        have "i \<in> r_id ` set c' \<or> {n \<in> set (used_links (nodes h i) l). n < bound} \<subseteq> set v'" if "i \<in> set v'" for i
        proof (cases "i \<in> set v \<and> i \<noteq> r_id cand")
          case True
          then show ?thesis using \<open>frontier_inv h l bound (v, c, f)\<close> c' r(3) Cons
            by (fastforce simp: frontier_inv_def)
        next
          case False
          with that c' r(3) show ?thesis by blast
        qed
        moreover have "r_id ` set f' = {i \<in> set v'. \<not> is_deleted (nodes h i)}"
          using f' that(2) r(3) by (auto simp: frontier_inv_def)
        ultimately show ?thesis by (simp add: frontier_inv_def)
      qed
      obtain v'' c'' f'' where "beam h q ef l bound (v', c', f') = Returns f''" "beam_inv S h q ef (v'', c'', f'')"
        "set v' \<subseteq> set v''"
        "finite S \<and> card S < ef \<and> frontier_inv h l bound (v', c', f') \<longrightarrow> frontier_inv h l bound (v'', [], f'')"
        using "1.IH" [OF Cons False links(1) r(1) "1.prems"(1,2) r(2)] by auto
      then show ?thesis using eq front r(3)
        by (intro exI [of _ v''] exI [of _ c''] exI [of _ f'']) auto
    qed
  qed
qed

text \<open>What \<open>search_layer\<close> returns.\<close>

lemma search_layer_spec:
  assumes "nodes_ok S h" and "e \<in> S" and "l < MAX_LAYERS" and "0 < ef"
  shows "\<exists>v f. search_layer h e q ef l = Returns f \<and> e \<in> set v \<and> set v \<subseteq> S \<and> found_ok S h q ef (set v) f \<and>
           (finite S \<and> card S < ef \<longrightarrow> frontier_inv h l (visited_size e (element_count h)) (v, [], f))"
proof -
  let ?bound = "visited_size e (element_count h)"
  define start where "start = new_result e (D h q e)"
  define s where "s = ([e], [start], if is_deleted (nodes h e) then [] else [start])"
  have "beam_inv S h q ef s"
    using assms(2,4) by (simp add: s_def start_def found_ok_def farther_first_def)
  from beam_spec [OF assms(1,3) this, of ?bound]
  obtain v c f where r: "beam h q ef l ?bound s = Returns f" "beam_inv S h q ef (v, c, f)" "set (fst s) \<subseteq> set v"
    "finite S \<and> card S < ef \<and> frontier_inv h l ?bound s \<longrightarrow> frontier_inv h l ?bound (v, [], f)"
    by (elim exE conjE) (rule that; assumption)
  have "frontier_inv h l ?bound s" by (auto simp: frontier_inv_def s_def start_def)
  moreover have "\<not> ?bound > VECTOR_BOOL_MAX"
    using visited_size_ok [of "element_count h" e] nodes_ok_no_id [OF assms(1,2)] assms(1) by (simp add: nodes_ok_def)
  then have "search_layer h e q ef l = Returns f"
    using r(1) get_node_ok [OF assms(1,2)]
    by (cases "is_deleted (nodes h e)") (simp_all add: search_layer_def Let_def s_def start_def)
  ultimately show ?thesis using r(2-4) by (intro exI [of _ v] exI [of _ f]) (auto simp: s_def)
qed

section \<open>Linking\<close>

text \<open>What linking leaves alone: everything but the links.\<close>

definition relinked :: "hnsw \<Rightarrow> hnsw \<Rightarrow> bool" where
  "relinked h h' \<longleftrightarrow>
     get_size h' = get_size h \<and> metadata h' = metadata h \<and> metric h' = metric h \<and>
     entry_point_id h' = entry_point_id h \<and> current_max_layer h' = current_max_layer h \<and>
     element_count h' = element_count h \<and> node_locks h' = node_locks h \<and>
     header (contents_of h') = header (contents_of h) \<and>
     (\<forall>i. nd_vector (nodes h' i) = nd_vector (nodes h i) \<and> is_deleted (nodes h' i) = is_deleted (nodes h i))"

lemma relinked_refl [simp]: "relinked h h"
  by (simp add: relinked_def)

lemma relinked_trans: "relinked h h' \<Longrightarrow> relinked h' h'' \<Longrightarrow> relinked h h''"
  by (simp add: relinked_def)

lemma farthest_ok:
  assumes "nodes_ok S h" and "set ns \<subseteq> S"
  shows "\<exists>d idx. farthest (dist_to h q) ns i s = Returns (d, idx) \<and> (idx = snd s \<or> (\<exists>k < i + length ns. idx = Some k))"
  using assms(2)
proof (induction ns arbitrary: i s)
  case Nil
  then show ?case by (cases s) auto
next
  case (Cons n ns)
  then have "dist_to h q n = Returns (D h q n)" using dist_to_ok [OF assms(1)] by simp
  moreover obtain d idx where r: "farthest (dist_to h q) ns (i + 1) (if fst s < D h q n then (D h q n, Some i) else s) = Returns (d, idx)"
    "idx = snd (if fst s < D h q n then (D h q n, Some i) else s) \<or> (\<exists>k < i + 1 + length ns. idx = Some k)"
    using Cons.IH [of "i + 1" "if fst s < D h q n then (D h q n, Some i) else s"] Cons.prems by auto
  moreover have "idx = snd s \<or> (\<exists>k < i + length (n # ns). idx = Some k)" using r(2) by (auto split: if_splits)
  ultimately show ?case by simp
qed

lemma set_take_update: "set (take k (xs[i := x])) \<subseteq> insert x (set (take k xs))"
  by (metis set_update_subset_insert take_update_swap)

lemma take_push: "k < length xs \<Longrightarrow> take (Suc k) (xs[k := x]) = take k xs @ [x]"
  by (simp add: take_Suc_conv_app_nth)

definition relink :: "nat \<Rightarrow> nat \<Rightarrow> nat \<Rightarrow> nat \<Rightarrow> node \<Rightarrow> node" where
  "relink l i c dest nd = nd\<lparr>neighbors := (neighbors nd)[l := (neighbors nd ! l)[i := dest]],
     neighbor_counts := (neighbor_counts nd)[l := c]\<rparr>"

text \<open>A link is appended, or one of the links in use is replaced.\<close>

definition relink_at :: "nat \<Rightarrow> nat \<Rightarrow> nat \<Rightarrow> node \<Rightarrow> bool" where
  "relink_at l i c nd \<longleftrightarrow> c \<le> max_conn l \<and>
     (c = neighbor_counts nd ! l \<or> (c = Suc (neighbor_counts nd ! l) \<and> i = neighbor_counts nd ! l))"

lemma relink_fields [simp]:
  "nd_vector (relink l i c dest nd) = nd_vector nd" "is_deleted (relink l i c dest nd) = is_deleted nd"
  by (simp_all add: relink_def)

lemma relink_same_count:
  "relink l i (neighbor_counts nd ! l) dest nd = nd\<lparr>neighbors := (neighbors nd)[l := (neighbors nd ! l)[i := dest]]\<rparr>"
  by (cases nd) (simp add: relink_def)

lemma used_links_relink:
  assumes "node_ok S nd" and "l < MAX_LAYERS" and "relink_at l i c nd"
  shows "set (used_links (relink l i c dest nd) l) \<subseteq> insert dest (set (used_links nd l))"
    and "l' \<noteq> l \<Longrightarrow> used_links (relink l i c dest nd) l' = used_links nd l'"
proof -
  have len: "l < length (neighbors nd)" "l < length (neighbor_counts nd)" "length (neighbors nd ! l) = M_MAX0"
    using assms(1,2) by (auto simp: node_ok_def)
  have "set (take c ((neighbors nd ! l)[i := dest])) \<subseteq> insert dest (set (take (neighbor_counts nd ! l) (neighbors nd ! l)))"
  proof (cases "c = neighbor_counts nd ! l")
    case False
    then have "c = Suc (neighbor_counts nd ! l)" "i = neighbor_counts nd ! l" "c \<le> M_MAX0"
      using assms(3) max_conn_le [of l] by (auto simp: relink_at_def)
    then show ?thesis using len(3) by (simp add: take_push)
  qed (simp add: set_take_update)
  then show "set (used_links (relink l i c dest nd) l) \<subseteq> insert dest (set (used_links nd l))"
    using len by (simp add: used_links_def relink_def)
  show "l' \<noteq> l \<Longrightarrow> used_links (relink l i c dest nd) l' = used_links nd l'"
    by (simp add: used_links_def relink_def)
qed

lemma node_ok_relink:
  assumes "node_ok S nd" and "l < MAX_LAYERS" and "dest \<in> S" and "relink_at l i c nd"
  shows "node_ok S (relink l i c dest nd)"
proof -
  have "set (used_links (relink l i c dest nd) l') \<subseteq> S" if "l' < MAX_LAYERS" for l'
    using used_links_relink [OF assms(1,2,4), where dest = dest] assms(1,3) that
    by (cases "l' = l") (fastforce simp: node_ok_def)+
  then show ?thesis
    using assms(1,2,4) by (auto simp: node_ok_def relink_def relink_at_def nth_list_update)
qed

lemma nodes_ok_set:
  assumes "nodes_ok S h" and "node_ok S nd" and "i \<in> S"
  shows "nodes_ok S (set_node_at i nd h)"
  using assms by (simp add: nodes_ok_def storage_simps)

lemma relinked_set:
  assumes "nd_vector nd = nd_vector (nodes h i)" and "is_deleted nd = is_deleted (nodes h i)"
  shows "relinked h (set_node_at i nd h)"
  using assms by (simp add: relinked_def storage_simps)

text \<open>
  Adding a link is defined, keeps the invariant, changes the source node only, and gives it
  no link but the new one.
\<close>

lemma add_link_cases:
  assumes "nodes_ok S h" and "src \<in> S" and "dest \<in> S" and "l < MAX_LAYERS"
  shows "add_link src dest l h = Returns h \<or>
    (\<exists>i c. add_link src dest l h = Returns (set_node_at src (relink l i c dest (nodes h src)) h) \<and>
           relink_at l i c (nodes h src))"
proof (cases "src \<ge> node_locks h")
  case True
  then show ?thesis by (simp add: add_link_def)
next
  case False
  define nd where "nd = nodes h src"
  define count where "count = neighbor_counts nd ! l"
  define row where "row = neighbors nd ! l"
  have ok: "node_ok S nd" using assms(1,2) by (simp add: nodes_ok_def nd_def)
  have rd: "get_node h src = Returns nd" "vector_at (neighbor_counts nd) l = Returns count"
    "vector_at (neighbors nd) l = Returns row"
    using get_node_ok [OF assms(1,2)] ok assms(4) by (auto simp: nd_def node_ok_def vector_at_def count_def row_def)
  have sub: "set (take count row) \<subseteq> S" and le: "count \<le> max_conn l"
    using ok assms(4) by (auto simp: node_ok_def used_links_def count_def row_def)
  obtain d idx where f: "farthest (dist_to h (nd_vector nd)) (take count row) 0 (Fin (- 1), None) = Returns (d, idx)"
    using farthest_ok [OF assms(1) sub] by blast
  have unf: "add_link src dest l h =
      (if count < max_conn l then Returns (set_node_at src (relink l count (count + 1) dest nd) h)
       else bind_outcome (dist_to h (nd_vector nd) dest) (\<lambda>dest_dist.
            bind_outcome (farthest (dist_to h (nd_vector nd)) (take count row) 0 (Fin (- 1), None)) (\<lambda>(max_d, max_idx).
              case max_idx of
                Some i \<Rightarrow> Returns (if dest_dist < max_d then set_node_at src (relink l i count dest nd) h else h)
              | None \<Rightarrow> Returns h)))"
    using False rd unfolding relink_same_count [where nd = nd and l = l, folded count_def]
    by (simp only: add_link_def if_False bind_outcome.simps Let_def max_conn_def relink_def row_def)
  show ?thesis
  proof (cases "count < max_conn l")
    case True
    with unf have "add_link src dest l h = Returns (set_node_at src (relink l count (count + 1) dest nd) h)" by simp
    moreover have "relink_at l count (count + 1) nd" using True by (simp add: relink_at_def count_def)
    ultimately show ?thesis unfolding nd_def by blast
  next
    case full: False
    with unf f dist_to_ok [OF assms(1,3), of "nd_vector nd"]
    have "add_link src dest l h = (case idx of
        Some i \<Rightarrow> Returns (if D h (nd_vector nd) dest < d then set_node_at src (relink l i count dest nd) h else h)
      | None \<Rightarrow> Returns h)" by simp
    moreover have "relink_at l i count nd" for i using le by (simp add: relink_at_def count_def)
    ultimately show ?thesis unfolding nd_def [symmetric] by (auto split: option.splits)
  qed
qed

lemma add_link_ok:
  assumes "nodes_ok S h" and "src \<in> S" and "dest \<in> S" and "l < MAX_LAYERS"
  shows "\<exists>h'. add_link src dest l h = Returns h' \<and> nodes_ok S h' \<and> relinked h h' \<and>
           (\<forall>i. i \<noteq> src \<longrightarrow> nodes h' i = nodes h i) \<and>
           (\<forall>l'. set (used_links (nodes h' src) l') \<subseteq> insert dest (set (used_links (nodes h src) l')))"
  using add_link_cases [OF assms]
proof
  assume "add_link src dest l h = Returns h"
  then show ?thesis using assms(1) by (intro exI [of _ h]) auto
next
  assume "\<exists>i c. add_link src dest l h = Returns (set_node_at src (relink l i c dest (nodes h src)) h) \<and>
           relink_at l i c (nodes h src)"
  then obtain i c where r: "add_link src dest l h = Returns (set_node_at src (relink l i c dest (nodes h src)) h)"
    "relink_at l i c (nodes h src)" by blast
  have ok: "node_ok S (nodes h src)" using assms(1,2) by (simp add: nodes_ok_def)
  have "set (used_links (relink l i c dest (nodes h src)) l') \<subseteq> insert dest (set (used_links (nodes h src) l'))" for l'
    using used_links_relink [OF ok assms(4) r(2), where dest = dest] by (cases "l' = l") auto
  then show ?thesis
    using r(1) nodes_ok_set [OF assms(1) node_ok_relink [OF ok assms(4,3) r(2)] assms(2)] relinked_set
    by (intro exI [of _ "set_node_at src (relink l i c dest (nodes h src)) h"]) (simp add: storage_simps)
qed

lemma link_all_ok:
  assumes "nodes_ok S h" and "i \<in> S" and "set ns \<subseteq> S" and "l < MAX_LAYERS"
  shows "\<exists>h'. link_all i l ns h = Returns h' \<and> nodes_ok S h' \<and> relinked h h' \<and>
           (node_locks h \<le> i \<longrightarrow> nodes h' i = nodes h i)"
  using assms(1,3)
proof (induction ns arbitrary: h)
  case Nil
  then show ?case by auto
next
  case (Cons n ns)
  then have n: "n \<in> S" "set ns \<subseteq> S" by auto
  obtain h1 where h1: "add_link i n l h = Returns h1" "nodes_ok S h1" "relinked h h1"
    using add_link_ok [OF Cons.prems(1) assms(2) n(1) assms(4)] by blast
  obtain h2 where h2: "add_link n i l h1 = Returns h2" "nodes_ok S h2" "relinked h1 h2"
    "\<forall>k. k \<noteq> n \<longrightarrow> nodes h2 k = nodes h1 k"
    using add_link_ok [OF h1(2) n(1) assms(2,4)] by blast
  obtain h' where h': "link_all i l ns h2 = Returns h'" "nodes_ok S h'" "relinked h2 h'"
    "node_locks h2 \<le> i \<longrightarrow> nodes h' i = nodes h2 i"
    using Cons.IH [OF h2(2) n(2)] by blast
  have locks: "node_locks h1 = node_locks h" "node_locks h2 = node_locks h"
    using h1(3) h2(3) by (simp_all add: relinked_def)
  have "nodes h' i = nodes h i" if "node_locks h \<le> i"
  proof -
    have skip: "add_link i k l g = Returns g" if "node_locks g = node_locks h" for k g
      using that \<open>node_locks h \<le> i\<close> by (simp add: add_link_def)
    have "h1 = h" using skip [of h n] h1(1) by simp
    moreover have "n = i \<Longrightarrow> h2 = h1" using skip [OF locks(1), of i] h2(1) by simp
    ultimately show ?thesis using that h'(4) h2(4) locks(2) by (cases "n = i") simp_all
  qed
  moreover have "link_all i l (n # ns) h = Returns h'" using h1(1) h2(1) h'(1) by simp
  ultimately show ?case using h'(2) relinked_trans [OF h1(3) relinked_trans [OF h2(3) h'(3)]] by blast
qed

section \<open>Insertion\<close>

lemma connect_ok:
  assumes "nodes_ok S h" and "i \<in> S" and "curr_obj \<in> S" and "\<forall>l \<in> set ls. l < MAX_LAYERS"
  shows "\<exists>h'. connect i q ls curr_obj h = Returns h' \<and> nodes_ok S h' \<and> relinked h h' \<and>
    (node_locks h \<le> i \<longrightarrow> nodes h' i = nodes h i)"
  using assms(1,3,4)
proof (induction ls arbitrary: curr_obj h)
  case Nil
  then show ?case by auto
next
  case (Cons l ls)
  have l: "l < MAX_LAYERS" and ls: "\<forall>l \<in> set ls. l < MAX_LAYERS" using Cons.prems(3) by auto
  obtain v f where f: "search_layer h curr_obj q EF_CONSTRUCTION l = Returns f" "set v \<subseteq> S"
    "found_ok S h q EF_CONSTRUCTION (set v) f"
    using search_layer_spec [OF Cons.prems(1,2) l, of EF_CONSTRUCTION q] by (auto simp: EF_CONSTRUCTION_def)
  define sel where "sel = map r_id (take M f)"
  have sel: "set sel \<subseteq> S" using f(2,3) by (auto simp: sel_def found_ok_def dest: in_set_takeD)
  obtain h1 where h1: "link_all i l sel h = Returns h1" "nodes_ok S h1" "relinked h h1"
    "node_locks h \<le> i \<longrightarrow> nodes h1 i = nodes h i"
    using link_all_ok [OF Cons.prems(1) assms(2) sel l] by blast
  have "(if sel = [] then curr_obj else hd sel) \<in> S" using sel Cons.prems(2) by (cases sel) auto
  then obtain h' where "connect i q ls (if sel = [] then curr_obj else hd sel) h1 = Returns h'" "nodes_ok S h'" "relinked h1 h'"
    "node_locks h1 \<le> i \<longrightarrow> nodes h' i = nodes h1 i"
    using Cons.IH [OF h1(2) _ ls] by blast
  moreover have "node_locks h1 = node_locks h" using h1(3) by (simp add: relinked_def)
  ultimately show ?case using f(1) h1 relinked_trans [OF h1(3)]
    by (intro exI [of _ h']) (simp only: connect.simps bind_outcome.simps Let_def sel_def [symmetric] simp_thms, simp)
qed

lemma node_ok_mono: "node_ok S nd \<Longrightarrow> S \<subseteq> T \<Longrightarrow> node_ok T nd"
  by (auto simp: node_ok_def)

lemma node_ok_new: "length vec \<ge> VECTOR_DIM \<Longrightarrow> node_ok S (new_node i level vec)"
  by (simp add: node_ok_def new_node_def used_links_def)

lemma nodes_ok_new:
  assumes "nodes_ok S h" and "i < no_id" and "node_end i \<le> get_size h" and "length vec \<ge> VECTOR_DIM"
  shows "nodes_ok (insert i S) (set_node_at i (new_node i level vec) h)"
  using assms node_ok_mono [of S _ "insert i S"] by (auto simp: nodes_ok_def storage_simps node_ok_new)

lemma expand_storage_ok:
  assumes "mapped h" and "node_end i \<le> get_size h + 10 * 1024 * 1024"
  shows "\<exists>h'. expand_storage os_ok i h = (None, h') \<and> mapped h' \<and> contents_of h' = contents_of h \<and>
    get_size h \<le> get_size h' \<and> node_end i \<le> get_size h' \<and> metadata h' = metadata h \<and> metric h' = metric h \<and>
    entry_point_id h' = entry_point_id h \<and> current_max_layer h' = current_max_layer h \<and>
    element_count h' = element_count h \<and> node_locks h \<le> node_locks h'"
proof (cases "node_end i > get_size h")
  case True
  obtain c where c: "mm_data (fst (storage h)) = Mapped c" using assms(1) by (auto simp: mapped_def)
  obtain mh fs where st: "storage h = (mh, fs)" by fastforce
  obtain mh' fs' where "resize_mmap os_ok zero_contents (get_size h + 10 * 1024 * 1024) (mh, fs) = (None, mh', fs')"
    "mm_data mh' = Mapped c" "mm_size mh' = get_size h + 10 * 1024 * 1024"
    using resize_mmap_ok [of mh c "get_size h + 10 * 1024 * 1024" zero_contents fs] c st by (auto simp: get_size_def)
  with True c st assms(2) show ?thesis
    by (auto simp: expand_storage_def mapped_def contents_of_def get_size_def)
next
  case False
  with assms(1) show ?thesis by (simp add: expand_storage_def)
qed

definition metadata_fits :: "nat \<Rightarrow> bool" where
  "metadata_fits i \<longleftrightarrow> i + 1000 < 2 ^ 31"

lemma store_metadata_ok:
  assumes "metadata_fits i"
  shows "\<exists>m. store_metadata i md h = Returns (h\<lparr>metadata := m\<rparr>)"
proof (cases "md = ''''")
  case True
  then show ?thesis by (intro exI [of _ "metadata h"]) (simp add: store_metadata_def)
next
  case False
  have "as_int i = int i" using assms by (simp add: metadata_fits_def as_int_def)
  then obtain m where "save_metadata (as_int i) md (metadata h) = Returns m"
    using assms False by (auto simp: save_metadata_def Let_def metadata_fits_def)
  then show ?thesis by (auto simp: store_metadata_def False)
qed

definition insert_ok :: "rat list \<Rightarrow> f32 list \<Rightarrow> nat \<Rightarrow> hnsw \<Rightarrow> bool" where
  "insert_ok draws vec i h \<longleftrightarrow> get_random_level draws < MAX_LAYERS \<and> length vec \<ge> VECTOR_DIM \<and>
     i \<noteq> no_id \<and> metadata_fits i \<and> node_end i \<le> get_size h + 10 * 1024 * 1024 \<and>
     count_ok (u64 (element_count h + 1))"

lemma metadata_fits_id: "metadata_fits i \<Longrightarrow> i < no_id"
  by (simp add: metadata_fits_def no_id_def)

lemma graph_ok_finish:
  assumes "nodes_ok T h" and "e \<in> T" and "0 \<le> m" and "m < int MAX_LAYERS"
    and "entry_point_id h = e" and "current_max_layer h = m" and "metadata_fits i" and "count_ok (u64 (element_count h + 1))"
  shows "\<exists>h'. store_metadata i md (count_and_persist h) = Returns h' \<and>
     graph_ok T h' \<and> entry_point_id h' = e \<and> nodes h' = nodes h \<and> element_count h' = u64 (element_count h + 1) \<and>
     metric h' = metric h \<and> get_size h' = get_size h \<and> (file_magic h = NANODB_MAGIC \<longrightarrow> header_ok h')"
proof -
  obtain md' where "store_metadata i md (count_and_persist h) = Returns (count_and_persist h\<lparr>metadata := md'\<rparr>)"
    using store_metadata_ok [OF assms(7)] by blast
  moreover have "e \<noteq> no_id" using assms(1,2) by (auto simp: nodes_ok_def)
  ultimately show ?thesis using assms
    by (cases "header (contents_of h)")
       (auto simp: graph_ok_def nodes_ok_def count_and_persist_def header_ok_def storage_simps)
qed

text \<open>What insertion of \<open>i\<close> does, besides the links.\<close>

definition inserted :: "nat \<Rightarrow> f32 list \<Rightarrow> nat \<Rightarrow> hnsw \<Rightarrow> hnsw \<Rightarrow> bool" where
  "inserted i vec level h h' \<longleftrightarrow>
     nd_vector (nodes h' i) = take VECTOR_DIM vec \<and> \<not> is_deleted (nodes h' i) \<and>
     (\<forall>j. j \<noteq> i \<longrightarrow> nd_vector (nodes h' j) = nd_vector (nodes h j) \<and> is_deleted (nodes h' j) = is_deleted (nodes h j)) \<and>
     element_count h' = u64 (element_count h + 1) \<and> metric h' = metric h \<and> get_size h \<le> get_size h' \<and>
     (file_magic h = NANODB_MAGIC \<longrightarrow> header_ok h') \<and>
     (entry_point_id h \<noteq> no_id \<and> node_locks h \<le> i \<and> node_end i \<le> get_size h \<longrightarrow>
        (\<forall>l < MAX_LAYERS. used_links (nodes h' i) l = [])) \<and>
     entry_point_id h' = (if entry_point_id h = no_id \<or> int level > current_max_layer h then i else entry_point_id h)"

text \<open>
  Linking a node that has been written, on any closed set with the node and the entry point.
\<close>

lemma link_node_first:
  assumes "nodes_ok T h" and "i \<in> T" and "entry_point_id h = no_id" and "metadata_fits i" and "level < MAX_LAYERS"
    and "count_ok (u64 (element_count h + 1))"
  shows "\<exists>h'. link_node i nd level md h = Returns h' \<and> graph_ok T h' \<and> entry_point_id h' = i \<and>
    nodes h' = nodes h \<and> element_count h' = u64 (element_count h + 1) \<and> metric h' = metric h \<and> get_size h' = get_size h \<and>
    (file_magic h = NANODB_MAGIC \<longrightarrow> header_ok h')"
proof -
  let ?h = "h\<lparr>entry_point_id := i, current_max_layer := int level\<rparr>"
  have "nodes_ok T ?h" using assms(1) by (simp add: nodes_ok_def storage_simps)
  from graph_ok_finish [OF this assms(2), of "int level" i md] assms(3-6)
  show ?thesis by (simp add: link_node_def storage_simps)
qed

text \<open>Any node but the first, whatever its level, is connected on the layers that exist.\<close>

lemma link_node_connects:
  assumes "nodes_ok T h" and "i \<in> T" and "entry_point_id h \<in> T" and "current_max_layer h < int MAX_LAYERS"
  shows "\<exists>h1. nodes_ok T h1 \<and> relinked h h1 \<and> (node_locks h \<le> i \<longrightarrow> nodes h1 i = nodes h i) \<and>
    link_node i nd level md h = store_metadata i md (count_and_persist
      (if int level > current_max_layer h then h1\<lparr>entry_point_id := i, current_max_layer := int level\<rparr> else h1))"
proof -
  define e where "e = entry_point_id h"
  have e: "e \<in> T" "e \<noteq> no_id" using nodes_ok_no_id [OF assms(1,3)] assms(3) by (auto simp: e_def)
  obtain d obj where obj: "descend h (nd_vector nd) (layers_above (current_max_layer h) (int level)) (D h (nd_vector nd) e, e) = Returns (d, obj)"
    "obj \<in> T"
    using descend_ok [OF assms(1) layers_above_bound [OF assms(4), of "int level"], of "(D h (nd_vector nd) e, e)" "nd_vector nd"] e(1)
    by auto
  have "min (int level) (current_max_layer h) < int MAX_LAYERS" using assms(4) by linarith
  from connect_ok [OF assms(1,2) obj(2) layers_above_bound [OF this]]
  obtain h1 where h1: "connect i (nd_vector nd) (layers_above (min (int level) (current_max_layer h)) (- 1)) obj h = Returns h1"
    "nodes_ok T h1" "relinked h h1" "node_locks h \<le> i \<longrightarrow> nodes h1 i = nodes h i" by blast
  then have "link_node i nd level md h = store_metadata i md (count_and_persist
      (if int level > current_max_layer h then h1\<lparr>entry_point_id := i, current_max_layer := int level\<rparr> else h1))"
    using e(2) dist_to_ok [OF assms(1) e(1), of "nd_vector nd"] obj(1)
    by (simp add: link_node_def Let_def e_def [symmetric] relinked_def)
  with h1(2-4) show ?thesis by blast
qed

lemma link_node_other:
  assumes "nodes_ok T h" and "i \<in> T" and "entry_point_id h \<in> T" and "0 \<le> current_max_layer h"
    and "current_max_layer h < int MAX_LAYERS" and "metadata_fits i" and "level < MAX_LAYERS"
    and "count_ok (u64 (element_count h + 1))"
  shows "\<exists>h' h1. link_node i nd level md h = Returns h' \<and> graph_ok T h' \<and> relinked h h1 \<and>
    (node_locks h \<le> i \<longrightarrow> nodes h' i = nodes h i) \<and>
    nodes h' = nodes h1 \<and> element_count h' = u64 (element_count h + 1) \<and> metric h' = metric h \<and> get_size h' = get_size h \<and>
    (file_magic h = NANODB_MAGIC \<longrightarrow> header_ok h') \<and>
    entry_point_id h' = (if int level > current_max_layer h then i else entry_point_id h)"
proof -
  obtain h1 where h1: "nodes_ok T h1" "relinked h h1" "node_locks h \<le> i \<longrightarrow> nodes h1 i = nodes h i"
    "link_node i nd level md h = store_metadata i md (count_and_persist
      (if int level > current_max_layer h then h1\<lparr>entry_point_id := i, current_max_layer := int level\<rparr> else h1))"
    using link_node_connects [OF assms(1-3,5)] by blast
  define h2 where "h2 = (if int level > current_max_layer h then h1\<lparr>entry_point_id := i, current_max_layer := int level\<rparr> else h1)"
  have n2: "nodes_ok T h2" using h1(1) by (simp add: h2_def nodes_ok_def storage_simps)
  have f2: "entry_point_id h2 = (if int level > current_max_layer h then i else entry_point_id h)" "0 \<le> current_max_layer h2"
    "current_max_layer h2 < int MAX_LAYERS" "nodes h2 = nodes h1" "metric h2 = metric h" "element_count h2 = element_count h"
    "get_size h2 = get_size h" "file_magic h2 = file_magic h"
    using assms(4,5,7) h1(2) by (auto simp: h2_def relinked_def storage_simps)
  have "entry_point_id h2 \<in> T" using f2(1) assms(2,3) by simp
  from graph_ok_finish [OF n2 this f2(2,3) refl refl assms(6), of md] assms(8)
  obtain h' where h': "store_metadata i md (count_and_persist h2) = Returns h'"
    "graph_ok T h'" "entry_point_id h' = entry_point_id h2" "nodes h' = nodes h2"
    "element_count h' = u64 (element_count h2 + 1)" "metric h' = metric h2" "get_size h' = get_size h2" "file_magic h2 = NANODB_MAGIC \<longrightarrow> header_ok h'"
    unfolding f2(6) by blast
  have "link_node i nd level md h = Returns h'" using h1(4) h'(1) by (simp add: h2_def)
  with h' f2 h1(2,3) show ?thesis by metis
qed

text \<open>The first half of an insertion, at any level: room is made and the node is written.\<close>

lemma insert_written:
  fixes draws :: "rat list"
  assumes "nodes_ok S h" and "length vec \<ge> VECTOR_DIM" and "metadata_fits i" and "node_end i \<le> get_size h + 10 * 1024 * 1024"
  defines "nd \<equiv> new_node i (int (get_random_level draws)) vec"
  shows "\<exists>h2. hnsw_insert os_ok draws vec i md h =
      bind_outcome (link_node i nd (get_random_level draws) md h2) (\<lambda>h. Returns (None, h)) \<and>
    nodes_ok (insert i S) h2 \<and> entry_point_id h2 = entry_point_id h \<and> current_max_layer h2 = current_max_layer h \<and>
    element_count h2 = element_count h \<and> metric h2 = metric h \<and> nodes h2 = (nodes h)(i := nd) \<and> file_magic h2 = file_magic h \<and>
    get_size h \<le> get_size h2 \<and> (node_end i \<le> get_size h \<longrightarrow> node_locks h2 = node_locks h)"
proof -
  obtain h1 where h1: "expand_storage os_ok i h = (None, h1)" "mapped h1" "contents_of h1 = contents_of h"
    "get_size h \<le> get_size h1" "node_end i \<le> get_size h1" "metric h1 = metric h"
    "entry_point_id h1 = entry_point_id h" "current_max_layer h1 = current_max_layer h" "element_count h1 = element_count h"
    using expand_storage_ok [OF _ assms(4)] assms(1) by (auto simp: nodes_ok_def)
  have n1: "nodes_ok S h1" using assms(1) h1(2-4,9) by (auto simp: nodes_ok_def)
  define h2 where "h2 = set_node_at i nd h1"
  have "nodes_ok (insert i S) h2"
    unfolding h2_def nd_def by (rule nodes_ok_new [OF n1 metadata_fits_id [OF assms(3)] h1(5) assms(2)])
  moreover have "get_node h1 i = Returns (nodes h1 i)" using h1(2,5) by (simp add: get_node_Returns storage_simps)
  then have "hnsw_insert os_ok draws vec i md h =
      bind_outcome (link_node i nd (get_random_level draws) md h2) (\<lambda>h. Returns (None, h))"
    using h1(1) assms(2) by (simp add: hnsw_insert_def Let_def h2_def [symmetric] nd_def [symmetric])
  moreover have "node_end i \<le> get_size h \<Longrightarrow> node_locks h2 = node_locks h"
    using h1(1) by (simp add: expand_storage_def h2_def storage_simps)
  ultimately show ?thesis using h1 by (intro exI [of _ h2]) (simp add: h2_def storage_simps)
qed

lemma insert_core:
  assumes "nodes_ok S h" and "insert_ok draws vec i h"
    and "entry_point_id h = no_id \<or> (entry_point_id h \<in> insert i S \<and> 0 \<le> current_max_layer h \<and> current_max_layer h < int MAX_LAYERS)"
  shows "\<exists>h'. hnsw_insert os_ok draws vec i md h = Returns (None, h') \<and> graph_ok (insert i S) h' \<and>
    inserted i vec (get_random_level draws) h h'"
proof -
  let ?level = "get_random_level draws"
  have ins: "?level < MAX_LAYERS" "length vec \<ge> VECTOR_DIM" "i \<noteq> no_id" "metadata_fits i"
    "node_end i \<le> get_size h + 10 * 1024 * 1024" "count_ok (u64 (element_count h + 1))"
    using assms(2) by (auto simp: insert_ok_def)
  define nd where "nd = new_node i (int ?level) vec"
  have nd: "nd_vector nd = take VECTOR_DIM vec" "\<not> is_deleted nd" by (simp_all add: nd_def new_node_def)
  obtain h2 where unf: "hnsw_insert os_ok draws vec i md h = bind_outcome (link_node i nd ?level md h2) (\<lambda>h. Returns (None, h))"
    and n2: "nodes_ok (insert i S) h2" and h2: "entry_point_id h2 = entry_point_id h" "current_max_layer h2 = current_max_layer h"
    "element_count h2 = element_count h" "metric h2 = metric h" "nodes h2 = (nodes h)(i := nd)" "file_magic h2 = file_magic h"
    "get_size h \<le> get_size h2" and locks: "node_end i \<le> get_size h \<longrightarrow> node_locks h2 = node_locks h"
    using insert_written [OF assms(1) ins(2,4,5), where draws = draws and md = md] unfolding nd_def by blast
  show ?thesis
  proof (cases "entry_point_id h = no_id")
    case True
    with link_node_first [OF n2 _ _ ins(4,1), of nd md] h2 nd unf ins(6) show ?thesis by (auto simp: inserted_def)
  next
    case False
    then have "entry_point_id h2 \<in> insert i S" "0 \<le> current_max_layer h2" "current_max_layer h2 < int MAX_LAYERS"
      using assms(3) h2 by auto
    from link_node_other [OF n2 _ this ins(4,1), of nd md] ins(6) h2(3)
    obtain h' h3 where "link_node i nd ?level md h2 = Returns h'" "graph_ok (insert i S) h'" "relinked h2 h3"
      "nodes h' = nodes h3" "element_count h' = u64 (element_count h2 + 1)" "metric h' = metric h2" "get_size h' = get_size h2"
      "file_magic h2 = NANODB_MAGIC \<longrightarrow> header_ok h'" "node_locks h2 \<le> i \<longrightarrow> nodes h' i = nodes h2 i"
      "entry_point_id h' = (if int ?level > current_max_layer h2 then i else entry_point_id h2)" by auto
    moreover have "\<forall>l < MAX_LAYERS. used_links nd l = []" by (simp add: nd_def new_node_def used_links_def)
    ultimately show ?thesis using False unf h2 nd locks by (auto simp: inserted_def relinked_def)
  qed
qed

end
