(* ===== verification/Hnsw_Search.thy ===== *)
theory Hnsw_Search
  imports Hnsw_Graph
begin

text \<open>
  What the index promises to its callers: insertion keeps the graph closed, what a search
  returns and when it is exact, deletion, restart; and three ways in which the code falls
  short (levels above the fourth, overwriting the entry point, ids without a lock).
\<close>

section \<open>Search\<close>

definition with_metadata :: "hnsw \<Rightarrow> result \<Rightarrow> result" where
  "with_metadata h r = r\<lparr>r_metadata := hnsw_metadata (r_id r) h\<rparr>"

lemma with_metadata_simps [simp]:
  "r_id (with_metadata h r) = r_id r" "r_distance (with_metadata h r) = r_distance r"
  "r_metadata (with_metadata h r) = hnsw_metadata (r_id r) h"
  by (simp_all add: with_metadata_def)

lemma drain_ok:
  assumes "nodes_ok S h" and "\<forall>r \<in> set rs. r_id r \<in> S \<and> \<not> is_deleted (nodes h (r_id r))"
  shows "drain h rs = Returns (map (with_metadata h) rs)"
  using assms(2) by (induction rs) (auto simp: get_node_ok [OF assms(1)] with_metadata_def hnsw_metadata_def)

definition truncate_to :: "int \<Rightarrow> 'a list \<Rightarrow> 'a list" where
  "truncate_to k xs = (if 0 \<le> k then take (nat k) xs else xs)"

lemma truncate_to_eq: "(if 0 \<le> k \<and> int (length xs) > k then take (nat k) xs else xs) = truncate_to k xs"
  by (auto simp: truncate_to_def)

text \<open>A search is the beam search from where the descent ends.\<close>

lemma search_unfold:
  assumes "graph_ok S h" and "entry_point_id h \<noteq> no_id" and "length q \<ge> VECTOR_DIM"
  shows "\<exists>e v f. e \<in> S \<and> e \<in> set v \<and> set v \<subseteq> S \<and> found_ok S h q (nat (max 100 k)) (set v) f \<and>
     (finite S \<and> card S < nat (max 100 k) \<longrightarrow> frontier_inv h 0 (visited_size e (element_count h)) (v, [], f)) \<and>
     search q k h = Returns (truncate_to k (rev (map (with_metadata h) f)))"
proof -
  let ?e = "entry_point_id h"
  have n: "nodes_ok S h" and e: "?e \<in> S" "current_max_layer h < int MAX_LAYERS"
    using assms(1,2) by (auto simp: graph_ok_def)
  obtain d obj where obj: "descend h q (layers_above (current_max_layer h) 0) (D h q ?e, ?e) = Returns (d, obj)" "obj \<in> S"
    using descend_ok [OF n layers_above_bound [OF e(2), of 0], of "(D h q ?e, ?e)" q] e(1) by auto
  have "0 < nat (max 100 k)" "0 < MAX_LAYERS" by (simp_all add: MAX_LAYERS_def)
  then obtain v f where f: "search_layer h obj q (nat (max 100 k)) 0 = Returns f" "obj \<in> set v" "set v \<subseteq> S"
    "found_ok S h q (nat (max 100 k)) (set v) f"
    "finite S \<and> card S < nat (max 100 k) \<longrightarrow> frontier_inv h 0 (visited_size obj (element_count h)) (v, [], f)"
    using search_layer_spec [OF n obj(2), of 0 "nat (max 100 k)" q] by blast
  have "drain h f = Returns (map (with_metadata h) f)"
    by (rule drain_ok [OF n]) (use f(3,4) in \<open>auto simp: found_ok_def\<close>)
  then have "search q k h = Returns (truncate_to k (rev (map (with_metadata h) f)))"
    using assms(2,3) dist_to_ok [OF n e(1), of q] obj(1) f(1)
    by (simp add: search_def flip: truncate_to_eq)
  with obj(2) f show ?thesis by blast
qed

lemma search_returns:
  assumes "graph_ok S h" and "length q \<ge> VECTOR_DIM"
  shows "\<exists>rs. search q k h = Returns rs"
proof (cases "entry_point_id h = no_id")
  case True
  then show ?thesis by (simp add: search_def)
next
  case False
  then show ?thesis using search_unfold [OF assms(1) _ assms(2), of k] by blast
qed

lemma search_empty: "graph_ok {} h \<Longrightarrow> search q k h = Returns []"
  by (simp add: graph_ok_def search_def split: if_splits)

definition closer_first :: "result list \<Rightarrow> bool" where
  "closer_first rs \<longleftrightarrow> sorted_wrt (\<lambda>a b. \<not> r_distance b < r_distance a) rs"

lemma closer_first_truncate: "closer_first rs \<Longrightarrow> closer_first (truncate_to k rs)"
  by (simp add: truncate_to_def closer_first_def sorted_wrt_take)

lemma closer_first_rev: "farther_first f \<Longrightarrow> closer_first (rev (map (with_metadata h) f))"
  by (simp add: closer_first_def farther_first_def sorted_wrt_rev sorted_wrt_map)

lemma set_truncate_to: "set (truncate_to k xs) \<subseteq> set xs"
  by (auto simp: truncate_to_def dest: in_set_takeD)

lemma map_id_truncate:
  "map r_id (truncate_to k (rev (map (with_metadata h) f))) = truncate_to k (rev (map r_id f))"
  by (simp add: truncate_to_def take_map rev_map comp_def)

lemma no_NaN_mono: "no_NaN S h q \<Longrightarrow> T \<subseteq> S \<Longrightarrow> no_NaN T h q"
  by (auto simp: no_NaN_def)

text \<open>With finite vectors the default metric never yields a NaN.\<close>

definition proper :: "f32 \<Rightarrow> bool" where
  "proper x \<longleftrightarrow> x \<noteq> NaN \<and> \<not> x < Fin 0"

lemma proper_fadd: "proper x \<Longrightarrow> proper y \<Longrightarrow> proper (fadd x y)"
  by (cases x; cases y) (auto simp: proper_def round32_nonneg)

lemma proper_square: "x \<noteq> NaN \<Longrightarrow> proper (fmul x x)"
  by (cases x) (auto simp: proper_def round32_nonneg)

lemma proper_foldl: "proper s \<Longrightarrow> \<forall>x \<in> set xs. proper x \<Longrightarrow> proper (foldl fadd s xs)"
  by (induction xs arbitrary: s) (auto simp: proper_fadd)

definition finite_vec :: "f32 list \<Rightarrow> bool" where
  "finite_vec v \<longleftrightarrow> (\<forall>x \<in> set v. \<exists>a. x = Fin a)"

lemma proper_l2_term:
  assumes "finite_vec a" and "finite_vec b"
  shows "\<forall>z \<in> set (map2 (\<lambda>x y. let d = fsub x y in fmul d d) a b). proper z"
proof
  fix z assume "z \<in> set (map2 (\<lambda>x y. let d = fsub x y in fmul d d) a b)"
  then obtain x y where xy: "(x, y) \<in> set (zip a b)" and z: "z = fmul (fsub x y) (fsub x y)"
    by (auto simp: Let_def)
  from xy have "x \<in> set a" "y \<in> set b" by (rule set_zip_leftD, rule set_zip_rightD)
  then obtain p r where "x = Fin p" "y = Fin r" using assms unfolding finite_vec_def by metis
  then have "fsub x y \<noteq> NaN" by (simp add: fsub_def)
  then show "proper z" unfolding z by (rule proper_square)
qed

lemma finite_vec_parts: "finite_vec v \<Longrightarrow> finite_vec (take n v)" "finite_vec v \<Longrightarrow> finite_vec (drop n v)"
  by (auto simp: finite_vec_def dest: in_set_takeD in_set_dropD)

lemma proper_map2_fadd: "\<forall>x \<in> set xs. proper x \<Longrightarrow> \<forall>y \<in> set ys. proper y \<Longrightarrow> \<forall>z \<in> set (map2 fadd xs ys). proper z"
  by (auto intro!: proper_fadd dest: set_zip_leftD set_zip_rightD)

lemma simd_blocks_proper:
  fixes g defines "g \<equiv> \<lambda>x y. let d = fsub x y in fmul d d"
  assumes "finite_vec a" and "finite_vec b" and "\<forall>x \<in> set acc. proper x"
  shows "case simd_blocks g acc a b of (acc', a', b') \<Rightarrow> (\<forall>x \<in> set acc'. proper x) \<and> finite_vec a' \<and> finite_vec b'"
  using assms(2-4)
proof (induction "length a" arbitrary: a b acc rule: less_induct)
  case less
  show ?case
  proof (cases "8 \<le> length a \<and> 8 \<le> length b")
    case True
    let ?acc = "map2 fadd acc (map2 g (take 8 a) (take 8 b))"
    have "\<forall>x \<in> set ?acc. proper x"
      using proper_map2_fadd [OF less.prems(3)] proper_l2_term finite_vec_parts(1) less.prems(1,2)
      unfolding g_def by blast
    then show ?thesis
      using less.hyps [of "drop 8 a" "drop 8 b" ?acc] shorter_by_8 [of a] finite_vec_parts(2) less.prems(1,2) True
        simd_blocks_step [of a b g acc] by simp
  next
    case False
    then show ?thesis using less.prems simd_blocks_stop [of a b g acc] by simp
  qed
qed

lemma l2_proper:
  assumes "finite_vec a" and "finite_vec b"
  shows "proper (l2_distance a b n)"
proof -
  define g where "g = (\<lambda>x y. let d = fsub x y in fmul d d)"
  obtain t a' b' where s: "simd_blocks g (replicate 8 (Fin 0)) (take n a) (take n b) = (t, a', b')"
    by (metis prod_cases3)
  have "\<forall>x \<in> set (replicate 8 (Fin 0)). proper x" by (simp add: proper_def)
  then have t: "\<forall>x \<in> set t. proper x" "finite_vec a'" "finite_vec b'"
    using simd_blocks_proper [OF finite_vec_parts(1) [OF assms(1)] finite_vec_parts(1) [OF assms(2)], of _ n n] s
    unfolding g_def by fastforce+
  then have "proper (foldl fadd (Fin 0) t)" by (intro proper_foldl) (simp_all add: proper_def)
  then have "proper (foldl fadd (foldl fadd (Fin 0) t) (map2 g a' b'))"
    using proper_l2_term [OF t(2,3)] unfolding g_def by (rule proper_foldl)
  then show ?thesis using s unfolding l2_distance_def simd_sum_def g_def [symmetric] by simp
qed

lemma L2_no_NaN:
  assumes "metric h = L2" and "finite_vec q" and "\<forall>i \<in> S. finite_vec (nd_vector (nodes h i))"
  shows "no_NaN S h q"
  using assms l2_proper [OF assms(2)] by (auto simp: no_NaN_def compute_distance_def proper_def)

section \<open>A small index\<close>

definition sample_vec :: "rat \<Rightarrow> f32 list" where
  "sample_vec x = replicate VECTOR_DIM (Fin x)"

definition sample_vertex :: "nat \<Rightarrow> rat \<Rightarrow> nat \<Rightarrow> node" where
  "sample_vertex i x j = relink 0 0 1 j (new_node i 0 (sample_vec x))"

text \<open>A storage of 100 MiB as the shard process opens it, with two nodes that link to each other.\<close>

definition sample_index :: "nat \<Rightarrow> (nat \<Rightarrow> node) \<Rightarrow> hnsw" where
  "sample_index e ns =
     \<lparr>storage = (\<lparr>mm_path = ''db'', mm_size = 100 * 1024 * 1024,
                   mm_data = Mapped \<lparr>header = \<lparr>magic = NANODB_MAGIC, h_element_count = 0,
                                       h_entry_point_id = - 1, h_max_layer = - 1\<rparr>, node_at = ns\<rparr>\<rparr>, Map.empty),
      metadata = new_metadata, metric = L2, entry_point_id = e,
      current_max_layer = (if e = no_id then - 1 else 0), element_count = (if e = no_id then 0 else 2), node_locks = 10000\<rparr>"

definition empty_index :: hnsw where
  "empty_index = sample_index no_id (\<lambda>_. zero_node)"

definition two_nodes :: hnsw where
  "two_nodes = sample_index 0 ((\<lambda>_. zero_node)(0 := sample_vertex 0 1 1, 1 := sample_vertex 1 3 0))"

lemmas config_defs = VECTOR_DIM_def M_MAX0_def M_def MAX_LAYERS_def HEADER_SIZE_def NODE_SIZE_def
  EF_CONSTRUCTION_def no_id_def node_end_def

lemma sample_contents: "contents_of (sample_index e ns) = \<lparr>header = \<lparr>magic = NANODB_MAGIC, h_element_count = 0,
    h_entry_point_id = - 1, h_max_layer = - 1\<rparr>, node_at = ns\<rparr>"
  by (simp add: contents_of_def sample_index_def)

lemma sample_fields [simp]:
  "mapped (sample_index e ns)" "get_size (sample_index e ns) = 104857600" "entry_point_id (sample_index e ns) = e"
  "current_max_layer (sample_index e ns) = (if e = no_id then - 1 else 0)" "metric (sample_index e ns) = L2"
  "node_locks (sample_index e ns) = 10000" "element_count (sample_index e ns) = (if e = no_id then 0 else 2)" "metadata (sample_index e ns) = new_metadata"
  by (simp_all add: sample_index_def mapped_def get_size_def)

lemma empty_index_count [simp]: "element_count empty_index = 0"
  by (simp add: empty_index_def)

lemma empty_index_ok: "graph_ok {} empty_index"
  by (simp add: graph_ok_def nodes_ok_def empty_index_def count_ok_small)

lemma node_ok_vertex: "j \<in> S \<Longrightarrow> node_ok S (sample_vertex i x j)"
  unfolding sample_vertex_def
  by (rule node_ok_relink [OF node_ok_new])
     (simp_all add: sample_vec_def relink_at_def max_conn_def new_node_def config_defs)

lemma two_nodes_ok: "graph_ok {0, 1} two_nodes"
  by (simp add: graph_ok_def nodes_ok_def two_nodes_def sample_contents node_ok_vertex count_ok_small)
     (simp add: config_defs)

lemma two_nodes_finite: "\<forall>i \<in> {0, 1}. finite_vec (nd_vector (nodes two_nodes i))"
  by (simp add: two_nodes_def sample_contents sample_vertex_def new_node_def sample_vec_def finite_vec_def)

lemma insert_ok_sample: "i < 99296 \<Longrightarrow> insert_ok [1 / 2] (sample_vec x) i (sample_index e ns)"
  by (simp add: insert_ok_def get_random_level_def LEVEL_THRESHOLD_def sample_vec_def metadata_fits_def config_defs
      count_ok_small u64_def)

section \<open>Properties\<close>

text \<open>
  C12: inserting a vector at a level below the fourth into storage that can grow to it succeeds
  and keeps the graph closed: every link leads to a written node, no node has more links than
  its layer allows.  The vector is stored whole, no other vector or tombstone changes, and
  the new node becomes the entry point exactly if it is the first or the highest.
\<close>

theorem insert_keeps_graph:
  assumes "graph_ok S h" and "insert_ok draws vec i h"
  shows "\<exists>h'. hnsw_insert os_ok draws vec i md h = Returns (None, h') \<and> graph_ok (insert i S) h' \<and>
    inserted i vec (get_random_level draws) h h'"
  using insert_core [OF _ assms(2), of S md] assms(1) by (auto simp: graph_ok_def split: if_splits)

theorem insert_keeps_graph_witness:
  "graph_ok {0, 1} two_nodes \<and> insert_ok [1 / 2] (sample_vec 2) 2 two_nodes \<and>
   (\<exists>h'. hnsw_insert os_ok [1 / 2] (sample_vec 2) 2 ''m'' two_nodes = Returns (None, h') \<and>
     graph_ok {2, 0, 1} h' \<and> inserted 2 (sample_vec 2) (get_random_level [1 / 2]) two_nodes h')"
proof -
  have "insert_ok [1 / 2] (sample_vec 2) 2 two_nodes" unfolding two_nodes_def by (rule insert_ok_sample) simp
  with two_nodes_ok insert_keeps_graph [OF two_nodes_ok this, of "''m''"] show ?thesis by blast
qed

text \<open>
  A search always returns.  Its results are live nodes, each once, with their distance from
  the query and their metadata, at most \<open>k\<close> of them, nearest first if no distance is NaN
  (which never happens with finite vectors under the default metric).
\<close>

lemma search_found:
  assumes "graph_ok S h" and "length q \<ge> VECTOR_DIM" and "no_NaN S h q" and "0 \<le> k"
  shows "\<exists>rs. search q k h = Returns rs \<and> closer_first rs \<and> distinct (map r_id rs) \<and> length rs \<le> nat k \<and>
    (\<forall>r \<in> set rs. r_id r \<in> S \<and> \<not> is_deleted (nodes h (r_id r)) \<and> r_distance r = D h q (r_id r) \<and>
                  r_metadata r = hnsw_metadata (r_id r) h)"
proof (cases "entry_point_id h = no_id")
  case True
  then show ?thesis by (simp add: search_def closer_first_def)
next
  case False
  obtain v f where f: "set v \<subseteq> S" "found_ok S h q (nat (max 100 k)) (set v) f"
    "search q k h = Returns (truncate_to k (rev (map (with_metadata h) f)))"
    using search_unfold [OF assms(1) False assms(2), of k] by blast
  let ?rs = "truncate_to k (rev (map (with_metadata h) f))"
  have "closer_first ?rs"
    using f(2) assms(3) by (intro closer_first_truncate closer_first_rev) (simp add: found_ok_def)
  moreover have "distinct (map r_id ?rs)"
    unfolding map_id_truncate using f(2) by (simp add: found_ok_def truncate_to_def)
  moreover have "length ?rs \<le> nat k" using assms(4) by (simp add: truncate_to_def)
  moreover have "\<forall>r \<in> set ?rs. r_id r \<in> S \<and> \<not> is_deleted (nodes h (r_id r)) \<and> r_distance r = D h q (r_id r) \<and>
                  r_metadata r = hnsw_metadata (r_id r) h"
    using set_truncate_to [of k "rev (map (with_metadata h) f)"] f(1,2) by (fastforce simp: found_ok_def)
  ultimately show ?thesis using f(3) by blast
qed

text \<open>
  An index is connected if every live node can be reached from every node along the links of
  layer 0, and the bit vector of the search covers all ids.
\<close>

definition layer0 :: "hnsw \<Rightarrow> (nat \<times> nat) set" where
  "layer0 h = {(a, b). b \<in> set (used_links (nodes h a) 0)}"

definition live :: "nat set \<Rightarrow> hnsw \<Rightarrow> nat set" where
  "live S h = {i \<in> S. \<not> is_deleted (nodes h i)}"

definition connected :: "nat set \<Rightarrow> hnsw \<Rightarrow> bool" where
  "connected S h \<longleftrightarrow> (\<forall>i \<in> S. i < u64 (element_count h + 2000)) \<and> (\<forall>a \<in> S. \<forall>b \<in> live S h. (a, b) \<in> (layer0 h)\<^sup>*)"

lemma visited_size_covers:
  assumes "count_ok c" and "e < u64 (c + 2000)"
  shows "u64 (c + 2000) \<le> visited_size e c"
proof (cases "e \<le> c")
  case False
  have "c < 2 ^ 64 - 2000"
  proof (rule ccontr)
    assume "\<not> c < 2 ^ 64 - 2000"
    moreover have "u64 (c + 2000) < 2 ^ 64" by (simp add: u64_def)
    then have "c < 2 ^ 64" using False assms(2) by linarith
    with calculation have "u64 (c + 2000) = c + 2000 - 2 ^ 64" by (simp add: u64_def mod_if)
    with False assms(2) \<open>c < 2 ^ 64\<close> show False by simp
  qed
  then show ?thesis using False assms by (auto simp: visited_size_def max_def u64_def count_ok_def VECTOR_BOOL_MAX_def)
qed (simp add: visited_size_def)

lemma frontier_closed:
  assumes "nodes_ok S h" and "frontier_inv h 0 bound (v, [], f)" and "set v \<subseteq> S" and "\<forall>i \<in> S. i < bound"
    and "(a, b) \<in> (layer0 h)\<^sup>*" and "a \<in> set v"
  shows "b \<in> set v"
  using assms(5)
proof (induction rule: rtrancl_induct)
  case base
  then show ?case by (rule assms(6))
next
  case (step b c)
  have b: "b \<in> S" using step.IH assms(3) by blast
  then have "c \<in> S" using step.hyps(2) links_of_ok(2) [OF assms(1) b, of 0] by (auto simp: layer0_def MAX_LAYERS_def)
  with step assms(2,4) show ?case by (auto simp: frontier_inv_def layer0_def)
qed

lemma take_nearest:
  assumes "closer_first rs" and "x \<in> set rs" and "x \<notin> set (take n rs)" and "r \<in> set (take n rs)"
  shows "\<not> r_distance x < r_distance r"
proof -
  have "x \<in> set (drop n rs)" using assms(2,3) by (metis Un_iff append_take_drop_id set_append)
  moreover have "closer_first (take n rs @ drop n rs)" using assms(1) by simp
  ultimately show ?thesis using assms(4) unfolding closer_first_def sorted_wrt_append by blast
qed

lemma search_exact:
  assumes "graph_ok S h" and "length q \<ge> VECTOR_DIM" and "no_NaN S h q" and "0 \<le> k"
    and "finite S" and "card S < 100" and "connected S h"
  shows "\<exists>rs. search q k h = Returns rs \<and> length rs = min (nat k) (card (live S h)) \<and>
    (\<forall>i \<in> live S h. i \<notin> r_id ` set rs \<longrightarrow> (\<forall>r \<in> set rs. \<not> D h q i < r_distance r))"
proof (cases "entry_point_id h = no_id")
  case True
  then have "S = {}" using assms(1) by (simp add: graph_ok_def)
  then show ?thesis using True by (simp add: search_def live_def)
next
  case False
  obtain e v f where f: "e \<in> set v" "set v \<subseteq> S" "found_ok S h q (nat (max 100 k)) (set v) f"
    "frontier_inv h 0 (visited_size e (element_count h)) (v, [], f)"
    "search q k h = Returns (truncate_to k (rev (map (with_metadata h) f)))"
    using search_unfold [OF assms(1) False assms(2), of k] assms(5,6) by auto
  define F where "F = rev (map (with_metadata h) f)"
  have n: "nodes_ok S h" using assms(1) by (simp add: graph_ok_def)
  have "\<forall>i \<in> S. i < visited_size e (element_count h)"
    using visited_size_covers [of "element_count h" e] n f(1,2) assms(7)
    by (auto simp: connected_def nodes_ok_def intro: less_le_trans)
  from frontier_closed [OF n f(4,2) this] have "live S h \<subseteq> set v"
    using f(1,2) assms(7) by (fastforce simp: connected_def live_def)
  then have ids: "r_id ` set F = live S h" using f(2,4) by (auto simp: F_def frontier_inv_def live_def image_image)
  have "map r_id F = rev (map r_id f)" by (simp add: F_def rev_map comp_def)
  then have "distinct (map r_id F)" using f(3) by (metis distinct_rev found_ok_def)
  then have "length F = card (live S h)" using ids by (metis distinct_card length_map set_map)
  moreover have "closer_first F" using f(3) assms(3) unfolding F_def by (intro closer_first_rev) (simp add: found_ok_def)
  moreover have "\<forall>r \<in> set F. r_distance r = D h q (r_id r)" using f(3) by (auto simp: F_def found_ok_def)
  ultimately have F: "length F = card (live S h)" "closer_first F" "\<forall>r \<in> set F. r_distance r = D h q (r_id r)" by blast+
  let ?rs = "take (nat k) F"
  have "\<not> D h q i < r_distance r" if i: "i \<in> live S h" "i \<notin> r_id ` set ?rs" and r: "r \<in> set ?rs" for i r
  proof -
    obtain x where x: "x \<in> set F" "i = r_id x" using i(1) ids by blast
    then have "x \<notin> set ?rs" using i(2) by blast
    then show ?thesis using take_nearest [OF F(2) x(1) _ r] F(3) x by simp
  qed
  moreover have "search q k h = Returns ?rs" using f(5) assms(4) by (simp add: truncate_to_def F_def)
  ultimately show ?thesis using F(1) by (intro exI [of _ ?rs]) simp
qed


lemma used_links_sample: "used_links (sample_vertex i x j) 0 = [j]"
proof -
  have "0 < MAX_LAYERS" "0 < M_MAX0" by (simp_all add: MAX_LAYERS_def M_MAX0_def M_def)
  then show ?thesis
    using take_push [of 0 "replicate M_MAX0 (2 ^ 32 - 1)" j]
    by (simp add: sample_vertex_def relink_def new_node_def used_links_def)
qed

lemma two_nodes_connected: "connected {0, 1} two_nodes"
proof -
  have "(0, 1) \<in> layer0 two_nodes" "(1, 0) \<in> layer0 two_nodes"
    by (simp_all add: layer0_def two_nodes_def sample_contents used_links_sample)
  then show ?thesis by (auto simp: connected_def two_nodes_def live_def no_id_def u64_def)
qed


lemma delete_keeps_graph:
  assumes "graph_ok S h" and "i \<in> S" and "is_deleted (nodes h i) \<or> count_ok (u64_sub (element_count h) 1)"
  shows "\<exists>h'. delete_vector i h = Returns h' \<and> graph_ok S h' \<and> get_size h' = get_size h \<and>
    nodes h' = (nodes h)(i := nodes h i\<lparr>is_deleted := True\<rparr>) \<and>
    element_count h' = (if is_deleted (nodes h i) then element_count h else u64_sub (element_count h) 1) \<and>
    (header_ok h \<longrightarrow> header_ok h')"
proof -
  have n: "nodes_ok S h" and fits: "node_end i \<le> get_size h" using assms by (auto simp: graph_ok_def nodes_ok_def)
  define h1 where "h1 = set_node_at i (nodes h i\<lparr>is_deleted := True\<rparr>) h"
  define h' where "h' = (if is_deleted (nodes h i) then h
    else persist_header (h1\<lparr>element_count := u64_sub (element_count h1) 1\<rparr>))"
  have "delete_vector i h = Returns h'"
    using get_node_ok [OF n assms(2)] fits by (simp add: delete_vector_def h'_def h1_def Let_def)
  moreover have "nodes h' = (nodes h)(i := nodes h i\<lparr>is_deleted := True\<rparr>)"
    by (auto simp: h'_def h1_def storage_simps)
  moreover have "graph_ok S h'"
  proof -
    have "node_ok S (nodes h i\<lparr>is_deleted := True\<rparr>)"
      using n assms(2) by (simp add: nodes_ok_def node_ok_def used_links_def)
    then have "nodes_ok S h1" unfolding h1_def by (rule nodes_ok_set [OF n _ assms(2)])
    then show ?thesis using assms(1,3) by (auto simp: h'_def graph_ok_def nodes_ok_def h1_def storage_simps)
  qed
  moreover have "header_ok h \<longrightarrow> header_ok h'"
    by (cases "header (contents_of h)") (auto simp: h'_def h1_def header_ok_def storage_simps)
  ultimately show ?thesis by (intro exI [of _ h']) (simp add: h'_def h1_def storage_simps)
qed

text \<open>
  C24: deleting a node is defined, keeps the graph, marks exactly this node and counts it out
  once; deleting it again changes nothing; no search returns it any more.  The count must not
  have wrapped so far below zero that a search cannot allocate its bit vector, which takes
  two thousand deletions of ids that were never written.
\<close>

theorem delete_hides_node:
  assumes "graph_ok S h" and "i \<in> S" and "count_ok (u64_sub (element_count h) 1)"
  shows "\<exists>h'. delete_vector i h = Returns h' \<and> graph_ok S h' \<and> nodes h' = (nodes h)(i := nodes h i\<lparr>is_deleted := True\<rparr>) \<and>
    element_count h' = (if is_deleted (nodes h i) then element_count h else u64_sub (element_count h) 1) \<and>
    delete_vector i h' = Returns h' \<and> get_vector_data i h' = Returns [] \<and> node_deleted i h' = Returns True \<and>
    (\<forall>q k. length q \<ge> VECTOR_DIM \<longrightarrow> (\<exists>rs. search q k h' = Returns rs \<and> i \<notin> r_id ` set rs))"
proof -
  obtain h' where h': "delete_vector i h = Returns h'" "graph_ok S h'" "get_size h' = get_size h"
    "nodes h' = (nodes h)(i := nodes h i\<lparr>is_deleted := True\<rparr>)"
    "element_count h' = (if is_deleted (nodes h i) then element_count h else u64_sub (element_count h) 1)"
    using delete_keeps_graph [OF assms(1,2)] assms(3) by blast
  have g: "get_node h' i = Returns (nodes h i\<lparr>is_deleted := True\<rparr>)" "node_end i \<le> get_size h'"
    using get_node_ok [of S h' i] h'(2,4) assms(2) by (auto simp: graph_ok_def nodes_ok_def)
  have "\<exists>rs. search q k h' = Returns rs \<and> i \<notin> r_id ` set rs" if q: "length q \<ge> VECTOR_DIM" for q k
  proof (cases "entry_point_id h' = no_id")
    case True
    then show ?thesis by (simp add: search_def)
  next
    case False
    then obtain v f where "found_ok S h' q (nat (max 100 k)) (set v) f"
      "search q k h' = Returns (truncate_to k (rev (map (with_metadata h') f)))"
      using search_unfold [OF h'(2) _ q, of k] by blast
    moreover from this(1) h'(4) have "i \<notin> r_id ` set f" by (auto simp: found_ok_def)
    ultimately show ?thesis using set_truncate_to [of k "rev (map (with_metadata h') f)"] by fastforce
  qed
  moreover have "delete_vector i h' = Returns h'" "get_vector_data i h' = Returns []" "node_deleted i h' = Returns True"
    using g by (simp_all add: delete_vector_def get_vector_data_def node_deleted_def)
  ultimately show ?thesis using h' by blast
qed

theorem delete_hides_node_witness:
  "graph_ok {0, 1} two_nodes \<and>
   (\<exists>h'. delete_vector 1 two_nodes = Returns h' \<and> graph_ok {0, 1} h' \<and> node_deleted 1 h' = Returns True)"
proof -
  have "count_ok (u64_sub (element_count two_nodes) 1)" by (simp add: two_nodes_def u64_sub_def count_ok_small no_id_def)
  with delete_hides_node [OF two_nodes_ok, of 1] two_nodes_ok show ?thesis by blast
qed

text \<open>The live nodes after an insertion and after a deletion.\<close>

lemma live_inserted:
  assumes "inserted i vec level h h'" and "finite S"
  shows "card (live (insert i S) h') \<le> Suc (card (live S h))"
proof -
  have "live (insert i S) h' \<subseteq> insert i (live S h)" using assms(1) by (auto simp: live_def inserted_def)
  then have "card (live (insert i S) h') \<le> card (insert i (live S h))"
    using assms(2) by (intro card_mono) (auto simp: live_def)
  then show ?thesis using card_insert_le_m1 [of "Suc (card (live S h))" "live S h" i] by (simp add: le_trans)
qed

lemma live_deleted:
  assumes "nodes h' = (nodes h)(i := nodes h i\<lparr>is_deleted := True\<rparr>)" and "finite S" and "i \<in> S"
  shows "card (live S h') = (if is_deleted (nodes h i) then card (live S h) else card (live S h) - 1) \<and>
    (\<not> is_deleted (nodes h i) \<longrightarrow> 0 < card (live S h))"
proof -
  have "live S h' = live S h - {i}" using assms(1) by (auto simp: live_def)
  moreover have "finite (live S h)" using assms(2) by (simp add: live_def)
  moreover have "i \<in> live S h \<longleftrightarrow> \<not> is_deleted (nodes h i)" using assms(3) by (simp add: live_def)
  ultimately show ?thesis by (auto simp: card_Diff_singleton_if card_gt_0_iff)
qed

lemma as_id_as_int: "e < 2 ^ 32 \<Longrightarrow> as_id (as_int e) = e"
  by (auto simp: as_id_def as_int_def)

lemma reopen_header:
  assumes "header_ok h" and "entry_point_id h < 2 ^ 32"
  shows "\<exists>st h'. open_mmap os_ok zero_contents (mm_path (fst (storage h))) n (new_mmap, snd (close_mmap (storage h))) = (None, st) \<and>
    mm_path (fst st) = mm_path (fst (storage h)) \<and> open_hnsw st md mt = Returns h' \<and> header_ok h' \<and>
    mm_path (fst (storage h')) = mm_path (fst st) \<and> metadata h' = md \<and>
    mapped h' \<and> nodes h' = nodes h \<and> get_size h' = max n (get_size h) \<and> entry_point_id h' = entry_point_id h \<and>
    current_max_layer h' = current_max_layer h \<and> element_count h' = u32 (element_count h) \<and>
    node_locks h' = u32 (element_count h) + 10000"
proof -
  obtain c where c: "mm_data (fst (storage h)) = Mapped c" using assms(1) by (auto simp: header_ok_def mapped_def)
  from reopen_mmap [OF this, of zero_contents n new_mmap "snd (storage h)"]
  obtain mh fs where st: "open_mmap os_ok zero_contents (mm_path (fst (storage h))) n (new_mmap, snd (close_mmap (storage h))) = (None, mh, fs)"
    "mm_data mh = Mapped c" "mm_size mh = max n (mm_size (fst (storage h)))" by auto
  then have path: "mm_path mh = mm_path (fst (storage h))"
    by (auto simp: open_mmap_def os_ok_def Let_def split: prod.splits option.splits if_splits)
  have hd: "header c = \<lparr>magic = NANODB_MAGIC, h_element_count = u32 (element_count h),
     h_entry_point_id = as_int (entry_point_id h), h_max_layer = current_max_layer h\<rparr>" and cc: "contents_of h = c"
    using assms(1) c by (auto simp: header_ok_def contents_of_def)
  have "u32 (u32 (element_count h)) = u32 (element_count h)" by (simp add: u32_def)
  then show ?thesis using st path hd cc as_id_as_int [OF assms(2)]
    by (intro exI [of _ "(mh, fs)"])
       (simp add: open_hnsw_def contents_of_def mapped_def get_size_def header_ok_def Let_def)
qed

lemma u32_small: "c < 2 ^ 32 \<Longrightarrow> u32 c = c"
  by (simp add: u32_def)

text \<open>
  The index survives a restart: after an insertion, closing the file and opening it again,
  with whatever minimal size, gives the same nodes, entry point, layer and count.
\<close>

lemma index_survives_restart:
  assumes "graph_ok S h" and "insert_ok draws vec i h" and "file_magic h = NANODB_MAGIC"
    and "element_count h + 1 < 2 ^ 32" and "i < 2 ^ 32" and "entry_point_id h < 2 ^ 32"
  shows "\<exists>h' st h''. hnsw_insert os_ok draws vec i md h = Returns (None, h') \<and>
    open_mmap os_ok zero_contents (mm_path (fst (storage h'))) n (new_mmap, snd (close_mmap (storage h'))) = (None, st) \<and>
    open_hnsw st md' mt = Returns h'' \<and> graph_ok (insert i S) h'' \<and> nodes h'' = nodes h' \<and>
    entry_point_id h'' = entry_point_id h' \<and> current_max_layer h'' = current_max_layer h' \<and> element_count h'' = element_count h + 1"
proof -
  obtain h' where h': "hnsw_insert os_ok draws vec i md h = Returns (None, h')" "graph_ok (insert i S) h'"
    "inserted i vec (get_random_level draws) h h'"
    using insert_core [OF _ assms(2), of S md] assms(1) by (auto simp: graph_ok_def split: if_splits)
  have f: "header_ok h'" "element_count h' = element_count h + 1" "entry_point_id h' < 2 ^ 32"
    using h'(3) assms(3-6) by (auto simp: inserted_def u64_def)
  then obtain st h'' where r: "open_mmap os_ok zero_contents (mm_path (fst (storage h'))) n (new_mmap, snd (close_mmap (storage h'))) = (None, st)"
    "open_hnsw st md' mt = Returns h''" "mapped h''" "nodes h'' = nodes h'" "get_size h'' = max n (get_size h')"
    "entry_point_id h'' = entry_point_id h'" "current_max_layer h'' = current_max_layer h'" "element_count h'' = element_count h'"
    using reopen_header [of h' n md' mt] u32_small [OF assms(4)] by auto
  from r(3-8) have "graph_ok (insert i S) h''"
    using h'(2) by (auto simp: graph_ok_def nodes_ok_def le_max_iff_disj)
  with h'(1) f(2) r show ?thesis by metis
qed

text \<open>
  C25: a level of 4 or more, which the generator can draw (it stops at 16), breaks the index,
  empty or not: nodes have four layers only, so the insertion succeeds, the node becomes the
  entry point, and from then on every search reads the link count of a layer that does not
  exist.
\<close>

theorem deep_level_breaks_search:
  assumes "graph_ok S h" and "get_random_level draws \<ge> MAX_LAYERS" and "length vec \<ge> VECTOR_DIM"
    and "metadata_fits i" and "node_end i \<le> get_size h + 10 * 1024 * 1024"
  shows "\<exists>h'. hnsw_insert os_ok draws vec i md h = Returns (None, h') \<and>
    entry_point_id h' = i \<and> current_max_layer h' = int (get_random_level draws) \<and>
    (\<forall>q k. length q \<ge> VECTOR_DIM \<longrightarrow> search q k h' = Undefined)"
proof -
  let ?level = "get_random_level draws"
  define nd where "nd = new_node i (int ?level) vec"
  have i: "i \<noteq> no_id" using metadata_fits_id [OF assms(4)] by simp
  have n: "nodes_ok S h" using assms(1) by (simp add: graph_ok_def)
  obtain h2 where h2: "hnsw_insert os_ok draws vec i md h = bind_outcome (link_node i nd ?level md h2) (\<lambda>h. Returns (None, h))"
    "nodes_ok (insert i S) h2" "entry_point_id h2 = entry_point_id h" "current_max_layer h2 = current_max_layer h"
    using insert_written [OF n assms(3,4,5), where draws = draws and md = md] unfolding nd_def by blast
  have "\<exists>h3. nodes_ok (insert i S) h3 \<and> link_node i nd ?level md h2 =
      store_metadata i md (count_and_persist (h3\<lparr>entry_point_id := i, current_max_layer := int ?level\<rparr>))"
  proof (cases "entry_point_id h2 = no_id")
    case True
    then show ?thesis using h2(2) by (intro exI [of _ h2]) (simp add: link_node_def)
  next
    case False
    then have e: "entry_point_id h2 \<in> insert i S" "current_max_layer h2 < int MAX_LAYERS" "current_max_layer h2 < int ?level"
      using assms(1,2) h2(3,4) by (auto simp: graph_ok_def)
    from link_node_connects [OF h2(2) _ e(1,2), of i nd ?level md] e(3) show ?thesis by auto
  qed
  then obtain h3 where h3: "nodes_ok (insert i S) h3" "link_node i nd ?level md h2 =
      store_metadata i md (count_and_persist (h3\<lparr>entry_point_id := i, current_max_layer := int ?level\<rparr>))" by blast
  obtain m where m: "link_node i nd ?level md h2 =
      Returns (count_and_persist (h3\<lparr>entry_point_id := i, current_max_layer := int ?level\<rparr>)\<lparr>metadata := m\<rparr>)"
    using store_metadata_ok [OF assms(4)] h3(2) by metis
  define h' where "h' = count_and_persist (h3\<lparr>entry_point_id := i, current_max_layer := int ?level\<rparr>)\<lparr>metadata := m\<rparr>"
  have f: "entry_point_id h' = i" "current_max_layer h' = int ?level" "nodes h' = nodes h3" "mapped h'" "get_size h' = get_size h3"
    by (simp_all add: h'_def count_and_persist_def storage_simps)
  have "node_end i \<le> get_size h3" "length (neighbor_counts (nodes h3 i)) = MAX_LAYERS"
    using h3(1) by (auto simp: nodes_ok_def node_ok_def)
  then have g: "get_node h' i = Returns (nodes h3 i)" "layer_links ?level (nodes h3 i) = Undefined"
    using f assms(2) by (simp_all add: get_node_Returns layer_links_def vector_at_def storage_simps)
  then have "links_of h' ?level i = Undefined" by (simp add: links_of_def)
  then have "descend_layer h' q ?level (d, i) = Undefined" for q d by (simp add: descend_layer.simps)
  moreover have "layers_above (int ?level) 0 = ?level # layers_above (int ?level - 1) 0"
    using assms(2) upto_rec2 [of 1 "int ?level"] by (simp add: layers_above_def MAX_LAYERS_def)
  ultimately have "search q k h' = Undefined" if "length q \<ge> VECTOR_DIM" for q k
    using that f(1,2) g(1) i by (simp add: search_def dist_to_def)
  then show ?thesis using h2(1) m f(1,2) by (intro exI [of _ h']) (simp add: h'_def)
qed

theorem deep_level_breaks_search_witness:
  "get_random_level [0, 0, 0, 0, 1 / 2] = MAX_LAYERS \<and>
   (\<exists>h'. hnsw_insert os_ok [0, 0, 0, 0, 1 / 2] (sample_vec 2) 2 '''' two_nodes = Returns (None, h') \<and>
     entry_point_id h' = 2 \<and> search (sample_vec 1) 10 h' = Undefined)"
proof -
  have lv: "get_random_level [0, 0, 0, 0, 1 / 2] = MAX_LAYERS"
    by (simp add: get_random_level_def LEVEL_THRESHOLD_def M_def MAX_LAYERS_def)
  have "length (sample_vec x) \<ge> VECTOR_DIM" for x by (simp add: sample_vec_def)
  moreover have "metadata_fits 2" "node_end 2 \<le> get_size two_nodes + 10 * 1024 * 1024"
    by (simp_all add: two_nodes_def metadata_fits_def config_defs)
  ultimately show ?thesis
    using deep_level_breaks_search [OF two_nodes_ok, of "[0, 0, 0, 0, 1 / 2]" "sample_vec 2" 2 "''''"] lv by auto
qed

text \<open>
  Writing the entry point again, as an update of the first vector does, cuts the rest of the
  index off: the overwritten node has no links but to itself, so searches return at most
  this one node, while the count of elements goes up.
\<close>

lemma overwriting_entry_point_hides_index:
  assumes "graph_ok S h" and "entry_point_id h = i" and "insert_ok draws vec i h"
  shows "\<exists>h'. hnsw_insert os_ok draws vec i md h = Returns (None, h') \<and> graph_ok S h' \<and>
    element_count h' = u64 (element_count h + 1) \<and>
    (\<forall>q k. length q \<ge> VECTOR_DIM \<longrightarrow> (\<exists>rs. search q k h' = Returns rs \<and> r_id ` set rs \<subseteq> {i}))"
proof -
  have i: "i \<noteq> no_id" using assms(3) by (simp add: insert_ok_def)
  then have e: "i \<in> S" "nodes_ok S h" "0 \<le> current_max_layer h" "current_max_layer h < int MAX_LAYERS"
    using assms(1,2) by (auto simp: graph_ok_def)
  obtain h' where h': "hnsw_insert os_ok draws vec i md h = Returns (None, h')" "graph_ok (insert i S) h'"
    "inserted i vec (get_random_level draws) h h'"
    using insert_core [OF e(2) assms(3), of md] e assms(2) by auto
  have "nodes_ok {} h" using e(2) by (simp add: nodes_ok_def)
  from insert_core [OF this assms(3), of md] e assms(2) h'(1) have alone: "graph_ok {i} h'" by auto
  have "\<exists>rs. search q k h' = Returns rs \<and> r_id ` set rs \<subseteq> {i}" if q: "length q \<ge> VECTOR_DIM" for q k
  proof -
    have "entry_point_id h' \<noteq> no_id" using alone i by (auto simp: graph_ok_def split: if_splits)
    from search_unfold [OF alone this q, of k] set_truncate_to show ?thesis by (fastforce simp: found_ok_def)
  qed
  then show ?thesis using h' e(1) by (auto simp: inserted_def insert_absorb)
qed

text \<open>
  A node whose id has no lock stays without links: the locks are sized by the count at start
  plus 10000 and grow only with the storage, and \<open>add_link\<close> silently returns for an id above
  them.  A new shard opens 100 MiB, room for 99295 nodes, so ids from 10000 on are affected.
\<close>

lemma unlocked_node_stays_unlinked:
  assumes "graph_ok S h" and "insert_ok draws vec i h" and "entry_point_id h \<noteq> no_id"
    and "node_locks h \<le> i" and "node_end i \<le> get_size h"
  shows "\<exists>h'. hnsw_insert os_ok draws vec i md h = Returns (None, h') \<and> graph_ok (insert i S) h' \<and>
    (\<forall>l < MAX_LAYERS. used_links (nodes h' i) l = [])"
proof -
  obtain h' where "hnsw_insert os_ok draws vec i md h = Returns (None, h')" "graph_ok (insert i S) h'"
    "inserted i vec (get_random_level draws) h h'"
    using insert_core [OF _ assms(2), of S md] assms(1) by (auto simp: graph_ok_def split: if_splits)
  then show ?thesis using assms(3-5) unfolding inserted_def by blast
qed

end
