(* ===== verification/Id_Map_Store.thy ===== *)
theory Id_Map_Store
  imports Prelude
begin

text \<open>
  \<^verbatim>\<open>cluster/id_map_store.hpp\<close>: the map between external ids and a shard's dense local ids,
  kept in memory in both directions and replayed at startup from an append-only file of
  length-prefixed records.  The file is part of a \<open>disk\<close>; a write may stop short, which the
  code does not notice.
\<close>

section \<open>The store\<close>

record id_map_store =
  ids_path :: string
  ids_open :: bool
  forward :: "string \<rightharpoonup> nat"
  reverse :: "string list"

definition new_ids :: id_map_store where
  "new_ids = \<lparr>ids_path = '''', ids_open = False, forward = Map.empty, reverse = []\<rparr>"

text \<open>One record: the length as \<open>uint32_t\<close>, then that many bytes.\<close>

definition encode_id :: "string \<Rightarrow> string" where
  "encode_id external_id =
     (let len = u32 (length external_id) in put_u32 len @ take len external_id)"

text \<open>
  \<open>persist\<close> appends one record; \<open>k\<close> is how many of its bytes reach the file (all of them,
  if it is large enough).  A stream that never opened swallows the write.
\<close>

definition persist_id :: "nat \<Rightarrow> string \<Rightarrow> id_map_store \<Rightarrow> disk \<Rightarrow> disk" where
  "persist_id k external_id st d =
     (if ids_open st
      then (case d (ids_path st) of
              None \<Rightarrow> d
            | Some bs \<Rightarrow> d(ids_path st \<mapsto> bs @ take k (encode_id external_id)))
      else d)"

definition remember :: "string \<Rightarrow> id_map_store \<Rightarrow> id_map_store" where
  "remember external_id st =
     st\<lparr>forward := (forward st)(external_id \<mapsto> u32 (length (reverse st))),
        reverse := reverse st @ [external_id]\<rparr>"

text \<open>\<open>rebuild_index\<close>: the loop over the records, which stops at the first short read.\<close>

function rebuild_index :: "string \<Rightarrow> id_map_store \<Rightarrow> id_map_store" where
  "rebuild_index bs st =
     (if length bs < 4 then st
      else
        let len = get_u32 bs; rest = drop 4 bs in
        if length rest < len then st
        else rebuild_index (drop len rest) (remember (take len rest) st))"
  by pat_completeness auto
termination by (relation "measure (\<lambda>(bs, st). length bs)") auto

declare rebuild_index.simps [simp del]

text \<open>
  \<open>open_file\<close>: open an existing file, or create it (\<open>can_create\<close>: whether that works), and
  replay it.
\<close>

definition open_ids :: "bool \<Rightarrow> string \<Rightarrow> id_map_store \<Rightarrow> disk \<Rightarrow> id_map_store \<times> disk" where
  "open_ids can_create path st d =
     (let st = st\<lparr>ids_path := path\<rparr> in
      case d path of
        Some bs \<Rightarrow> (rebuild_index bs (st\<lparr>ids_open := True\<rparr>), d)
      | None \<Rightarrow>
          if can_create then (rebuild_index '''' (st\<lparr>ids_open := True\<rparr>), d(path \<mapsto> ''''))
          else (st\<lparr>ids_open := False\<rparr>, d))"

definition close_ids :: "id_map_store \<Rightarrow> id_map_store" where
  "close_ids st = st\<lparr>ids_open := False\<rparr>"

definition assign :: "nat \<Rightarrow> string \<Rightarrow> id_map_store \<times> disk \<Rightarrow> (nat \<times> bool) \<times> id_map_store \<times> disk" where
  "assign k external_id std =
     (case std of (st, d) \<Rightarrow>
        case forward st external_id of
          Some local_id \<Rightarrow> ((local_id, False), st, d)
        | None \<Rightarrow>
            ((u32 (length (reverse st)), True), remember external_id st, persist_id k external_id st d))"

definition lookup :: "string \<Rightarrow> id_map_store \<Rightarrow> nat option" where
  "lookup external_id st = forward st external_id"

definition reverse_lookup :: "nat \<Rightarrow> id_map_store \<Rightarrow> string" where
  "reverse_lookup local_id st =
     (if local_id \<ge> length (reverse st) then '''' else reverse st ! local_id)"

definition id_count :: "id_map_store \<Rightarrow> nat" where
  "id_count st = length (reverse st)"

definition list_all_external_ids :: "id_map_store \<Rightarrow> string list" where
  "list_all_external_ids st = reverse st"

section \<open>Invariant\<close>

text \<open>
  The two directions mirror each other, the ids fit their 32 bits, and the file holds
  exactly the records of the ids in order.
\<close>

definition ids_wf :: "id_map_store \<Rightarrow> bool" where
  "ids_wf st \<longleftrightarrow> distinct (reverse st) \<and> length (reverse st) \<le> 2 ^ 32 \<and>
     (\<forall>x \<in> set (reverse st). length x < 2 ^ 32) \<and>
     (\<forall>x i. forward st x = Some i \<longleftrightarrow> i < length (reverse st) \<and> reverse st ! i = x)"

definition ids_saved :: "id_map_store \<Rightarrow> disk \<Rightarrow> bool" where
  "ids_saved st d \<longleftrightarrow> ids_open st \<and> d (ids_path st) = Some (concat (map encode_id (reverse st)))"

lemma encode_id_short: "length x < 2 ^ 32 \<Longrightarrow> encode_id x = put_u32 (length x) @ x"
  by (simp add: encode_id_def wrap_simps Let_def)

lemma length_encode_id: "length x < 2 ^ 32 \<Longrightarrow> length (encode_id x) = 4 + length x"
  by (simp add: encode_id_short)

lemma remember_simps [simp]:
  "reverse (remember x st) = reverse st @ [x]"
  "forward (remember x st) = (forward st)(x \<mapsto> u32 (length (reverse st)))"
  "ids_path (remember x st) = ids_path st" "ids_open (remember x st) = ids_open st"
  by (simp_all add: remember_def)

lemma remember_wf:
  assumes "ids_wf st" and "forward st x = None" and "length x < 2 ^ 32" and "length (reverse st) < 2 ^ 32"
  shows "ids_wf (remember x st)"
proof -
  have new: "x \<notin> set (reverse st)"
    using assms(1,2) by (auto simp: ids_wf_def in_set_conv_nth) (metis option.distinct(1))
  have "forward (remember x st) y = Some i \<longleftrightarrow> i < Suc (length (reverse st)) \<and> (reverse st @ [x]) ! i = y" for y i
    using assms new
    by (auto simp: ids_wf_def nth_append wrap_simps less_Suc_eq in_set_conv_nth split: if_splits)
  with assms new show ?thesis by (simp add: ids_wf_def)
qed

lemma rebuild_short: "length bs < 4 \<Longrightarrow> rebuild_index bs st = st"
  by (subst rebuild_index.simps) simp

lemma rebuild_record:
  assumes "length x < 2 ^ 32"
  shows "rebuild_index (encode_id x @ bs) st = rebuild_index bs (remember x st)"
proof -
  have len: "u32 (length x) = length x" using assms by (simp add: wrap_simps)
  have "\<not> length (encode_id x @ bs) < 4" "drop 4 (encode_id x @ bs) = x @ bs"
    "get_u32 (encode_id x @ bs) = length x"
    using assms by (simp_all add: encode_id_short len)
  then show ?thesis by (subst rebuild_index.simps) (simp add: Let_def)
qed

lemma rebuild_encoded:
  "\<forall>x \<in> set xs. length x < 2 ^ 32 \<Longrightarrow>
   rebuild_index (concat (map encode_id xs) @ bs) st = rebuild_index bs (fold remember xs st)"
  by (induction xs arbitrary: st) (simp_all add: rebuild_record)

lemma rebuild_torn:
  assumes "length x < 2 ^ 32" and "k < length (encode_id x)"
  shows "rebuild_index (take k (encode_id x)) st = st"
proof (cases "k < 4")
  case True
  then show ?thesis by (simp add: rebuild_short)
next
  case False
  have "take k (encode_id x) = put_u32 (length x) @ take (k - 4) x"
    using False assms by (simp add: encode_id_short)
  moreover have "k - 4 < length x" using assms False by (simp add: length_encode_id)
  moreover have "u32 (length x) = length x" using assms by (simp add: wrap_simps)
  ultimately show ?thesis by (subst rebuild_index.simps) (simp add: Let_def)
qed

text \<open>Replaying the ids of a well-formed store into a fresh one gives the same store.\<close>

lemma fold_remember_simps [simp]:
  "reverse (fold remember xs st) = reverse st @ xs"
  "ids_path (fold remember xs st) = ids_path st" "ids_open (fold remember xs st) = ids_open st"
  by (induction xs arbitrary: st) simp_all

lemma forward_fold_remember:
  assumes "distinct xs" and "length xs \<le> 2 ^ 32"
  shows "forward (fold remember xs (new_ids\<lparr>ids_path := p, ids_open := o'\<rparr>)) y = Some i \<longleftrightarrow> i < length xs \<and> xs ! i = y"
  using assms
proof (induction xs arbitrary: i y rule: rev_induct)
  case Nil
  then show ?case by (simp add: new_ids_def)
next
  case (snoc x xs)
  then show ?case
    by (auto simp: new_ids_def nth_append less_Suc_eq wrap_simps in_set_conv_nth)
qed

lemma replay_wf:
  assumes "ids_wf st"
  shows "fold remember (reverse st) (new_ids\<lparr>ids_path := ids_path st, ids_open := ids_open st\<rparr>) = st"
proof -
  let ?st = "fold remember (reverse st) (new_ids\<lparr>ids_path := ids_path st, ids_open := ids_open st\<rparr>)"
  have "forward ?st y = Some i \<longleftrightarrow> forward st y = Some i" for y i
    using assms forward_fold_remember [of "reverse st"] by (simp add: ids_wf_def)
  then have "forward ?st = forward st" by (rule map_eqI)
  then show ?thesis by (simp add: new_ids_def id_map_store.equality)
qed

section \<open>The interface of an id allocator\<close>

text \<open>
  What the shard relies on: handing out an id is remembered for good, is undone by the
  reverse lookup, and a known name gets its old id.  \<open>room\<close> says that one more id fits.
\<close>

locale id_allocator =
  fixes ok :: "'s \<Rightarrow> bool" and room :: "string \<Rightarrow> 's \<Rightarrow> bool"
    and alloc :: "string \<Rightarrow> 's \<Rightarrow> nat \<times> 's"
    and find :: "string \<Rightarrow> 's \<Rightarrow> nat option" and name :: "nat \<Rightarrow> 's \<Rightarrow> string"
  assumes alloc_ok: "ok s \<Longrightarrow> room x s \<Longrightarrow> ok (snd (alloc x s))"
    and alloc_found: "ok s \<Longrightarrow> room x s \<Longrightarrow> find x (snd (alloc x s)) = Some (fst (alloc x s))"
    and alloc_keeps: "ok s \<Longrightarrow> room x s \<Longrightarrow> find y s = Some i \<Longrightarrow> find y (snd (alloc x s)) = Some i"
    and find_name: "ok s \<Longrightarrow> find x s = Some i \<Longrightarrow> name i s = x"
begin

primrec alloc_all :: "string list \<Rightarrow> 's \<Rightarrow> 's" where
  "alloc_all [] s = s"
| "alloc_all (x # xs) s = alloc_all xs (snd (alloc x s))"

primrec all_room :: "string list \<Rightarrow> 's \<Rightarrow> bool" where
  "all_room [] s \<longleftrightarrow> True"
| "all_room (x # xs) s \<longleftrightarrow> room x s \<and> all_room xs (snd (alloc x s))"

text \<open>Over a run of allocations an id never changes and never gets a second name.\<close>

lemma ids_stable:
  assumes "ok s" and "all_room xs s" and "find x s = Some i"
  shows "ok (alloc_all xs s) \<and> find x (alloc_all xs s) = Some i \<and> name i (alloc_all xs s) = x"
  using assms
proof (induction xs arbitrary: s)
  case Nil
  then show ?case by (simp add: find_name)
next
  case (Cons y ys)
  then show ?case by (simp add: alloc_ok alloc_keeps)
qed

lemma ids_injective: "ok s \<Longrightarrow> find x s = Some i \<Longrightarrow> find y s = Some i \<Longrightarrow> x = y"
  by (metis find_name)

end

definition ids_ok :: "id_map_store \<times> disk \<Rightarrow> bool" where
  "ids_ok sd \<longleftrightarrow> ids_wf (fst sd) \<and> ids_saved (fst sd) (snd sd)"

definition id_fits :: "string \<Rightarrow> id_map_store \<times> disk \<Rightarrow> bool" where
  "id_fits x sd \<longleftrightarrow> length x < 2 ^ 32 \<and> length (reverse (fst sd)) < 2 ^ 32"

text \<open>The record of \<open>x\<close> is written whole.\<close>

abbreviation assign_whole :: "string \<Rightarrow> id_map_store \<times> disk \<Rightarrow> (nat \<times> bool) \<times> id_map_store \<times> disk" where
  "assign_whole x sd \<equiv> assign (length (encode_id x)) x sd"

lemma assign_ok:
  assumes "ids_ok sd" and "id_fits x sd"
  shows "ids_ok (snd (assign_whole x sd))"
proof -
  obtain st d where sd: "sd = (st, d)" by (cases sd)
  show ?thesis
  proof (cases "forward st x")
    case None
    with assms have "ids_wf (remember x st)" by (intro remember_wf) (simp_all add: sd ids_ok_def id_fits_def)
    with None assms show ?thesis
      by (simp add: sd ids_ok_def assign_def ids_saved_def persist_id_def)
  next
    case (Some i)
    with assms show ?thesis by (simp add: sd assign_def)
  qed
qed

lemma assign_find:
  assumes "ids_ok sd" and "id_fits x sd"
  shows "lookup y (fst (snd (assign_whole x sd))) =
    (if y = x then Some (fst (fst (assign_whole x sd))) else lookup y (fst sd))"
  by (cases sd) (auto simp: assign_def lookup_def split: option.splits)

lemma lookup_name:
  assumes "ids_ok sd" and "lookup x (fst sd) = Some i"
  shows "reverse_lookup i (fst sd) = x"
  using assms by (auto simp: ids_ok_def ids_wf_def lookup_def reverse_lookup_def)

interpretation ia: id_allocator ids_ok id_fits
  "\<lambda>x sd. (fst (fst (assign_whole x sd)), snd (assign_whole x sd))"
  "\<lambda>x sd. lookup x (fst sd)" "\<lambda>i sd. reverse_lookup i (fst sd)"
proof
  fix x y i and sd :: "id_map_store \<times> disk"
  assume ok: "ids_ok sd" "id_fits x sd"
  then show "ids_ok (snd (fst (fst (assign_whole x sd)), snd (assign_whole x sd)))" by (simp add: assign_ok)
  show "lookup x (fst (snd (fst (fst (assign_whole x sd)), snd (assign_whole x sd)))) =
    Some (fst (fst (fst (assign_whole x sd)), snd (assign_whole x sd)))"
    using ok by (simp add: assign_find)
  assume "lookup y (fst sd) = Some i"
  then show "lookup y (fst (snd (fst (fst (assign_whole x sd)), snd (assign_whole x sd)))) = Some i"
    using ok by (cases sd) (auto simp: assign_def lookup_def split: option.splits)
next
  fix x i and sd :: "id_map_store \<times> disk"
  assume "ids_ok sd" "lookup x (fst sd) = Some i"
  then show "reverse_lookup i (fst sd) = x" by (rule lookup_name)
qed

section \<open>Properties\<close>

primrec assign_all :: "string list \<Rightarrow> id_map_store \<times> disk \<Rightarrow> id_map_store \<times> disk" where
  "assign_all [] sd = sd"
| "assign_all (x # xs) sd = assign_all xs (snd (assign_whole x sd))"

primrec all_fit :: "string list \<Rightarrow> id_map_store \<times> disk \<Rightarrow> bool" where
  "all_fit [] sd \<longleftrightarrow> True"
| "all_fit (x # xs) sd \<longleftrightarrow> id_fits x sd \<and> all_fit xs (snd (assign_whole x sd))"

lemma assign_all_alloc: "assign_all xs sd = ia.alloc_all xs sd"
  by (induction xs arbitrary: sd) simp_all

lemma all_fit_room: "all_fit xs sd = ia.all_room xs sd"
  by (induction xs arbitrary: sd) simp_all

lemma open_whole:
  assumes "ids_ok (st, d)" and "d' (ids_path st) = Some (concat (map encode_id (reverse st)) @ bs)"
    and "\<And>st. rebuild_index bs st = st"
  shows "open_ids c (ids_path st) new_ids d' = (st, d')"
proof -
  have *: "ids_wf st" "ids_open st" "\<forall>x \<in> set (reverse st). length x < 2 ^ 32"
    using assms(1) by (auto simp: ids_ok_def ids_saved_def ids_wf_def)
  with rebuild_encoded [OF *(3), of bs] replay_wf [OF *(1)] assms(2,3) show ?thesis
    by (simp add: open_ids_def Let_def)
qed

text \<open>
  The id map is a bijection that never forgets.  From a store whose memory and file agree,
  after any run of assignments the store is again such a store, every id found before is still found,
  every found id is undone by the reverse lookup, and two names never share an id.
\<close>

lemma id_map_bijection:
  assumes "ids_ok sd" and "all_fit xs sd"
  shows "ids_ok (assign_all xs sd) \<and>
    (\<forall>x i. lookup x (fst sd) = Some i \<longrightarrow> lookup x (fst (assign_all xs sd)) = Some i) \<and>
    (\<forall>x i. lookup x (fst (assign_all xs sd)) = Some i \<longrightarrow> reverse_lookup i (fst (assign_all xs sd)) = x) \<and>
    (\<forall>x y i. lookup x (fst (assign_all xs sd)) = Some i \<longrightarrow> lookup y (fst (assign_all xs sd)) = Some i \<longrightarrow> x = y)"
proof -
  have ok: "ids_ok (assign_all xs sd)"
    using assms by (induction xs arbitrary: sd) (simp_all add: assign_ok)
  moreover have "lookup x (fst (assign_all xs sd)) = Some i" if "lookup x (fst sd) = Some i" for x i
    using ia.ids_stable [of sd xs x i] assms that by (simp add: assign_all_alloc all_fit_room)
  ultimately show ?thesis using ia.ids_injective [OF ok] lookup_name [OF ok] by blast
qed

lemma empty_ids_ok: "ids_ok (open_ids True p new_ids Map.empty)"
  by (simp add: open_ids_def rebuild_short ids_ok_def ids_wf_def ids_saved_def new_ids_def Let_def)

text \<open>
  \<open>assign\<close> on both branches.  A known name gets its id back, nothing changes and
  nothing is written; a new one gets the number of ids handed out so far, so ids stay dense.
\<close>

lemma assign_dense:
  assumes "ids_ok (st, d)" and "id_fits x (st, d)"
  shows "assign k x (st, d) =
    (case lookup x st of
       Some i \<Rightarrow> ((i, False), st, d)
     | None \<Rightarrow> ((id_count st, True),
                st\<lparr>forward := (forward st)(x \<mapsto> id_count st), reverse := list_all_external_ids st @ [x]\<rparr>,
                d(ids_path st \<mapsto> concat (map encode_id (reverse st)) @ take k (encode_id x))))"
  using assms
  by (auto simp: assign_def lookup_def id_count_def list_all_external_ids_def remember_def persist_id_def
      ids_ok_def ids_saved_def id_fits_def wrap_simps split: option.splits)

text \<open>
  The map survives a restart, even one in the middle of a write.  Reopening the file in a
  fresh object gives exactly the store as it was; if the last record was cut off anywhere
  before its end, the store as it was before that assignment.
\<close>

lemma id_map_survives_restart:
  assumes "ids_ok (st, d)" and "length x < 2 ^ 32" and "k < length (encode_id x)"
  shows "open_ids c (ids_path st) new_ids d = (st, d) \<and>
    open_ids c (ids_path st) new_ids (persist_id k x st d) = (st, persist_id k x st d)"
proof
  have saved: "ids_open st" "d (ids_path st) = Some (concat (map encode_id (reverse st)))"
    using assms(1) by (simp_all add: ids_ok_def ids_saved_def)
  show "open_ids c (ids_path st) new_ids d = (st, d)"
    by (rule open_whole [OF assms(1), where bs = "[]"]) (simp_all add: saved rebuild_short)
  show "open_ids c (ids_path st) new_ids (persist_id k x st d) = (st, persist_id k x st d)"
    by (rule open_whole [OF assms(1), where bs = "take k (encode_id x)"])
       (simp_all add: saved persist_id_def rebuild_torn [OF assms(2,3)])
qed

text \<open>
  But a torn record is not removed, and the next one is appended behind it.  A record
  cut off after 5 of its 7 bytes, then a restart, then \<open>c\<close> assigned local id 0 and written
  whole: the next restart reads the leftovers and the new record as one id nobody ever
  assigned, and \<open>c\<close> is gone.
\<close>

lemma torn_record_corrupts_next:
  "let d0 = [''f'' \<mapsto> take 5 (encode_id ''abc'')];
       sd1 = open_ids True ''f'' new_ids d0;
       (r, sd2) = assign_whole ''c'' sd1;
       st3 = fst (open_ids True ''f'' new_ids (snd sd2))
   in r = (0, True) \<and> lookup ''c'' (fst sd2) = Some 0 \<and> lookup ''c'' st3 = None \<and>
      reverse_lookup 0 st3 = ''a'' @ [char_of (1::nat), char_of (0::nat)]"
proof -
  have torn: "rebuild_index (take 5 (encode_id ''abc'')) st = st" for st
    by (rule rebuild_torn) (simp_all add: length_encode_id)
  have bytes: "take 5 (encode_id ''abc'') @ encode_id ''c'' =
      encode_id (''a'' @ [char_of (1::nat), char_of (0::nat)]) @ [char_of (0::nat), char_of (0::nat), CHR ''c'']"
    by (simp add: encode_id_short put_u32_small)
  have re: "rebuild_index (take 5 (encode_id ''abc'') @ encode_id ''c'') st =
      remember (''a'' @ [char_of (1::nat), char_of (0::nat)]) st" for st
    unfolding bytes by (subst rebuild_record) (simp_all add: rebuild_short)
  show ?thesis
    using re by (simp add: open_ids_def torn assign_def persist_id_def new_ids_def lookup_def
        reverse_lookup_def u32_def remember_def Let_def)
qed

end
