(* ===== verification/Shard_Service.thy ===== *)
theory Shard_Service
  imports Hnsw_Search Id_Map_Store Coordinator_Api
begin

text \<open>
  \<^verbatim>\<open>cluster/shard_service_impl.hpp\<close>: the gRPC handlers of a shard node over its index and its id
  map, and the epoch that fences off writes from a coordinator with an old topology.  A
  handler returns the response, or \<open>None\<close> where an exception makes the call fail.  Handlers
  run one after another, except for the epoch check, whose load and store are separate
  steps at the end of the theory.
\<close>

section \<open>State and messages\<close>

record shard_service =
  sv_index :: hnsw
  sv_ids :: "id_map_store \<times> disk"
  sv_shard_id :: string
  current_epoch :: nat

record ack_response =
  ack_ok :: bool
  ack_error :: string

record search_result =
  sr_external_id :: string
  sr_distance :: f32
  sr_metadata :: string

record search_reply =
  sp_results :: "search_result list"
  sp_ok :: bool
  sp_error :: string

record stats_reply =
  st_element_count :: nat
  st_vector_dim :: nat
  st_shard_id :: string

record vector_reply =
  vr_ok :: bool
  vr_vector :: "f32 list"
  vr_metadata :: string
  vr_error :: string

definition dim_error :: string where
  "dim_error = ''vector dimension mismatch, expected '' @ to_string_nat VECTOR_DIM"

section \<open>Handlers\<close>

definition check_and_advance_epoch :: "nat \<Rightarrow> shard_service \<Rightarrow> string option \<times> shard_service" where
  "check_and_advance_epoch request_epoch s =
     (let cur = current_epoch s in
      if request_epoch < cur
      then (Some (''stale epoch '' @ to_string_nat request_epoch @ '', this shard has already seen epoch '' @ to_string_nat cur), s)
      else (None, if request_epoch > cur then s\<lparr>current_epoch := request_epoch\<rparr> else s))"

definition shard_insert ::
  "os_answers \<Rightarrow> rat list \<Rightarrow> nat \<Rightarrow> f32 insert_request \<Rightarrow> shard_service \<Rightarrow> (ack_response option \<times> shard_service) outcome" where
  "shard_insert os draws written request s =
     (if length (ir_vector request) \<noteq> VECTOR_DIM then Returns (Some \<lparr>ack_ok = False, ack_error = dim_error\<rparr>, s)
      else
        case check_and_advance_epoch (ir_epoch request) s of
          (Some e, s) \<Rightarrow> Returns (Some \<lparr>ack_ok = False, ack_error = e\<rparr>, s)
        | (None, s) \<Rightarrow>
            (let ((local_id, is_new), ids) = assign written (ir_external_id request) (sv_ids s);
                 s = s\<lparr>sv_ids := ids\<rparr>
             in bind_outcome (hnsw_insert os draws (ir_vector request) local_id (ir_metadata request) (sv_index s)) (\<lambda>(e, h).
                  Returns (if e = None then Some \<lparr>ack_ok = True, ack_error = ''''\<rparr> else None, s\<lparr>sv_index := h\<rparr>))))"

definition shard_search :: "f32 list \<Rightarrow> int \<Rightarrow> shard_service \<Rightarrow> search_reply outcome" where
  "shard_search vec k s =
     (if length vec \<noteq> VECTOR_DIM then Returns \<lparr>sp_results = [], sp_ok = False, sp_error = dim_error\<rparr>
      else
        bind_outcome (search vec k (sv_index s)) (\<lambda>rs.
          Returns \<lparr>sp_results = map (\<lambda>r. \<lparr>sr_external_id = reverse_lookup (r_id r) (fst (sv_ids s)),
                                           sr_distance = r_distance r, sr_metadata = r_metadata r\<rparr>) rs,
                   sp_ok = True, sp_error = ''''\<rparr>))"

definition not_found :: string where
  "not_found = ''external_id not found on this shard''"

definition shard_delete :: "delete_request \<Rightarrow> shard_service \<Rightarrow> (ack_response \<times> shard_service) outcome" where
  "shard_delete request s =
     (case check_and_advance_epoch (dr_epoch request) s of
        (Some e, s) \<Rightarrow> Returns (\<lparr>ack_ok = False, ack_error = e\<rparr>, s)
      | (None, s) \<Rightarrow>
          (case lookup (dr_external_id request) (fst (sv_ids s)) of
             None \<Rightarrow> Returns (\<lparr>ack_ok = False, ack_error = not_found\<rparr>, s)
           | Some local_id \<Rightarrow>
               bind_outcome (delete_vector local_id (sv_index s)) (\<lambda>h.
                 Returns (\<lparr>ack_ok = True, ack_error = ''''\<rparr>, s\<lparr>sv_index := h\<rparr>))))"

definition shard_stats :: "shard_service \<Rightarrow> stats_reply" where
  "shard_stats s = \<lparr>st_element_count = hnsw_size (sv_index s), st_vector_dim = VECTOR_DIM, st_shard_id = sv_shard_id s\<rparr>"

definition shard_ping :: "shard_service \<Rightarrow> bool \<times> string" where
  "shard_ping s = (True, sv_shard_id s)"

fun live_ids :: "shard_service \<Rightarrow> string list \<Rightarrow> string list outcome" where
  "live_ids s [] = Returns []"
| "live_ids s (x # xs) =
     (case lookup x (fst (sv_ids s)) of
        None \<Rightarrow> live_ids s xs
      | Some local_id \<Rightarrow>
          bind_outcome (node_deleted local_id (sv_index s)) (\<lambda>dead.
          bind_outcome (live_ids s xs) (\<lambda>ys. Returns (if dead then ys else x # ys))))"

definition list_local_ids :: "shard_service \<Rightarrow> string list outcome" where
  "list_local_ids s = live_ids s (list_all_external_ids (fst (sv_ids s)))"

definition get_vector :: "string \<Rightarrow> shard_service \<Rightarrow> vector_reply outcome" where
  "get_vector external_id s =
     (case lookup external_id (fst (sv_ids s)) of
        None \<Rightarrow> Returns \<lparr>vr_ok = False, vr_vector = [], vr_metadata = '''', vr_error = not_found\<rparr>
      | Some local_id \<Rightarrow>
          bind_outcome (get_vector_data local_id (sv_index s)) (\<lambda>vec.
            Returns (if vec = []
                     then \<lparr>vr_ok = False, vr_vector = [], vr_metadata = '''',
                            vr_error = ''vector data unavailable (deleted or out of range)''\<rparr>
                     else \<lparr>vr_ok = True, vr_vector = vec, vr_metadata = hnsw_metadata local_id (sv_index s), vr_error = ''''\<rparr>)))"

text \<open>
  The process (\<open>main\<close> of \<^verbatim>\<open>cluster/shard_node_main.cpp\<close>): 100 MiB of storage, the index over it with
  the default metric, the id map; \<open>None\<close> if the storage cannot be opened.
\<close>

definition start_shard ::
  "os_answers \<Rightarrow> bool \<Rightarrow> string \<Rightarrow> string \<Rightarrow> contents files \<Rightarrow> disk \<Rightarrow> shard_service option outcome" where
  "start_shard os can_create data_dir name fs d =
     (case open_mmap os zero_contents (data_dir @ ''/index.ndb'') (100 * 1024 * 1024) (new_mmap, fs) of
        (Some e, st) \<Rightarrow> Returns None
      | (None, st) \<Rightarrow>
          (let md = open_metadata (case d (data_dir @ ''/metadata.bin'') of None \<Rightarrow> '''' | Some bs \<Rightarrow> bs) new_metadata
           in bind_outcome (open_hnsw st md L2) (\<lambda>h.
                Returns (Some \<lparr>sv_index = h, sv_ids = open_ids can_create (data_dir @ ''/id_map.bin'') new_ids d,
                               sv_shard_id = name, current_epoch = 0\<rparr>))))"

section \<open>A shard is a map from ids to vectors\<close>

text \<open>
  The invariant ties the id map to the index: the ids handed out so far are exactly the nodes
  written so far, and the element count, which fits the 32 bits of the header, is no less than
  the number of live nodes.  The view is what a client may expect: external id to vector.
\<close>

abbreviation known :: "shard_service \<Rightarrow> nat" where
  "known s \<equiv> length (reverse (fst (sv_ids s)))"

definition service_ok :: "shard_service \<Rightarrow> bool" where
  "service_ok s \<longleftrightarrow> ids_ok (sv_ids s) \<and> graph_ok {..<known s} (sv_index s) \<and>
     card (live {..<known s} (sv_index s)) \<le> element_count (sv_index s) \<and> element_count (sv_index s) < 2 ^ 32"

definition view :: "shard_service \<Rightarrow> string \<rightharpoonup> f32 list" where
  "view s x = (case lookup x (fst (sv_ids s)) of
     None \<Rightarrow> None
   | Some i \<Rightarrow> if is_deleted (nodes (sv_index s) i) then None else Some (nd_vector (nodes (sv_index s) i)))"

lemma service_parts:
  assumes "service_ok s"
  shows "ids_ok (sv_ids s)" "graph_ok {..<known s} (sv_index s)" "nodes_ok {..<known s} (sv_index s)"
  using assms by (auto simp: service_ok_def graph_ok_def)

lemma view_epoch [simp]: "view (s\<lparr>current_epoch := e\<rparr>) = view s"
  by (simp add: view_def fun_eq_iff split: option.split)

lemma lookup_iff:
  assumes "ids_ok sd"
  shows "lookup x (fst sd) = Some i \<longleftrightarrow> i < length (reverse (fst sd)) \<and> reverse (fst sd) ! i = x"
  using assms by (simp add: ids_ok_def ids_wf_def lookup_def)

lemma assign_known: "lookup x (fst sd) = Some i \<Longrightarrow> assign k x sd = ((i, False), sd)"
  by (cases sd) (simp add: assign_def lookup_def)

lemma assign_new:
  assumes "lookup x (fst sd) = None" and "length (reverse (fst sd)) < 2 ^ 32"
  shows "\<exists>sd'. assign k x sd = ((length (reverse (fst sd)), True), sd') \<and> reverse (fst sd') = reverse (fst sd) @ [x]"
  using assms by (cases sd) (simp add: assign_def lookup_def u32_def)

text \<open>
  The next id lies within one resize of the storage: the one before it lies inside.
\<close>

lemma next_id_in_reach:
  assumes "nodes_ok {..<n} h" and "i \<le> n"
  shows "node_end i \<le> get_size h + 10 * 1024 * 1024"
proof (cases i)
  case 0
  then show ?thesis by (simp add: node_end_def HEADER_SIZE_def NODE_SIZE_def)
next
  case (Suc j)
  then have "node_end j \<le> get_size h" using assms by (simp add: nodes_ok_def)
  then show ?thesis by (simp add: Suc node_end_def NODE_SIZE_def)
qed

definition insert_fits :: "rat list \<Rightarrow> string \<Rightarrow> shard_service \<Rightarrow> bool" where
  "insert_fits draws x s \<longleftrightarrow> get_random_level draws < MAX_LAYERS \<and> length x < 2 ^ 32 \<and> metadata_fits (known s) \<and>
     element_count (sv_index s) + 1 < 2 ^ 32"

lemma insert_fits_ids: "insert_fits draws x s \<Longrightarrow> id_fits x (sv_ids s) \<and> known s < 2 ^ 32"
  by (auto simp: insert_fits_def id_fits_def metadata_fits_def)

text \<open>The local id an insertion writes to, and the ids afterwards.\<close>

lemma assign_local:
  assumes "ids_ok (sv_ids s)" and "insert_fits draws x s"
  shows "\<exists>i new ids'. assign_whole x (sv_ids s) = ((i, new), ids') \<and> i \<le> known s \<and> ids_ok ids' \<and>
    lookup x (fst ids') = Some i \<and> (\<forall>y. y \<noteq> x \<longrightarrow> lookup y (fst ids') = lookup y (fst (sv_ids s)) \<and> lookup y (fst ids') \<noteq> Some i) \<and>
    insert i {..<known s} = {..<length (reverse (fst ids'))}"
proof -
  obtain i new ids' where a: "assign_whole x (sv_ids s) = ((i, new), ids')"
    by (cases "assign_whole x (sv_ids s)") (metis prod.collapse)
  note fits = conjunct1 [OF insert_fits_ids [OF assms(2)]]
  have ok: "ids_ok ids'" using assign_ok [OF assms(1) fits] a by simp
  have find: "lookup y (fst ids') = (if y = x then Some i else lookup y (fst (sv_ids s)))" for y
    using assign_find [OF assms(1) fits, of y] a by simp
  have inj: "lookup y (fst ids') \<noteq> Some i" if "y \<noteq> x" for y
    using that find [of x] lookup_iff [OF ok] by auto
  have "i \<le> known s \<and> insert i {..<known s} = {..<length (reverse (fst ids'))}"
  proof (cases "lookup x (fst (sv_ids s))")
    case None
    with assign_new [OF None, of "length (encode_id x)"] insert_fits_ids [OF assms(2)] a
    have "i = known s \<and> reverse (fst ids') = reverse (fst (sv_ids s)) @ [x]" by auto
    then show ?thesis by (simp add: lessThan_Suc)
  next
    case (Some j)
    with assign_known [OF Some] a lookup_iff [OF assms(1)] show ?thesis by (auto simp: insert_absorb)
  qed
  with a ok find inj show ?thesis by (intro exI [of _ i] exI [of _ new] exI [of _ ids']) simp
qed

lemma shard_insert_ok:
  assumes "service_ok s" and "insert_fits draws (ir_external_id req) s" and "length (ir_vector req) = VECTOR_DIM"
    and "current_epoch s \<le> ir_epoch req"
  shows "\<exists>s'. shard_insert os_ok draws (length (encode_id (ir_external_id req))) req s
      = Returns (Some \<lparr>ack_ok = True, ack_error = ''''\<rparr>, s') \<and> service_ok s' \<and>
    view s' = (view s)(ir_external_id req \<mapsto> ir_vector req) \<and> current_epoch s' = ir_epoch req \<and>
    (file_magic (sv_index s) = NANODB_MAGIC \<longrightarrow> header_ok (sv_index s')) \<and> known s' \<le> Suc (known s) \<and>
    sv_ids s' = snd (assign_whole (ir_external_id req) (sv_ids s)) \<and>
    element_count (sv_index s') = element_count (sv_index s) + 1"
proof -
  note sp = service_parts [OF assms(1)]
  let ?x = "ir_external_id req"
  obtain i new ids' where a: "assign_whole ?x (sv_ids s) = ((i, new), ids')" "i \<le> known s" "ids_ok ids'"
    "lookup ?x (fst ids') = Some i" "insert i {..<known s} = {..<length (reverse (fst ids'))}"
    and other: "\<And>y. y \<noteq> ?x \<Longrightarrow> lookup y (fst ids') = lookup y (fst (sv_ids s)) \<and> lookup y (fst ids') \<noteq> Some i"
    using assign_local [OF sp(1) assms(2)] by metis
  have "i \<noteq> no_id" "metadata_fits i"
    using assms(2) a(2) by (auto simp: insert_fits_def metadata_fits_def no_id_def)
  moreover have cnt: "u64 (element_count (sv_index s) + 1) = element_count (sv_index s) + 1" "count_ok (element_count (sv_index s) + 1)"
    using assms(2) by (simp_all add: insert_fits_def u64_def count_ok_small)
  ultimately have "insert_ok draws (ir_vector req) i (sv_index s)"
    using assms(2,3) next_id_in_reach [OF sp(3) a(2)] by (simp add: insert_ok_def insert_fits_def)
  moreover have "entry_point_id (sv_index s) = no_id \<or> (entry_point_id (sv_index s) \<in> insert i {..<known s} \<and>
      0 \<le> current_max_layer (sv_index s) \<and> current_max_layer (sv_index s) < int MAX_LAYERS)"
    using sp(2) by (auto simp: graph_ok_def)
  ultimately obtain h' where h': "hnsw_insert os_ok draws (ir_vector req) i (ir_metadata req) (sv_index s) = Returns (None, h')"
    "graph_ok (insert i {..<known s}) h'" "inserted i (ir_vector req) (get_random_level draws) (sv_index s) h'"
    using insert_core [OF sp(3), of draws "ir_vector req" i "ir_metadata req"] by blast
  define s' where "s' = s\<lparr>current_epoch := ir_epoch req, sv_ids := ids', sv_index := h'\<rparr>"
  have "shard_insert os_ok draws (length (encode_id ?x)) req s = Returns (Some \<lparr>ack_ok = True, ack_error = ''''\<rparr>, s')"
    using assms(3,4) a(1) h'(1) by (auto simp: shard_insert_def check_and_advance_epoch_def Let_def s'_def)
  moreover have e: "element_count h' = element_count (sv_index s) + 1" using h'(3) cnt(1) by (simp add: inserted_def)
  then have "service_ok s'"
    using a(3,5) h'(2) live_inserted [OF h'(3), of "{..<known s}"] assms(1,2)
    by (simp add: service_ok_def s'_def insert_fits_def)
  moreover have "view s' y = ((view s)(?x \<mapsto> ir_vector req)) y" for y
    using a(4) other [of y] h'(3) assms(3)
    by (cases "y = ?x") (auto simp: view_def s'_def inserted_def split: option.splits)
  moreover have "file_magic (sv_index s) = NANODB_MAGIC \<longrightarrow> header_ok (sv_index s')"
    using h'(3) by (simp add: inserted_def s'_def)
  moreover have "card (insert i {..<known s}) \<le> Suc (known s)" by (simp add: card_insert_if)
  then have "known s' \<le> Suc (known s)" unfolding a(5) by (simp add: s'_def)
  ultimately show ?thesis using a(1) e by (intro exI [of _ s']) (auto simp: s'_def)
qed

lemma shard_delete_ok:
  assumes "service_ok s" and "current_epoch s \<le> dr_epoch req"
  shows "\<exists>s' r. shard_delete req s = Returns (r, s') \<and> service_ok s' \<and> view s' = (view s)(dr_external_id req := None) \<and>
    r = (if dr_external_id req \<in> set (list_all_external_ids (fst (sv_ids s)))
         then \<lparr>ack_ok = True, ack_error = ''''\<rparr> else \<lparr>ack_ok = False, ack_error = not_found\<rparr>) \<and>
    current_epoch s' = dr_epoch req \<and> (header_ok (sv_index s) \<longrightarrow> header_ok (sv_index s')) \<and> sv_ids s' = sv_ids s \<and>
    element_count (sv_index s') \<le> element_count (sv_index s) \<and> metadata (sv_index s') = metadata (sv_index s)"
proof -
  note sp = service_parts [OF assms(1)]
  let ?x = "dr_external_id req"
  define s1 where "s1 = s\<lparr>current_epoch := dr_epoch req\<rparr>"
  have chk: "check_and_advance_epoch (dr_epoch req) s = (None, s1)"
    using assms(2) by (cases s) (auto simp: check_and_advance_epoch_def Let_def s1_def)
  show ?thesis
  proof (cases "lookup ?x (fst (sv_ids s))")
    case None
    then have "view s ?x = None" by (simp add: view_def)
    then have "view s1 = (view s)(?x := None)" by (auto simp: s1_def view_epoch)
    moreover have "shard_delete req s = Returns (\<lparr>ack_ok = False, ack_error = not_found\<rparr>, s1)"
      using None chk by (simp add: shard_delete_def s1_def)
    ultimately show ?thesis using None assms(1) lookup_iff [OF sp(1), of ?x]
      by (auto simp: s1_def service_ok_def list_all_external_ids_def in_set_conv_nth)
  next
    case (Some i)
    then have i: "i \<in> {..<known s}" using lookup_iff [OF sp(1)] by simp
    have "?x \<in> set (list_all_external_ids (fst (sv_ids s)))"
      using Some lookup_iff [OF sp(1), of ?x i] by (auto simp: list_all_external_ids_def in_set_conv_nth)
    let ?c = "element_count (sv_index s)" and ?dead = "is_deleted (nodes (sv_index s) i)"
    have "finite (live {..<known s} (sv_index s))" by (simp add: live_def)
    then have "\<not> ?dead \<Longrightarrow> 0 < card (live {..<known s} (sv_index s))"
      using i unfolding card_gt_0_iff by (auto simp: live_def)
    then have c: "\<not> ?dead \<Longrightarrow> 0 < ?c" "?c < 2 ^ 32" "card (live {..<known s} (sv_index s)) \<le> ?c"
      using assms(1) by (auto simp: service_ok_def)
    then have sub: "\<not> ?dead \<Longrightarrow> u64_sub ?c 1 = ?c - 1" by (simp add: u64_sub_def)
    then have "?dead \<or> count_ok (u64_sub ?c 1)" using c(2) count_ok_small [of "?c - 1"] by fastforce
    from delete_keeps_graph [OF sp(2) i this]
    obtain h' where h': "delete_vector i (sv_index s) = Returns h'" "graph_ok {..<known s} h'" "header_ok (sv_index s) \<longrightarrow> header_ok h'"
      "nodes h' = (nodes (sv_index s))(i := nodes (sv_index s) i\<lparr>is_deleted := True\<rparr>)"
      "element_count h' = (if ?dead then ?c else u64_sub ?c 1)" by blast
    have live': "card (live {..<known s} h') \<le> element_count h'" "element_count h' \<le> ?c"
      using live_deleted [OF h'(4) _ i] c sub h'(5) by (cases ?dead; auto)+
    have md: "metadata h' = metadata (sv_index s)"
      using h'(1) get_node_ok [OF sp(3) i] by (auto simp: delete_vector_def Let_def storage_simps split: if_splits)
    define s' where "s' = s1\<lparr>sv_index := h'\<rparr>"
    have "shard_delete req s = Returns (\<lparr>ack_ok = True, ack_error = ''''\<rparr>, s')"
      using chk Some h'(1) by (simp add: shard_delete_def s1_def s'_def)
    moreover have "service_ok s'" using sp(1) h'(2) live' c(2) by (simp add: service_ok_def s'_def s1_def)
    moreover have "view s' y = ((view s)(?x := None)) y" for y
    proof (cases "y = ?x")
      case True
      then show ?thesis using Some h'(4) by (simp add: view_def s'_def s1_def)
    next
      case False
      then have "lookup y (fst (sv_ids s)) \<noteq> Some i" using Some lookup_iff [OF sp(1)] by auto
      then show ?thesis using False h'(4) by (auto simp: view_def s'_def s1_def split: option.splits)
    qed
    ultimately show ?thesis using h'(3) live'(2) md \<open>?x \<in> set _\<close> by (auto simp: s'_def s1_def)
  qed
qed

lemma get_vector_ok:
  assumes "service_ok s"
  shows "\<exists>r. get_vector x s = Returns r \<and> (if vr_ok r then view s x = Some (vr_vector r) else view s x = None)"
proof (cases "lookup x (fst (sv_ids s))")
  case None
  then show ?thesis by (simp add: get_vector_def view_def)
next
  case (Some i)
  note sp = service_parts [OF assms]
  have i: "i \<in> {..<known s}" using Some lookup_iff [OF sp(1)] by simp
  then have "node_end i \<le> get_size (sv_index s)" "length (nd_vector (nodes (sv_index s) i)) = VECTOR_DIM"
    using sp(3) by (auto simp: nodes_ok_def node_ok_def)
  moreover have "VECTOR_DIM \<noteq> 0" by (simp add: VECTOR_DIM_def)
  ultimately show ?thesis
    using Some get_node_ok [OF sp(3) i] by (auto simp: get_vector_def get_vector_data_def view_def)
qed

lemma live_ids_ok:
  assumes "service_ok s"
  shows "\<exists>ys. live_ids s xs = Returns ys \<and> ys = filter (\<lambda>x. x \<in> dom (view s)) xs"
proof (induction xs)
  case (Cons x xs)
  note sp = service_parts [OF assms]
  show ?case
  proof (cases "lookup x (fst (sv_ids s))")
    case None
    with Cons show ?thesis by (simp add: view_def dom_def)
  next
    case (Some i)
    then have i: "i \<in> {..<known s}" using lookup_iff [OF sp(1)] by simp
    then have "node_end i \<le> get_size (sv_index s)" using sp(3) unfolding nodes_ok_def by blast
    then have "node_deleted i (sv_index s) = Returns (is_deleted (nodes (sv_index s) i))"
      using get_node_ok [OF sp(3) i] by (simp add: node_deleted_def)
    with Cons Some show ?thesis by (auto simp: view_def dom_def)
  qed
qed simp

lemma list_local_ids_ok:
  assumes "service_ok s"
  shows "\<exists>ys. list_local_ids s = Returns ys \<and> distinct ys \<and> set ys = dom (view s)"
proof -
  note sp = service_parts [OF assms]
  have "x \<in> set (reverse (fst (sv_ids s)))" if x: "x \<in> dom (view s)" for x
  proof -
    obtain i where "lookup x (fst (sv_ids s)) = Some i" using x by (auto simp: view_def split: option.splits)
    then show ?thesis using lookup_iff [OF sp(1), of x i] by auto
  qed
  moreover have "distinct (reverse (fst (sv_ids s)))" using sp(1) by (simp add: ids_ok_def ids_wf_def)
  ultimately show ?thesis
    using live_ids_ok [OF assms] by (auto simp: list_local_ids_def list_all_external_ids_def)
qed

section \<open>The epoch check as two steps\<close>

text \<open>
  Two gRPC threads may be inside \<open>check_and_advance_epoch\<close> at once: the load and the store of
  the atomic are separate.  A request has arrived, has loaded the current epoch, or is
  through.
\<close>

datatype epoch_phase = Arrived nat | Loaded nat nat | Refused nat | Accepted nat

definition epoch_step :: "nat \<Rightarrow> nat \<times> epoch_phase list \<Rightarrow> nat \<times> epoch_phase list" where
  "epoch_step i st =
     (case st of (cur, ps) \<Rightarrow>
        case ps ! i of
          Arrived e \<Rightarrow> (cur, ps[i := Loaded e cur])
        | Loaded e seen \<Rightarrow>
            (if e < seen then (cur, ps[i := Refused e])
             else (if e > seen then e else cur, ps[i := Accepted e]))
        | _ \<Rightarrow> st)"

section \<open>A small shard\<close>

definition empty_shard :: "nat \<Rightarrow> shard_service" where
  "empty_shard e = \<lparr>sv_index = empty_index,
     sv_ids = (new_ids\<lparr>ids_path := ''ids'', ids_open := True\<rparr>, [''ids'' \<mapsto> '''']),
     sv_shard_id = ''0'', current_epoch = e\<rparr>"

lemma empty_shard_ok: "service_ok (empty_shard e)"
  using empty_index_ok
  by (simp add: service_ok_def empty_shard_def ids_ok_def ids_wf_def ids_saved_def new_ids_def live_def)

lemma empty_shard_fits: "length x < 2 ^ 32 \<Longrightarrow> insert_fits [1 / 2] x (empty_shard e)"
  by (simp add: insert_fits_def empty_shard_def new_ids_def metadata_fits_def get_random_level_def LEVEL_THRESHOLD_def
      MAX_LAYERS_def)

lemma empty_shard_view: "view (empty_shard e) = Map.empty"
  by (simp add: view_def empty_shard_def lookup_def new_ids_def fun_eq_iff)

definition sample_request :: "nat \<Rightarrow> f32 insert_request" where
  "sample_request e = \<lparr>ir_external_id = ''a'', ir_vector = sample_vec 2, ir_metadata = ''m'', ir_epoch = e\<rparr>"

lemma sample_request_fields:
  "ir_external_id (sample_request e) = ''a''" "ir_vector (sample_request e) = sample_vec 2"
  "length (ir_vector (sample_request e)) = VECTOR_DIM" "ir_epoch (sample_request e) = e" "current_epoch (empty_shard c) = c"
  by (simp_all add: sample_request_def sample_vec_def empty_shard_def)

section \<open>Properties\<close>

text \<open>
  C15: a shard behaves as a map from external ids to vectors with an epoch.  An \<open>Insert\<close> of the
  right dimension and no older epoch answers ok and stores the vector under its id and nothing
  else; a \<open>Delete\<close> of no older epoch removes exactly its id and answers ok if the id was ever
  inserted, also if it is deleted already, and an error otherwise; requests of an older epoch
  are answered with an error and change nothing; \<open>GetVector\<close> returns what is stored, or an error
  for an id that is not there; \<open>ListLocalIds\<close> lists the stored ids once each.
\<close>

theorem shard_refines_map:
  assumes "service_ok s"
  shows "(insert_fits draws (ir_external_id req) s \<and> length (ir_vector req) = VECTOR_DIM \<and> current_epoch s \<le> ir_epoch req \<longrightarrow>
      (\<exists>s'. shard_insert os_ok draws (length (encode_id (ir_external_id req))) req s
          = Returns (Some \<lparr>ack_ok = True, ack_error = ''''\<rparr>, s') \<and> service_ok s' \<and>
        view s' = (view s)(ir_external_id req \<mapsto> ir_vector req) \<and> current_epoch s' = ir_epoch req)) \<and>
    (length (ir_vector req) \<noteq> VECTOR_DIM \<or> ir_epoch req < current_epoch s \<longrightarrow>
      (\<exists>e. shard_insert os_ok draws (length (encode_id (ir_external_id req))) req s = Returns (Some \<lparr>ack_ok = False, ack_error = e\<rparr>, s))) \<and>
    (current_epoch s \<le> dr_epoch del \<longrightarrow>
      (\<exists>s'. shard_delete del s = Returns
           (if dr_external_id del \<in> set (list_all_external_ids (fst (sv_ids s)))
            then \<lparr>ack_ok = True, ack_error = ''''\<rparr> else \<lparr>ack_ok = False, ack_error = not_found\<rparr>, s') \<and>
         service_ok s' \<and> view s' = (view s)(dr_external_id del := None) \<and> current_epoch s' = dr_epoch del)) \<and>
    (dr_epoch del < current_epoch s \<longrightarrow> (\<exists>e. shard_delete del s = Returns (\<lparr>ack_ok = False, ack_error = e\<rparr>, s))) \<and>
    (\<exists>r. get_vector x s = Returns r \<and> (if vr_ok r then view s x = Some (vr_vector r) else view s x = None)) \<and>
    (\<exists>ys. list_local_ids s = Returns ys \<and> distinct ys \<and> set ys = dom (view s))"
proof (intro conjI impI; (elim conjE)?)
  show "\<exists>e. shard_delete del s = Returns (\<lparr>ack_ok = False, ack_error = e\<rparr>, s)" if "dr_epoch del < current_epoch s"
    using that by (auto simp: shard_delete_def check_and_advance_epoch_def Let_def)
  show "\<exists>e. shard_insert os_ok draws (length (encode_id (ir_external_id req))) req s = Returns (Some \<lparr>ack_ok = False, ack_error = e\<rparr>, s)"
    if "length (ir_vector req) \<noteq> VECTOR_DIM \<or> ir_epoch req < current_epoch s"
    using that by (auto simp: shard_insert_def check_and_advance_epoch_def Let_def)
qed (use shard_insert_ok [OF assms, of draws req] shard_delete_ok [OF assms, of del] get_vector_ok [OF assms, of x]
    list_local_ids_ok [OF assms] in \<open>blast+\<close>)

theorem shard_refines_map_witness:
  "service_ok (empty_shard 0) \<and>
   (\<exists>s'. shard_insert os_ok [1 / 2] (length (encode_id ''a'')) (sample_request 3) (empty_shard 0)
       = Returns (Some \<lparr>ack_ok = True, ack_error = ''''\<rparr>, s') \<and> view s' = [''a'' \<mapsto> sample_vec 2]) \<and>
   (\<exists>s'. shard_delete \<lparr>dr_external_id = ''b'', dr_epoch = 1\<rparr> (empty_shard 0) = Returns (\<lparr>ack_ok = False, ack_error = not_found\<rparr>, s') \<and>
      current_epoch s' = 1)"
proof -
  have "insert_fits [1 / 2] ''a'' (empty_shard 0)" by (rule empty_shard_fits) simp
  moreover have "length (sample_vec 2) = VECTOR_DIM" "(0 :: nat) \<le> 3" by (simp_all add: sample_vec_def)
  ultimately have "\<exists>s'. shard_insert os_ok [1 / 2] (length (encode_id ''a'')) (sample_request 3) (empty_shard 0)
       = Returns (Some \<lparr>ack_ok = True, ack_error = ''''\<rparr>, s') \<and> view s' = [''a'' \<mapsto> sample_vec 2]"
    using shard_refines_map [OF empty_shard_ok, of "[1 / 2]" "sample_request 3" 0]
    unfolding sample_request_fields empty_shard_view by blast
  moreover have "\<exists>s'. shard_delete \<lparr>dr_external_id = ''b'', dr_epoch = 1\<rparr> (empty_shard 0)
      = Returns (\<lparr>ack_ok = False, ack_error = not_found\<rparr>, s') \<and> current_epoch s' = 1"
  proof -
    let ?del = "\<lparr>dr_external_id = ''b'', dr_epoch = 1\<rparr>"
    have h: "dr_external_id ?del \<notin> set (list_all_external_ids (fst (sv_ids (empty_shard 0))))" "current_epoch (empty_shard 0) \<le> dr_epoch ?del"
      "dr_epoch ?del = 1"
      by (simp_all add: empty_shard_def list_all_external_ids_def new_ids_def)
    from shard_refines_map [OF empty_shard_ok, THEN conjunct2, THEN conjunct2, THEN conjunct1, rule_format, where del = ?del, OF h(2)]
    show ?thesis unfolding if_not_P [OF h(1)] h(3) by blast
  qed
  ultimately show ?thesis using empty_shard_ok by blast
qed

text \<open>
  A write with an epoch below what the shard has seen is refused and changes nothing, and no
  write, whatever its outcome, lowers the epoch: afterwards it is the larger of the two.
\<close>

lemma stale_epoch_refused:
  shows "(length (ir_vector req) = VECTOR_DIM \<and> ir_epoch req < current_epoch s \<longrightarrow>
       (\<exists>e. shard_insert os draws k req s = Returns (Some \<lparr>ack_ok = False, ack_error = e\<rparr>, s))) \<and>
     (dr_epoch del < current_epoch s \<longrightarrow> (\<exists>e. shard_delete del s = Returns (\<lparr>ack_ok = False, ack_error = e\<rparr>, s))) \<and>
     (length (ir_vector req) = VECTOR_DIM \<longrightarrow> shard_insert os draws k req s = Returns (r, s') \<longrightarrow>
        current_epoch s' = max (current_epoch s) (ir_epoch req)) \<and>
     (shard_delete del s = Returns (d, s'') \<longrightarrow> current_epoch s'' = max (current_epoch s) (dr_epoch del))"
  by (auto simp: shard_insert_def shard_delete_def check_and_advance_epoch_def Let_def max_def
      split: prod.splits option.splits if_splits)

text \<open>Requests that take no step do not matter.\<close>

lemma epoch_frame:
  assumes "set js \<subseteq> {..<length ps}"
  shows "fold epoch_step js (cur, ps @ qs) = (case fold epoch_step js (cur, ps) of (c, ps') \<Rightarrow> (c, ps' @ qs))"
  using assms
proof (induction js arbitrary: cur ps)
  case (Cons j js)
  then have j: "j < length ps" by simp
  obtain c ps' where s: "epoch_step j (cur, ps) = (c, ps')" by fastforce
  then have "epoch_step j (cur, ps @ qs) = (c, ps' @ qs)" "length ps' = length ps"
    using j by (auto simp: epoch_step_def nth_append list_update_append split: epoch_phase.splits if_splits)
  with Cons s show ?case by simp
qed simp

text \<open>Every request loads the same epoch; then they store, in any order.\<close>

lemma epoch_loads:
  "k \<le> length es \<Longrightarrow> fold epoch_step [0..<k] (cur, map Arrived es) =
    (cur, map (\<lambda>e. Loaded e cur) (take k es) @ map Arrived (drop k es))"
proof (induction k)
  case (Suc k)
  then have "drop k es = es ! k # drop (Suc k) es" by (simp add: Cons_nth_drop_Suc)
  with Suc show ?case by (simp add: epoch_step_def nth_append list_update_append take_Suc_conv_app_nth)
qed simp

definition storing :: "nat \<Rightarrow> nat list \<Rightarrow> nat list \<Rightarrow> epoch_phase list" where
  "storing cur es done_ones = map (\<lambda>i. if i \<in> set done_ones then Accepted (es ! i) else Loaded (es ! i) cur) [0..<length es]"

lemma epoch_stores:
  assumes "\<forall>e \<in> set es. cur < e" and "distinct os" and "set os \<subseteq> {..<length es}"
  shows "fold epoch_step os (cur, storing cur es []) = (if os = [] then cur else es ! last os, storing cur es os)"
  using assms(2,3)
proof (induction os rule: rev_induct)
  case (snoc i os)
  then have i: "i < length es" "i \<notin> set os" by auto
  then have "es ! i \<in> set es" by simp
  then have gt: "cur < es ! i" using assms(1) by blast
  have "storing cur es os ! i = Loaded (es ! i) cur" using i by (simp add: storing_def)
  moreover have "(storing cur es os)[i := Accepted (es ! i)] = storing cur es (os @ [i])"
    using i by (intro nth_equalityI) (auto simp: storing_def nth_list_update)
  ultimately show ?case using snoc gt by (simp add: epoch_step_def)
qed simp

text \<open>
  C27: the fence leaks under concurrency.  If any number of requests with epochs above the
  shard's all load it before one of them stores, all are accepted, and the epoch takes their
  values in the order of the stores: it goes back whenever a newer epoch stores before an older
  one.  A further request is then accepted as soon as its epoch is not below that of the last
  to store, however new the others were.
\<close>

theorem epoch_race_goes_back:
  assumes "\<forall>e \<in> set es. cur < e" and "distinct order" and "set order = {..<length es}"
  defines "loads \<equiv> [0..<length es]"
  shows "(\<forall>m < length order. fst (fold epoch_step (loads @ take (Suc m) order) (cur, map Arrived es)) = es ! (order ! m)) \<and>
    snd (fold epoch_step (loads @ order) (cur, map Arrived es)) = map Accepted es \<and>
    (order \<noteq> [] \<and> es ! last order \<le> late \<longrightarrow>
      fold epoch_step (loads @ order @ [length es, length es]) (cur, map Arrived (es @ [late])) = (late, map Accepted (es @ [late])))"
proof -
  have "map (\<lambda>e. Loaded e cur) es = storing cur es []" by (intro nth_equalityI) (simp_all add: storing_def)
  then have loaded: "fold epoch_step loads (cur, map Arrived es) = (cur, storing cur es [])"
    using epoch_loads [of "length es" es cur] by (simp add: loads_def)
  have each: "fst (fold epoch_step (loads @ take (Suc m) order) (cur, map Arrived es)) = es ! (order ! m)" if "m < length order" for m
  proof -
    have "set (take (Suc m) order) \<subseteq> {..<length es}" using assms(3) by (auto dest: in_set_takeD)
    from epoch_stores [OF assms(1) distinct_take [OF assms(2)] this]
    have "fst (fold epoch_step (take (Suc m) order) (cur, storing cur es [])) = es ! last (take (Suc m) order)"
      using that by auto
    moreover have "last (take (Suc m) order) = order ! m" using that by (simp add: take_Suc_conv_app_nth)
    ultimately show ?thesis using loaded by simp
  qed
  have all: "storing cur es order = map Accepted es"
    using assms(3) by (intro nth_equalityI) (auto simp: storing_def)
  have run: "fold epoch_step (loads @ order) (cur, map Arrived es) = (if order = [] then cur else es ! last order, map Accepted es)"
    using epoch_stores [OF assms(1,2)] assms(3) loaded all by simp
  have "fold epoch_step (loads @ order @ [length es, length es]) (cur, map Arrived (es @ [late])) = (late, map Accepted (es @ [late]))"
    if "order \<noteq> []" "es ! last order \<le> late"
  proof -
    have "set (loads @ order) \<subseteq> {..<length es}" by (simp add: loads_def assms(3) atLeast0LessThan)
    then have "fold epoch_step (loads @ order) (cur, map Arrived es @ [Arrived late]) = (es ! last order, map Accepted es @ [Arrived late])"
      using epoch_frame [of "loads @ order" "map Arrived es" cur "[Arrived late]"] run that(1) by simp
    moreover have "epoch_step (length es) (epoch_step (length es) (c, map Accepted es @ [Arrived late])) = (late, map Accepted es @ [Accepted late])"
      if "c \<le> late" for c
      using nth_append_length [of "map Accepted es"] list_update_length [of "map Accepted es"] that by (simp add: epoch_step_def)
    ultimately show ?thesis using that(2) by simp
  qed
  with each run show ?thesis by simp
qed

theorem epoch_race_goes_back_witness:
  "fst (fold epoch_step [0, 1, 1] (0, [Arrived 1, Arrived 2])) = 2 \<and>
   fold epoch_step [0, 1, 1, 0, 2, 2] (0, [Arrived 1, Arrived 2, Arrived 1]) = (1, [Accepted 1, Accepted 2, Accepted 1])"
proof -
  have h: "[0..<length [1, 2 :: nat]] = [0, 1]" "set [1, 0] = {..<length [1, 2 :: nat]}" "length [1, 2 :: nat] = 2"
    "\<forall>e \<in> set [1, 2 :: nat]. 0 < e" "distinct [1, 0 :: nat]"
    by (auto simp: upt_rec)
  note race = epoch_race_goes_back [OF h(4,5,2), of 1, unfolded h(1,3)]
  from race [THEN conjunct1, rule_format, of 0] race [THEN conjunct2, THEN conjunct2, rule_format]
  show ?thesis by (simp add: upt_rec)
qed

lemma lookup_reverse:
  assumes "ids_ok sd" and "i < length (reverse (fst sd))"
  shows "lookup (reverse_lookup i (fst sd)) (fst sd) = Some i"
  using assms by (simp add: lookup_iff reverse_lookup_def)

lemma reverse_lookup_inj:
  assumes "ids_ok sd"
  shows "inj_on (\<lambda>i. reverse_lookup i (fst sd)) {..<length (reverse (fst sd))}"
  by (rule inj_onI) (metis assms lessThan_iff lookup_reverse option.inject)

text \<open>
  \<open>Search\<close> with a vector of the right dimension answers with at most \<open>k\<close> hits, nearest
  first, each for a different id the shard holds, with the distance of the vector stored
  under that id.
\<close>

lemma shard_search_sound:
  assumes "service_ok s" and "length vec = VECTOR_DIM" and "no_NaN {..<known s} (sv_index s) vec" and "0 \<le> k"
  shows "\<exists>r. shard_search vec k s = Returns r \<and> sp_ok r \<and> length (sp_results r) \<le> nat k \<and>
    distinct (map sr_external_id (sp_results r)) \<and>
    sorted_wrt (\<lambda>a b. \<not> sr_distance b < sr_distance a) (sp_results r) \<and>
    (\<forall>hit \<in> set (sp_results r). \<exists>v. view s (sr_external_id hit) = Some v \<and>
       sr_distance hit = compute_distance vec v VECTOR_DIM (metric (sv_index s)))"
proof -
  note sp = service_parts [OF assms(1)]
  obtain rs where rs: "search vec k (sv_index s) = Returns rs" "closer_first rs" "distinct (map r_id rs)" "length rs \<le> nat k"
    "\<forall>r \<in> set rs. r_id r \<in> {..<known s} \<and> \<not> is_deleted (nodes (sv_index s) (r_id r)) \<and>
       r_distance r = D (sv_index s) vec (r_id r)"
    using search_found [OF sp(2) _ assms(3,4)] assms(2) by (metis order_refl)
  define out where "out = map (\<lambda>r. \<lparr>sr_external_id = reverse_lookup (r_id r) (fst (sv_ids s)),
    sr_distance = r_distance r, sr_metadata = r_metadata r\<rparr>) rs"
  have "distinct (map (\<lambda>i. reverse_lookup i (fst (sv_ids s))) (map r_id rs))"
    using rs(3,5) inj_on_subset [OF reverse_lookup_inj [OF sp(1)], of "set (map r_id rs)"]
    by (subst distinct_map) auto
  then have "distinct (map sr_external_id out)" by (simp add: out_def comp_def)
  moreover have "sorted_wrt (\<lambda>a b. \<not> sr_distance b < sr_distance a) out"
    using rs(2) by (simp add: out_def closer_first_def sorted_wrt_map)
  moreover have "\<exists>v. view s (sr_external_id hit) = Some v \<and>
      sr_distance hit = compute_distance vec v VECTOR_DIM (metric (sv_index s))" if hit: "hit \<in> set out" for hit
    using hit rs(5) lookup_reverse [OF sp(1)] by (auto simp: out_def view_def)
  moreover have "shard_search vec k s = Returns \<lparr>sp_results = out, sp_ok = True, sp_error = ''''\<rparr>"
    using rs(1) assms(2) by (simp add: shard_search_def out_def)
  moreover have "length out \<le> nat k" using rs(4) by (simp add: out_def)
  ultimately show ?thesis by auto
qed

text \<open>On a small connected index the answer is exact: what is left out is no nearer, and the answer is full then.\<close>

lemma shard_search_exact:
  assumes "service_ok s" and "length vec = VECTOR_DIM" and "no_NaN {..<known s} (sv_index s) vec" and "0 \<le> k"
    and "known s < 100" and "connected {..<known s} (sv_index s)"
    and "shard_search vec k s = Returns r" and "view s x = Some v" and "x \<notin> sr_external_id ` set (sp_results r)"
  shows "length (sp_results r) = nat k \<and>
    (\<forall>hit \<in> set (sp_results r). \<not> compute_distance vec v VECTOR_DIM (metric (sv_index s)) < sr_distance hit)"
proof -
  let ?h = "sv_index s" and ?S = "{..<known s}"
  note sp = service_parts [OF assms(1)]
  have small: "finite ?S" "card ?S < 100" using assms(5) by simp_all
  from search_exact [OF sp(2) _ assms(3,4) small assms(6)] assms(2)
  obtain rs where rs: "search vec k ?h = Returns rs" "length rs = min (nat k) (card (live ?S ?h))"
    "\<forall>i \<in> live ?S ?h. i \<notin> r_id ` set rs \<longrightarrow> (\<forall>r \<in> set rs. \<not> D ?h vec i < r_distance r)" by auto
  from search_found [OF sp(2) _ assms(3,4)] assms(2) rs(1)
  have found: "distinct (map r_id rs)" "r_id ` set rs \<subseteq> live ?S ?h" by (auto simp: live_def)
  have r: "sp_results r = map (\<lambda>r. \<lparr>sr_external_id = reverse_lookup (r_id r) (fst (sv_ids s)),
      sr_distance = r_distance r, sr_metadata = r_metadata r\<rparr>) rs"
    using assms(2,7) rs(1) by (auto simp: shard_search_def)
  obtain i where i: "lookup x (fst (sv_ids s)) = Some i" "\<not> is_deleted (nodes ?h i)" "v = nd_vector (nodes ?h i)"
    using assms(8) by (auto simp: view_def split: option.splits if_splits)
  then have x: "i \<in> ?S" "reverse_lookup i (fst (sv_ids s)) = x"
    using lookup_iff [OF sp(1)] by (auto simp: reverse_lookup_def)
  then have left: "i \<in> live ?S ?h" "i \<notin> r_id ` set rs" using i(2) assms(9) by (auto simp: live_def r image_image)
  then have "r_id ` set rs \<subset> live ?S ?h" using found(2) by blast
  moreover have "finite (live ?S ?h)" by (simp add: live_def)
  ultimately have "card (r_id ` set rs) < card (live ?S ?h)" by (rule psubset_card_mono [rotated])
  then have "length rs < card (live ?S ?h)" using distinct_card [OF found(1)] by simp
  then have "length rs = nat k" using rs(2) by linarith
  with rs(3) left i(3) show ?thesis by (auto simp: r)
qed

text \<open>
  A shard that stops between writing the id of a new vector and writing its node serves, after
  it is back, a vector of zeros under that id: the id is listed and \<open>GetVector\<close> says ok.
\<close>

lemma half_insert_serves_zeros:
  assumes "service_ok s" and "insert_fits draws x s" and "lookup x (fst (sv_ids s)) = None"
    and "nodes (sv_index s) (known s) = zero_node" and "node_end (known s) \<le> get_size (sv_index s)"
  shows "\<exists>r ys. let s' = s\<lparr>sv_ids := snd (assign_whole x (sv_ids s))\<rparr> in
     get_vector x s' = Returns r \<and> vr_ok r \<and> vr_vector r = replicate VECTOR_DIM (Fin 0) \<and>
     live_ids s' [x] = Returns ys \<and> ys = [x]"
proof -
  note sp = service_parts [OF assms(1)]
  obtain ids' where a: "assign_whole x (sv_ids s) = ((known s, True), ids')"
    using assign_new [OF assms(3), of "length (encode_id x)"] insert_fits_ids [OF assms(2)] by auto
  then have l: "lookup x (fst ids') = Some (known s)"
    using assign_find [OF sp(1) conjunct1 [OF insert_fits_ids [OF assms(2)]], of x] by simp
  have "get_node (sv_index s) (known s) = Returns zero_node"
    using assms(4,5) sp(3) by (simp add: get_node_Returns storage_simps nodes_ok_def)
  moreover have "VECTOR_DIM \<noteq> 0" by (simp add: VECTOR_DIM_def)
  ultimately show ?thesis
    using a l assms(5) by (simp add: Let_def get_vector_def get_vector_data_def node_deleted_def zero_node_def)
qed

end
