(* ===== verification/Cluster_Data.thy ===== *)
theory Cluster_Data
  imports Shard_Service
begin

text \<open>
  The data path across processes: the quorum write of a coordinator
  (\<^verbatim>\<open>cluster/coordinator_main.cpp\<close>) against the shard services
  (\<^verbatim>\<open>cluster/shard_service_impl.hpp\<close>) that answer its calls.  A call may not arrive, or be
  carried out while its answer is lost.
\<close>

section \<open>What the coordinator relies on\<close>

text \<open>
  The contract of a replica towards the coordinators: an acknowledged write is stored, and it
  was not older than what the replica had seen; afterwards the replica has seen it.
\<close>

locale fenced_store =
  fixes store_ok :: "'s \<Rightarrow> bool" and fits :: "'q \<Rightarrow> 's \<Rightarrow> bool" and stored_at :: "'s \<Rightarrow> 'k \<Rightarrow> 'v option"
    and epoch_seen :: "'s \<Rightarrow> nat" and put :: "'q \<Rightarrow> 's \<Rightarrow> (bool option \<times> 's) outcome"
    and key_of :: "'q \<Rightarrow> 'k" and value_of :: "'q \<Rightarrow> 'v" and epoch_of :: "'q \<Rightarrow> nat"
  assumes acked_epoch: "put q s = Returns (Some True, s') \<Longrightarrow> epoch_seen s \<le> epoch_of q \<and> epoch_seen s' = epoch_of q"
    and acked_stored: "put q s = Returns (Some True, s') \<Longrightarrow> store_ok s \<Longrightarrow> fits q s \<Longrightarrow> stored_at s' (key_of q) = Some (value_of q)"
begin

text \<open>A set of replicas that acknowledged a write shares nobody with one that acknowledged an older write later.\<close>

lemma fenced:
  assumes "\<And>i. i \<in> A \<Longrightarrow> put (q i) (s i) = Returns (Some True, s' i)"
    and "\<And>i. i \<in> B \<Longrightarrow> put (p i) (t i) = Returns (Some True, t' i)"
    and "\<And>i. i \<in> A \<Longrightarrow> epoch_seen (s' i) \<le> epoch_seen (t i)" and "\<And>i. i \<in> A \<Longrightarrow> epoch_of (p i) < epoch_of (q i)"
  shows "A \<inter> B = {}"
proof (rule equals0I)
  fix i assume i: "i \<in> A \<inter> B"
  then have "epoch_seen (s' i) = epoch_of (q i)" "epoch_seen (t i) \<le> epoch_of (p i)"
    using acked_epoch assms(1,2) by blast+
  with assms(3,4) i show False by fastforce
qed

lemma stored_everywhere:
  assumes "\<And>i. i \<in> A \<Longrightarrow> put (q i) (s i) = Returns (Some True, s' i)"
    and "\<And>i. i \<in> A \<Longrightarrow> store_ok (s i) \<and> fits (q i) (s i) \<and> key_of (q i) = k \<and> value_of (q i) = v"
  shows "A \<subseteq> {i. stored_at (s' i) k = Some v}"
  using assms acked_stored by blast

end

section \<open>Calls to replicas\<close>

datatype delivery = NotDelivered | ReplyLost | Delivered

text \<open>One \<open>Insert\<close> call: what the coordinator sees of it and the replica afterwards.\<close>

definition replica_insert ::
  "rat list \<Rightarrow> delivery \<Rightarrow> f32 insert_request \<Rightarrow> shard_service \<Rightarrow> (bool option \<times> shard_service) outcome" where
  "replica_insert draws dl req s =
     (if dl = NotDelivered then Returns (None, s)
      else bind_outcome (shard_insert os_ok draws (length (encode_id (ir_external_id req))) req s) (\<lambda>(r, s').
             Returns (if dl = Delivered then map_option ack_ok r else None, s')))"

record replica_group =
  services :: "shard_service list"
  draws_of :: "nat \<Rightarrow> rat list"
  delivery_of :: "nat \<Rightarrow> delivery"

definition group_rpc :: "replica_group \<Rightarrow> nat \<Rightarrow> shard_client \<Rightarrow> f32 insert_request \<Rightarrow> bool option" where
  "group_rpc g i sc req =
     (case replica_insert (draws_of g i) (delivery_of g i) req (services g ! i) of Undefined \<Rightarrow> None | Returns (a, s) \<Rightarrow> a)"

definition request_for :: "string \<Rightarrow> f32 list \<Rightarrow> string \<Rightarrow> shard_client \<Rightarrow> f32 insert_request" where
  "request_for key vec md sc = \<lparr>ir_external_id = key, ir_vector = vec, ir_metadata = md, ir_epoch = epoch sc\<rparr>"

text \<open>The replicas after the write, each having carried out its call or not.\<close>

definition group_after :: "replica_group \<Rightarrow> shard_client list \<Rightarrow> string \<Rightarrow> f32 list \<Rightarrow> string \<Rightarrow> shard_service list" where
  "group_after g replicas key vec md =
     map (\<lambda>(i, sc). case replica_insert (draws_of g i) (delivery_of g i) (request_for key vec md sc) (services g ! i) of
                       Undefined \<Rightarrow> services g ! i | Returns (a, s) \<Rightarrow> s) (enumerate 0 replicas)"

definition group_write :: "replica_group \<Rightarrow> shard_client list \<Rightarrow> string \<Rightarrow> f32 list \<Rightarrow> string \<Rightarrow> quorum_result \<times> shard_service list" where
  "group_write g replicas key vec md = (quorum_insert (group_rpc g) replicas key vec md, group_after g replicas key vec md)"

section \<open>One replica\<close>

lemma shard_insert_epoch:
  assumes "shard_insert os draws k req s = Returns (Some a, s')" and "ack_ok a"
  shows "length (ir_vector req) = VECTOR_DIM" "current_epoch s \<le> ir_epoch req" "current_epoch s' = ir_epoch req"
  using assms
  by (auto simp: shard_insert_def check_and_advance_epoch_def Let_def split: prod.splits option.splits if_splits)

lemma replica_insert_acked:
  assumes "replica_insert draws dl req s = Returns (Some True, s')"
  shows "length (ir_vector req) = VECTOR_DIM" "current_epoch s \<le> ir_epoch req" "current_epoch s' = ir_epoch req"
    "\<exists>a. shard_insert os_ok draws (length (encode_id (ir_external_id req))) req s = Returns (Some a, s')"
proof -
  obtain a where "shard_insert os_ok draws (length (encode_id (ir_external_id req))) req s = Returns (Some a, s')" "ack_ok a"
    using assms by (auto simp: replica_insert_def split: if_splits)
  with shard_insert_epoch [OF this] show "length (ir_vector req) = VECTOR_DIM" "current_epoch s \<le> ir_epoch req"
    "current_epoch s' = ir_epoch req" "\<exists>a. shard_insert os_ok draws (length (encode_id (ir_external_id req))) req s = Returns (Some a, s')"
    by blast+
qed

lemma replica_insert_stored:
  assumes "replica_insert draws dl req s = Returns (Some True, s')" and "service_ok s"
    and "insert_fits draws (ir_external_id req) s"
  shows "view s' (ir_external_id req) = Some (ir_vector req)"
  using shard_insert_ok [OF assms(2,3) replica_insert_acked(1,2) [OF assms(1)]] replica_insert_acked(4) [OF assms(1)] by auto

text \<open>The shard service behind the network is such a replica.\<close>

interpretation fs: fenced_store service_ok "\<lambda>(draws, dl, req) s. insert_fits draws (ir_external_id req) s" view current_epoch
  "\<lambda>(draws, dl, req). replica_insert draws dl req" "\<lambda>(draws, dl, req). ir_external_id req" "\<lambda>(draws, dl, req). ir_vector req"
  "\<lambda>(draws, dl, req). ir_epoch req"
proof
  fix q :: "rat list \<times> delivery \<times> f32 insert_request" and s s'
  obtain draws dl req where q: "q = (draws, dl, req)" by (cases q)
  assume w: "(case q of (draws, dl, req) \<Rightarrow> replica_insert draws dl req) s = Returns (Some True, s')"
  then have w': "replica_insert draws dl req s = Returns (Some True, s')" by (simp add: q)
  show "current_epoch s \<le> (case q of (draws, dl, req) \<Rightarrow> ir_epoch req) \<and> current_epoch s' = (case q of (draws, dl, req) \<Rightarrow> ir_epoch req)"
    using replica_insert_acked(2,3) [OF w'] by (simp add: q)
  assume "service_ok s" and "(case q of (draws, dl, req) \<Rightarrow> \<lambda>s. insert_fits draws (ir_external_id req) s) s"
  then show "view s' (case q of (draws, dl, req) \<Rightarrow> ir_external_id req) = Some (case q of (draws, dl, req) \<Rightarrow> ir_vector req)"
    using replica_insert_stored [OF w'] by (simp add: q)
qed

section \<open>The acknowledgements of a write\<close>

definition acked :: "replica_group \<Rightarrow> shard_client list \<Rightarrow> string \<Rightarrow> f32 list \<Rightarrow> string \<Rightarrow> nat set" where
  "acked g replicas key vec md =
     {i. i < length replicas \<and> group_rpc g i (replicas ! i) (request_for key vec md (replicas ! i)) = Some True}"

lemma write_majority:
  assumes "qr_ok (fst (group_write g replicas key vec md))"
  shows "majority_of {..<length replicas} (acked g replicas key vec md)"
    and "\<exists>i. primary_idx replicas = Some i \<and> i \<in> acked g replicas key vec md"
proof -
  let ?ok = "\<lambda>(i, sc). group_rpc g i sc \<lparr>ir_external_id = key, ir_vector = vec, ir_metadata = md, ir_epoch = epoch sc\<rparr> = Some True"
  define oks where "oks = map ?ok (enumerate 0 replicas)"
  have len: "length oks = length replicas" by (simp add: oks_def)
  have nth: "oks ! i \<longleftrightarrow> i \<in> acked g replicas key vec md" if "i < length replicas" for i
    using that by (simp add: oks_def nth_enumerate_eq acked_def request_for_def)
  then have "{i. i < length replicas \<and> oks ! i} = acked g replicas key vec md" by (auto simp: acked_def)
  moreover have "qr_ok (quorum_outcome replicas oks)" using assms by (simp add: group_write_def quorum_insert_def oks_def)
  ultimately show "majority_of {..<length replicas} (acked g replicas key vec md)"
    "\<exists>i. primary_idx replicas = Some i \<and> i \<in> acked g replicas key vec md"
    using quorum_outcome_iff [OF len] nth primary_idx_SomeD by auto
qed

lemma acked_replica:
  assumes "i \<in> acked g replicas key vec md"
  shows "replica_insert (draws_of g i) (delivery_of g i) (request_for key vec md (replicas ! i)) (services g ! i)
    = Returns (Some True, group_after g replicas key vec md ! i)"
proof -
  have i: "i < length replicas" "group_rpc g i (replicas ! i) (request_for key vec md (replicas ! i)) = Some True"
    using assms by (auto simp: acked_def)
  then obtain s where "replica_insert (draws_of g i) (delivery_of g i) (request_for key vec md (replicas ! i)) (services g ! i)
      = Returns (Some True, s)"
    by (auto simp: group_rpc_def split: outcome.splits prod.splits)
  with i(1) show ?thesis by (simp add: group_after_def nth_enumerate_eq)
qed

text \<open>What is acknowledged is stored, at the primary and at a majority.\<close>

lemma write_stored:
  assumes "\<forall>i < length replicas. service_ok (services g ! i) \<and> insert_fits (draws_of g i) key (services g ! i)"
    and "qr_ok (quorum_insert (group_rpc g) replicas key vec md)"
  defines "ss \<equiv> group_after g replicas key vec md"
  shows "(\<exists>i. primary_idx replicas = Some i \<and> view (ss ! i) key = Some vec) \<and>
    majority_of {..<length replicas} {i. i < length replicas \<and> view (ss ! i) key = Some vec}"
proof -
  have ok: "qr_ok (fst (group_write g replicas key vec md))" using assms(2) by (simp add: group_write_def)
  have "acked g replicas key vec md \<subseteq> {i. view (ss ! i) key = Some vec}"
    by (rule fs.stored_everywhere [where q = "\<lambda>i. (draws_of g i, delivery_of g i, request_for key vec md (replicas ! i))" and s = "\<lambda>i. services g ! i"])
       (use acked_replica [of _ g replicas key vec md] assms(1) in \<open>auto simp: ss_def acked_def request_for_def\<close>)
  then have stored: "acked g replicas key vec md \<subseteq> {i. i < length replicas \<and> view (ss ! i) key = Some vec}"
    by (auto simp: acked_def)
  then have "card (acked g replicas key vec md) \<le> card {i. i < length replicas \<and> view (ss ! i) key = Some vec}"
    by (intro card_mono) simp_all
  then show ?thesis using write_majority [OF ok] stored by (auto simp: majority_of_def)
qed

text \<open>Delivered to the primary and a majority that are not ahead of the coordinator, a write succeeds.\<close>

lemma delivered_ack:
  assumes "service_ok (services g ! i)" and "insert_fits (draws_of g i) key (services g ! i)"
    and "current_epoch (services g ! i) \<le> epoch sc" and "length vec = VECTOR_DIM" and "delivery_of g i = Delivered"
  shows "group_rpc g i sc (request_for key vec md sc) = Some True"
proof -
  have "\<exists>s'. shard_insert os_ok (draws_of g i) (length (encode_id key)) (request_for key vec md sc) (services g ! i)
      = Returns (Some \<lparr>ack_ok = True, ack_error = ''''\<rparr>, s')"
    using shard_insert_ok [of "services g ! i" "draws_of g i" "request_for key vec md sc"] assms(1-4)
    by (auto simp: request_for_def)
  then show ?thesis using assms(5) by (auto simp: group_rpc_def replica_insert_def request_for_def)
qed

lemma delivered_write_ok:
  assumes "\<forall>i < length replicas. service_ok (services g ! i) \<and> insert_fits (draws_of g i) key (services g ! i) \<and>
      current_epoch (services g ! i) \<le> epoch (replicas ! i)"
    and "length vec = VECTOR_DIM" and "primary_idx replicas = Some p" and "delivery_of g p = Delivered"
    and "majority_of {..<length replicas} {i. i < length replicas \<and> delivery_of g i = Delivered}"
  shows "qr_ok (fst (group_write g replicas key vec md))"
proof -
  define oks where "oks = map (\<lambda>(i, sc). group_rpc g i sc \<lparr>ir_external_id = key, ir_vector = vec, ir_metadata = md, ir_epoch = epoch sc\<rparr> = Some True)
    (enumerate 0 replicas)"
  have ok: "oks ! i" if "i < length replicas" "delivery_of g i = Delivered" for i
    using delivered_ack [of g i key "replicas ! i" vec md] assms(1,2) that
    by (simp add: oks_def nth_enumerate_eq request_for_def)
  then have "{i. i < length replicas \<and> delivery_of g i = Delivered} \<subseteq> {i. i < length replicas \<and> oks ! i}" by blast
  then have "card {i. i < length replicas \<and> delivery_of g i = Delivered} \<le> card {i. i < length replicas \<and> oks ! i}"
    by (intro card_mono) simp_all
  then have "majority_of {..<length replicas} {i. i < length replicas \<and> oks ! i}"
    using assms(5) by (auto simp: majority_of_def)
  moreover have "oks ! p" using ok primary_idx_SomeD [OF assms(3)] assms(4) by blast
  moreover have "length oks = length replicas" by (simp add: oks_def)
  ultimately have "qr_ok (quorum_outcome replicas oks)" using quorum_outcome_iff [of oks replicas] assms(3) by simp
  then show ?thesis by (simp add: group_write_def quorum_insert_def oks_def)
qed

section \<open>A group of three\<close>

definition sample_clients :: "nat \<Rightarrow> shard_client list" where
  "sample_clients e = map (\<lambda>i. (make_shard_client 0 i ''h'' (9000 + i) (i = 0))\<lparr>epoch := e\<rparr>) [0, 1, 2]"

definition sample_group :: replica_group where
  "sample_group = \<lparr>services = replicate 3 (empty_shard 0), draws_of = (\<lambda>_. [1 / 2]),
     delivery_of = (\<lambda>i. if i = 2 then NotDelivered else Delivered)\<rparr>"

lemma sample_clients_fields:
  "length (sample_clients e) = 3" "primary_idx (sample_clients e) = Some 0" "i < 3 \<Longrightarrow> epoch (sample_clients e ! i) = e"
  by (simp_all add: sample_clients_def primary_idx_def make_shard_client_def numeral_3_eq_3 less_Suc_eq) auto

lemma sample_group_fields:
  "i < 3 \<Longrightarrow> service_ok (services sample_group ! i) \<and> insert_fits (draws_of sample_group i) ''a'' (services sample_group ! i) \<and>
     current_epoch (services sample_group ! i) = 0"
  "majority_of {..<3} {i. i < 3 \<and> delivery_of sample_group i = Delivered}"
proof -
  show "i < 3 \<Longrightarrow> service_ok (services sample_group ! i) \<and> insert_fits (draws_of sample_group i) ''a'' (services sample_group ! i) \<and>
     current_epoch (services sample_group ! i) = 0"
    using empty_shard_ok empty_shard_fits [of "''a''" 0] by (simp add: sample_group_def) (simp add: empty_shard_def)
  have "{i :: nat. i < 3 \<and> delivery_of sample_group i = Delivered} = {0, 1}" by (auto simp: sample_group_def)
  then show "majority_of {..<3} {i. i < 3 \<and> delivery_of sample_group i = Delivered}" by (simp add: majority_of_def majority_def)
qed

lemma sample_write_ok:
  "qr_ok (fst (group_write sample_group (sample_clients 1) ''a'' (sample_vec 2) ''m''))"
proof (rule delivered_write_ok [where p = 0])
  show "\<forall>i < length (sample_clients 1). service_ok (services sample_group ! i) \<and>
      insert_fits (draws_of sample_group i) ''a'' (services sample_group ! i) \<and>
      current_epoch (services sample_group ! i) \<le> epoch (sample_clients 1 ! i)"
    using sample_group_fields(1) by (simp add: sample_clients_fields)
qed (use sample_group_fields(2) in \<open>simp_all add: sample_clients_fields sample_vec_def sample_group_def\<close>)

end
