(* ===== verification/Hnsw_Frame.thy ===== *)
theory Hnsw_Frame
  imports Hnsw_Search
begin

text \<open>
  What the operations of the index leave alone: the path of the mapped file always, and the
  metadata except for one \<open>save\<close> at the end of an insertion.  Searches end, and find something
  where no vector is deleted.
\<close>

section \<open>Writes to the graph\<close>

abbreviation path_of :: "hnsw \<Rightarrow> string" where
  "path_of h \<equiv> mm_path (fst (storage h))"

definition same_files :: "hnsw \<Rightarrow> hnsw \<Rightarrow> bool" where
  "same_files h h' \<longleftrightarrow> path_of h' = path_of h \<and> metadata h' = metadata h"

lemma same_files_refl [simp]: "same_files h h"
  by (simp add: same_files_def)

lemma same_files_trans: "same_files h h1 \<Longrightarrow> same_files h1 h2 \<Longrightarrow> same_files h h2"
  by (simp add: same_files_def)

lemma bind_Returns: "bind_outcome r f = Returns y \<longleftrightarrow> (\<exists>x. r = Returns x \<and> f x = Returns y)"
  by (cases r) auto

lemma set_contents_files [simp]: "path_of (set_contents c h) = path_of h" "metadata (set_contents c h) = metadata h"
  by (cases "storage h"; simp add: set_contents_def)+

lemma set_node_at_files [simp]: "path_of (set_node_at i nd h) = path_of h" "metadata (set_node_at i nd h) = metadata h"
  by (simp_all add: set_node_at_def Let_def)

lemma persist_header_files [simp]: "path_of (persist_header h) = path_of h" "metadata (persist_header h) = metadata h"
  by (simp_all add: persist_header_def Let_def)

lemma count_and_persist_files [simp]:
  "path_of (count_and_persist h) = path_of h" "metadata (count_and_persist h) = metadata h"
  by (simp_all add: count_and_persist_def)

lemma add_link_files: "add_link src dest l h = Returns h' \<Longrightarrow> same_files h h'"
  by (auto simp: add_link_def same_files_def bind_Returns Let_def split: if_splits option.splits prod.splits)

lemma link_all_files: "link_all i l ns h = Returns h' \<Longrightarrow> same_files h h'"
  by (induction ns arbitrary: h) (auto simp: bind_Returns dest!: add_link_files intro: same_files_trans)

lemma connect_files: "connect i q ls obj h = Returns h' \<Longrightarrow> same_files h h'"
proof (induction ls arbitrary: obj h)
  case (Cons l ls)
  then show ?case by (auto simp: bind_Returns Let_def dest!: Cons.IH link_all_files intro: same_files_trans)
qed simp

section \<open>Insertion and deletion\<close>

lemma store_metadata_files:
  assumes "store_metadata i md h = Returns h'"
  shows "path_of h' = path_of h \<and> save_metadata (as_int i) md (metadata h) = Returns (metadata h')"
  using assms by (auto simp: store_metadata_def save_metadata_def bind_Returns split: if_splits)

lemma link_node_files:
  assumes "link_node i nd level md h = Returns h'"
  shows "path_of h' = path_of h \<and> save_metadata (as_int i) md (metadata h) = Returns (metadata h')"
  using assms
  by (auto simp: link_node_def bind_Returns Let_def same_files_def split: if_splits prod.splits
      dest!: store_metadata_files connect_files)

lemma expand_storage_files: "expand_storage os i h = (None, h') \<Longrightarrow> same_files h h'"
  by (auto simp: expand_storage_def same_files_def resize_mmap_def open_mmap_def close_mmap_def Let_def
      split: if_splits prod.splits option.splits mapping.splits)

lemma hnsw_insert_files:
  assumes "hnsw_insert os draws vec i md h = Returns (None, h')"
  shows "path_of h' = path_of h" "save_metadata (as_int i) md (metadata h) = Returns (metadata h')"
proof -
  obtain h1 where h1: "expand_storage os i h = (None, h1)"
    and l: "link_node i (new_node i (int (get_random_level draws)) vec) (get_random_level draws) md
      (set_node_at i (new_node i (int (get_random_level draws)) vec) h1) = Returns h'"
    using assms by (auto simp: hnsw_insert_def bind_Returns Let_def split: if_splits prod.splits option.splits)
  from link_node_files [OF l] expand_storage_files [OF h1]
  show "path_of h' = path_of h" "save_metadata (as_int i) md (metadata h) = Returns (metadata h')"
    by (simp_all add: same_files_def)
qed

lemmas hnsw_insert_path = hnsw_insert_files(1)

lemma delete_vector_path: "delete_vector i h = Returns h' \<Longrightarrow> path_of h' = path_of h"
  by (auto simp: delete_vector_def bind_Returns Let_def split: if_splits)

section \<open>A search finds something\<close>

lemma visit_links_keeps_found:
  assumes "visit_links h q ef bound ns (v, c, f) = Returns s" and "f \<noteq> []" and "0 < ef"
  shows "snd (snd s) \<noteq> []"
  using assms
proof (induction ns arbitrary: v c f)
  case (Cons n ns)
  have "tl (push_max r f) \<noteq> []" if "f \<noteq> []" for r
    using that by (cases "push_max r f") (auto dest: arg_cong [where f = length])
  moreover have "push_max r f \<noteq> []" for r by (metis length_push(2) list.size(3) nat.simps(3))
  ultimately show ?case
    using Cons.prems by (auto simp: Let_def split: outcome.splits if_splits dest!: Cons.IH)
qed auto

lemma beam_keeps_found:
  assumes "beam h q ef l bound (v, c, f) = Returns f'" and "f \<noteq> []" and "0 < ef"
  shows "f' \<noteq> []"
  using assms
proof (induction h q ef l bound "(v, c, f)" arbitrary: v c f rule: beam.induct)
  case (1 h q ef l bound v c f)
  show ?case
  proof (cases c)
    case Nil
    with "1.prems" show ?thesis by (simp add: beam.simps)
  next
    case (Cons cand rest)
    show ?thesis
    proof (cases "r_distance (hd f) < r_distance cand \<and> length f \<ge> ef")
      case True
      with Cons "1.prems" show ?thesis by (simp add: beam.simps [of h q ef l bound v])
    next
      case False
      then obtain ns v' c' f1 where s: "links_of h l (r_id cand) = Returns ns"
        "visit_links h q ef bound ns (v, rest, f) = Returns (v', c', f1)" "beam h q ef l bound (v', c', f1) = Returns f'"
        using Cons "1.prems" by (auto simp: beam.simps [of h q ef l bound v] split: outcome.splits)
      moreover have "f1 \<noteq> []" using visit_links_keeps_found [OF s(2)] "1.prems" by simp
      ultimately show ?thesis using "1.hyps" [OF Cons _ s(1,2,3)] "1.prems" False by blast
    qed
  qed
qed

lemma search_finds:
  assumes "graph_ok S h" and "S \<noteq> {}" and live: "\<forall>i \<in> S. \<not> is_deleted (nodes h i)" and "length q \<ge> VECTOR_DIM" and "0 < k"
    and "search q k h = Returns rs"
  shows "rs \<noteq> []"
proof -
  have n: "nodes_ok S h" and e: "entry_point_id h \<noteq> no_id" "entry_point_id h \<in> S" "current_max_layer h < int MAX_LAYERS"
    using assms(1,2) by (auto simp: graph_ok_def split: if_splits)
  let ?e = "entry_point_id h" and ?ef = "nat (max 100 k)"
  obtain d obj where obj: "descend h q (layers_above (current_max_layer h) 0) (D h q ?e, ?e) = Returns (d, obj)" "obj \<in> S"
    using descend_ok [OF n layers_above_bound [OF e(3), of 0], of "(D h q ?e, ?e)" q] e(2) by auto
  then obtain f out where f: "search_layer h obj q ?ef 0 = Returns f" "drain h f = Returns out"
    "rs = truncate_to k (rev out)"
    using assms(4,6) e(1) dist_to_ok [OF n e(2), of q] by (auto simp: search_def bind_Returns simp flip: truncate_to_eq)
  have "get_node h obj = Returns (nodes h obj)" using get_node_ok [OF n obj(2)] .
  with f(1) live obj(2) have "f \<noteq> []"
    by (auto simp: search_layer_def Let_def split: if_splits dest!: beam_keeps_found)
  have "0 < MAX_LAYERS" "0 < ?ef" by (simp_all add: MAX_LAYERS_def)
  then obtain v f' where "found_ok S h q ?ef (set v) f'" "set v \<subseteq> S" "search_layer h obj q ?ef 0 = Returns f'"
    using search_layer_spec [OF n obj(2), of 0 ?ef q] by blast
  with f(1) have "\<forall>r \<in> set f. r_id r \<in> S" "\<forall>r \<in> set f. \<not> is_deleted (nodes h (r_id r))" by (auto simp: found_ok_def)
  with f(2) drain_ok [OF n, of f] have "out = map (with_metadata h) f" by auto
  with \<open>f \<noteq> []\<close> assms(5) f(3) show ?thesis by (simp add: truncate_to_def)
qed

section \<open>The search loop ends\<close>

text \<open>The \<open>while\<close> loop of \<open>search_layer\<close>, stopped after a number of iterations: \<open>None\<close> if it is not over by then.\<close>

fun beam_within :: "nat \<Rightarrow> hnsw \<Rightarrow> f32 list \<Rightarrow> nat \<Rightarrow> nat \<Rightarrow> nat \<Rightarrow> beam_state \<Rightarrow> result list outcome option" where
  "beam_within n h q ef l bound (visited, [], found) = Some (Returns found)"
| "beam_within n h q ef l bound (visited, cand # rest, found) =
     (if found \<noteq> [] \<and> r_distance (hd found) < r_distance cand \<and> length found \<ge> ef then Some (Returns found)
      else case n of
        0 \<Rightarrow> None
      | Suc n \<Rightarrow> (case links_of h l (r_id cand) of
          Undefined \<Rightarrow> Some Undefined
        | Returns ns \<Rightarrow> (case visit_links h q ef bound ns (visited, rest, found) of
            Undefined \<Rightarrow> Some Undefined
          | Returns s \<Rightarrow> beam_within n h q ef l bound s)))"

lemma beam_within_enough:
  assumes "unvisited bound v + length c \<le> n"
  shows "beam_within n h q ef l bound (v, c, f) = Some (beam h q ef l bound (v, c, f))"
  using assms
proof (induction n arbitrary: v c f)
  case 0
  then show ?case by (simp add: beam.simps)
next
  case (Suc n)
  show ?case
  proof (cases c)
    case Nil
    then show ?thesis by (simp add: beam.simps)
  next
    case (Cons cand rest)
    have "beam_within n h q ef l bound s = Some (beam h q ef l bound s)"
      if "visit_links h q ef bound ns (v, rest, f) = Returns s" for ns s
      using visit_links_work [of h q ef bound ns v rest f "fst s" "fst (snd s)" "snd (snd s)"] that Suc.prems Cons
        Suc.IH [of "fst s" "fst (snd s)" "snd (snd s)"] by simp
    then show ?thesis by (simp add: Cons beam.simps [of h q ef l bound v] split: outcome.splits)
  qed
qed

section \<open>Properties\<close>

text \<open>
  C23: searches end.  On a closed graph the beam search from any node, on any layer, is over after at
  most as many iterations as its bit vector has bits (one more if the entry point lies outside
  it), however the links run in circles, and the whole search returns a list.
\<close>

theorem search_terminates:
  assumes "graph_ok S h" and "length q \<ge> VECTOR_DIM" and "e \<in> S"
  defines "start \<equiv> new_result e (D h q e)" and "bound \<equiv> visited_size e (element_count h)"
  shows "(\<exists>rs. search q k h = Returns rs) \<and>
    beam_within (if e < bound then bound else Suc bound) h q ef l bound
      ([e], [start], if is_deleted (nodes h e) then [] else [start]) = Some (search_layer h e q ef l)"
proof -
  let ?n = "if e < bound then bound else Suc bound"
  have n: "nodes_ok S h" using assms(1) by (simp add: graph_ok_def)
  have "unvisited bound [e] + length [start] \<le> ?n"
  proof (cases "e < bound")
    case True
    then have "unvisited bound [e] + 1 = unvisited bound []" using unvisited_step [of e bound "[]"] by simp
    then show ?thesis using True by (simp add: unvisited_def)
  next
    case False
    then have "{..<bound} - set [e] = {..<bound}" by auto
    then show ?thesis using False by (simp add: unvisited_def)
  qed
  moreover have "\<not> bound > VECTOR_BOOL_MAX"
    using visited_size_ok [of "element_count h" e] nodes_ok_no_id [OF n assms(3)] n by (simp add: nodes_ok_def bound_def)
  ultimately have "beam_within ?n h q ef l bound ([e], [start], if is_deleted (nodes h e) then [] else [start]) =
      Some (search_layer h e q ef l)"
    using get_node_ok [OF n assms(3)] beam_within_enough [of bound "[e]" "[start]" ?n]
    by (simp only: search_layer_def start_def bound_def [symmetric] Let_def if_False bind_outcome.simps)
  with search_returns [OF assms(1,2)] show ?thesis by blast
qed

theorem search_terminates_witness:
  "graph_ok {0, 1} two_nodes \<and> (\<exists>rs. search (sample_vec 0) 1 two_nodes = Returns rs)"
  using search_terminates [OF two_nodes_ok, of "sample_vec 0" 0 1] two_nodes_ok by (simp add: sample_vec_def)

end
