(* ===== verification/Shard_Restart.thy ===== *)
theory Shard_Restart
  imports Cluster_Data Hnsw_Frame
begin

text \<open>
  The life of a shard process (\<^verbatim>\<open>cluster/shard_node_main.cpp\<close>): it starts on whatever files its data
  directory holds, serves writes, and stops or is killed, any number of times.  Vectors and
  ids come back, because the index is a shared mapping and the id map is appended to its file;
  metadata comes back under other ids, because its file holds none; the fencing epoch does not
  come back.
\<close>

section \<open>Stopping and starting\<close>

text \<open>
  What a process that stops, or is killed between two requests, leaves behind: the shared
  mapping is in the file, and the id map and the metadata were written record by record.
  \<open>restart_shard\<close> is \<open>main\<close> on those files.
\<close>

definition stop_shard :: "string \<Rightarrow> shard_service \<Rightarrow> contents files \<times> disk" where
  "stop_shard data_dir s =
     (snd (close_mmap (storage (sv_index s))), (snd (sv_ids s))(data_dir @ ''/metadata.bin'' \<mapsto> md_bytes (metadata (sv_index s))))"

definition restart_shard :: "string \<Rightarrow> shard_service \<Rightarrow> shard_service option outcome" where
  "restart_shard data_dir s = (case stop_shard data_dir s of (fs, d) \<Rightarrow> start_shard os_ok True data_dir (sv_shard_id s) fs d)"

text \<open>The files in the data directory hold what the service serves.\<close>

definition kept_in :: "string \<Rightarrow> shard_service \<Rightarrow> bool" where
  "kept_in data_dir s \<longleftrightarrow> service_ok s \<and> header_ok (sv_index s) \<and> path_of (sv_index s) = data_dir @ ''/index.ndb'' \<and>
     ids_path (fst (sv_ids s)) = data_dir @ ''/id_map.bin''"

lemma entry_point_small:
  assumes "service_ok s"
  shows "entry_point_id (sv_index s) < 2 ^ 32"
  using service_parts(2,3) [OF assms] nodes_ok_no_id by (auto simp: graph_ok_def no_id_def split: if_splits)

lemma restart_kept:
  assumes "kept_in data_dir s"
  shows "\<exists>s'. restart_shard data_dir s = Returns (Some s') \<and> kept_in data_dir s' \<and> view s' = view s \<and> current_epoch s' = 0 \<and>
    fst (sv_ids s') = fst (sv_ids s) \<and> element_count (sv_index s') = element_count (sv_index s) \<and>
    metadata (sv_index s') = open_metadata (md_bytes (metadata (sv_index s))) new_metadata"
proof -
  let ?h = "sv_index s"
  define d where "d = (snd (sv_ids s))(data_dir @ ''/metadata.bin'' \<mapsto> md_bytes (metadata ?h))"
  define md where "md = open_metadata (md_bytes (metadata ?h)) new_metadata"
  have ok: "service_ok s" "header_ok ?h" "path_of ?h = data_dir @ ''/index.ndb''" "ids_path (fst (sv_ids s)) = data_dir @ ''/id_map.bin''"
    using assms by (simp_all add: kept_in_def)
  note sp = service_parts [OF ok(1)]
  have cnt: "u32 (element_count ?h) = element_count ?h" using ok(1) by (simp add: service_ok_def u32_def)
  from reopen_header [OF ok(2) entry_point_small [OF ok(1)], of "100 * 1024 * 1024" md L2]
  obtain st h' where st: "open_mmap os_ok zero_contents (path_of ?h) (100 * 1024 * 1024) (new_mmap, snd (close_mmap (storage ?h))) = (None, st)"
    "mm_path (fst st) = path_of ?h" "open_hnsw st md L2 = Returns h'" "header_ok h'" "path_of h' = mm_path (fst st)"
    and h': "mapped h'" "nodes h' = nodes ?h" "get_size h' = max (100 * 1024 * 1024) (get_size ?h)" "entry_point_id h' = entry_point_id ?h"
    "current_max_layer h' = current_max_layer ?h" "element_count h' = element_count ?h" "metadata h' = md"
    unfolding cnt by (elim exE conjE) (rule that; assumption)
  have "d (ids_path (fst (sv_ids s))) = snd (sv_ids s) (ids_path (fst (sv_ids s)))" by (simp add: d_def ok(4))
  then have saved: "d (ids_path (fst (sv_ids s))) = Some (concat (map encode_id (reverse (fst (sv_ids s)))) @ [])"
    using sp(1) by (simp add: ids_ok_def ids_saved_def)
  have ids: "open_ids True (data_dir @ ''/id_map.bin'') new_ids d = (fst (sv_ids s), d)"
    using open_whole [of "fst (sv_ids s)" "snd (sv_ids s)" d "[]" True] saved sp(1) ok(4) by (simp add: rebuild_short)
  define s' where "s' = \<lparr>sv_index = h', sv_ids = (fst (sv_ids s), d), sv_shard_id = sv_shard_id s, current_epoch = 0\<rparr>"
  have "restart_shard data_dir s = Returns (Some s')"
    using st(1,3) ok(3) ids by (simp add: restart_shard_def stop_shard_def start_shard_def s'_def d_def [symmetric] Let_def)
      (simp add: d_def md_def)
  moreover have "graph_ok {..<known s} h'"
    using sp(2) h' by (auto simp: graph_ok_def nodes_ok_def le_max_iff_disj)
  moreover have "ids_ok (fst (sv_ids s), d)" using sp(1) saved by (simp add: ids_ok_def ids_saved_def)
  ultimately have "restart_shard data_dir s = Returns (Some s')" "kept_in data_dir s'"
    using ok st(2,4,5) h'(2,6) by (simp_all add: kept_in_def service_ok_def s'_def live_def)
  moreover have "view s' = view s" using h'(2) by (simp add: view_def s'_def fun_eq_iff split: option.split)
  ultimately show ?thesis using h'(6,7) by (intro exI [of _ s']) (simp add: s'_def md_def)
qed

text \<open>A fresh data directory.\<close>

lemma fresh_shard_kept:
  "\<exists>s. start_shard os_ok True data_dir name Map.empty Map.empty = Returns (Some s) \<and> kept_in data_dir s \<and> view s = Map.empty \<and>
     current_epoch s = 0 \<and> reverse (fst (sv_ids s)) = [] \<and> element_count (sv_index s) = 0 \<and>
     metadata (sv_index s) = open_metadata '''' new_metadata"
proof -
  let ?c = "zero_contents" and ?p = "data_dir @ ''/index.ndb''"
  let ?st = "(\<lparr>mm_path = ?p, mm_size = 100 * 1024 * 1024, mm_data = Mapped ?c\<rparr>, [?p \<mapsto> \<lparr>f_size = 100 * 1024 * 1024, f_data = ?c\<rparr>])"
  let ?md = "open_metadata '''' new_metadata" and ?ids = "open_ids True (data_dir @ ''/id_map.bin'') new_ids Map.empty"
  obtain h where h: "open_hnsw ?st ?md L2 = Returns h" by (simp add: open_hnsw_def Let_def)
  define s where "s = \<lparr>sv_index = h, sv_ids = ?ids, sv_shard_id = name, current_epoch = 0\<rparr>"
  have "open_mmap os_ok ?c ?p (100 * 1024 * 1024) (new_mmap, Map.empty) = (None, ?st)"
    by (simp add: open_mmap_def os_ok_def new_mmap_def Let_def)
  then have start: "start_shard os_ok True data_dir name Map.empty Map.empty = Returns (Some s)"
    using h by (simp add: start_shard_def s_def Let_def)
  have ids: "reverse (fst ?ids) = []" "forward (fst ?ids) = Map.empty" "ids_path (fst ?ids) = data_dir @ ''/id_map.bin''"
    by (simp_all add: open_ids_def rebuild_short new_ids_def Let_def)
  have g: "graph_ok {} h" "header_ok h" "path_of h = ?p" "element_count h = 0" "metadata h = ?md"
    using h by (auto simp: open_hnsw_def contents_of_def zero_contents_def graph_ok_def nodes_ok_def mapped_def header_ok_def
        set_contents_def NANODB_MAGIC_def no_id_def as_int_def u32_def count_ok_small Let_def)
  then have "kept_in data_dir s"
    using ids(1,3) empty_ids_ok [of "data_dir @ ''/id_map.bin''"] by (simp add: kept_in_def service_ok_def s_def live_def)
  moreover have "view s = Map.empty" using ids(2) by (simp add: view_def s_def lookup_def fun_eq_iff)
  ultimately show ?thesis using start ids(1) g(4,5) by (simp add: s_def)
qed

section \<open>The life of a shard\<close>

datatype shard_op =
    ShardInsert "rat list" "f32 insert_request"
  | ShardDelete delete_request
  | ShardRestart

fun shard_do :: "string \<Rightarrow> shard_op \<Rightarrow> shard_service \<Rightarrow> shard_service option" where
  "shard_do data_dir (ShardInsert draws req) s =
     (case shard_insert os_ok draws (length (encode_id (ir_external_id req))) req s of
        Returns (r, s') \<Rightarrow> Some s' | Undefined \<Rightarrow> None)"
| "shard_do data_dir (ShardDelete req) s = (case shard_delete req s of Returns (r, s') \<Rightarrow> Some s' | Undefined \<Rightarrow> None)"
| "shard_do data_dir ShardRestart s = (case restart_shard data_dir s of Returns r \<Rightarrow> r | Undefined \<Rightarrow> None)"

fun shard_life :: "string \<Rightarrow> shard_op list \<Rightarrow> shard_service \<Rightarrow> shard_service option" where
  "shard_life data_dir [] s = Some s"
| "shard_life data_dir (p # ps) s = Option.bind (shard_do data_dir p s) (shard_life data_dir ps)"

text \<open>
  The specification: a map with an epoch, the names in the order of their first insertion (their
  local ids), the metadata by local id, and all metadata ever accepted, in order.  A write with
  an old epoch or a vector of the wrong length changes nothing.  A restart keeps the map and
  the names, starts again at epoch 0, and numbers the metadata by its position in the log.
\<close>

record shard_spec =
  sm_map :: "string \<rightharpoonup> f32 list"
  sm_epoch :: nat
  sm_names :: "string list"
  sm_metadata :: "nat \<Rightarrow> string"
  sm_log :: "string list"

definition new_spec :: shard_spec where
  "new_spec = \<lparr>sm_map = Map.empty, sm_epoch = 0, sm_names = [], sm_metadata = (\<lambda>_. ''''), sm_log = []\<rparr>"

definition name_id :: "string list \<Rightarrow> string \<Rightarrow> nat" where
  "name_id names x = length (takeWhile (\<lambda>y. y \<noteq> x) names)"

fun spec_do :: "shard_op \<Rightarrow> shard_spec \<Rightarrow> shard_spec" where
  "spec_do (ShardInsert draws req) m =
     (if length (ir_vector req) \<noteq> VECTOR_DIM \<or> ir_epoch req < sm_epoch m then m
      else
        let x = ir_external_id req; md = ir_metadata req;
            names = (if x \<in> set (sm_names m) then sm_names m else sm_names m @ [x])
        in \<lparr>sm_map = (sm_map m)(x \<mapsto> ir_vector req), sm_epoch = ir_epoch req, sm_names = names,
            sm_metadata = (if md = '''' then sm_metadata m else (sm_metadata m)(name_id names x := md)),
            sm_log = (if md = '''' then sm_log m else sm_log m @ [md])\<rparr>)"
| "spec_do (ShardDelete req) m =
     (if dr_epoch req < sm_epoch m then m
      else m\<lparr>sm_map := (sm_map m)(dr_external_id req := None), sm_epoch := dr_epoch req\<rparr>)"
| "spec_do ShardRestart m =
     m\<lparr>sm_epoch := 0, sm_metadata := (\<lambda>k. if k < length (sm_log m) then sm_log m ! k else '''')\<rparr>"

text \<open>What \<open>GetVector\<close> should answer.\<close>

definition spec_reply :: "shard_spec \<Rightarrow> string \<Rightarrow> vector_reply" where
  "spec_reply m x =
     (case sm_map m x of
        Some v \<Rightarrow> \<lparr>vr_ok = True, vr_vector = v, vr_metadata = sm_metadata m (name_id (sm_names m) x), vr_error = ''''\<rparr>
      | None \<Rightarrow> \<lparr>vr_ok = False, vr_vector = [], vr_metadata = '''',
                 vr_error = (if x \<in> set (sm_names m) then ''vector data unavailable (deleted or out of range)'' else not_found)\<rparr>)"

text \<open>Levels the node layout has room for, and ids and metadata that fit a record.\<close>

fun op_fits :: "shard_op \<Rightarrow> bool" where
  "op_fits (ShardInsert draws req) \<longleftrightarrow> get_random_level draws < MAX_LAYERS \<and> length (ir_external_id req) < 2 ^ 32 \<and>
     length (ir_metadata req) < 2 ^ 32"
| "op_fits _ \<longleftrightarrow> True"

section \<open>Refinement\<close>

definition metadata_as :: "metadata_store \<Rightarrow> shard_spec \<Rightarrow> bool" where
  "metadata_as md m \<longleftrightarrow> metadata_wf md \<and> md_bytes md = concat (map encode_md (sm_log m)) \<and>
     (\<forall>k. get_metadata (int k) md = sm_metadata m k) \<and> (\<forall>x \<in> set (sm_log m). length x < 2 ^ 32)"

definition serves :: "string \<Rightarrow> shard_service \<Rightarrow> shard_spec \<Rightarrow> bool" where
  "serves data_dir s m \<longleftrightarrow> kept_in data_dir s \<and> view s = sm_map m \<and> current_epoch s = sm_epoch m \<and>
     reverse (fst (sv_ids s)) = sm_names m \<and> metadata_as (metadata (sv_index s)) m"

lemma stale_insert:
  "length (ir_vector req) \<noteq> VECTOR_DIM \<or> ir_epoch req < current_epoch s \<Longrightarrow>
   \<exists>r. shard_insert os draws k req s = Returns (r, s)"
  by (auto simp: shard_insert_def check_and_advance_epoch_def Let_def)

lemma stale_delete: "dr_epoch req < current_epoch s \<Longrightarrow> \<exists>r. shard_delete req s = Returns (r, s)"
  by (auto simp: shard_delete_def check_and_advance_epoch_def Let_def)

lemma assign_path: "ids_path (fst (snd (assign k x sd))) = ids_path (fst sd)"
  by (cases sd) (auto simp: assign_def Let_def split: option.splits)

lemma length_takeWhile_all: "length (takeWhile P xs) = length xs \<Longrightarrow> takeWhile P xs = xs"
  by (metis takeWhile_eq_take take_all order_refl)

lemma assign_names:
  fixes x :: string
  assumes "ids_ok sd" and "length (reverse (fst sd)) < 2 ^ 32"
  defines "names \<equiv> (if x \<in> set (reverse (fst sd)) then reverse (fst sd) else reverse (fst sd) @ [x])"
  shows "reverse (fst (snd (assign k x sd))) = names" "fst (fst (assign k x sd)) = name_id names x"
proof -
  have first: "lookup x (fst sd) = Some i \<Longrightarrow> i = name_id (reverse (fst sd)) x" for i
  proof -
    assume "lookup x (fst sd) = Some i"
    then have i: "i < length (reverse (fst sd))" "reverse (fst sd) ! i = x" using lookup_iff [OF assms(1)] by auto
    then have "x \<in> set (reverse (fst sd))" by auto
    then have "lookup x (fst sd) = Some (name_id (reverse (fst sd)) x)"
      unfolding lookup_iff [OF assms(1)] name_id_def
      using nth_length_takeWhile [of "\<lambda>y. y \<noteq> x" "reverse (fst sd)"] length_takeWhile_le [of "\<lambda>y. y \<noteq> x" "reverse (fst sd)"]
        takeWhile_eq_all_conv [of "\<lambda>y. y \<noteq> x" "reverse (fst sd)"] length_takeWhile_all
      by (metis le_neq_implies_less)
    with \<open>lookup x (fst sd) = Some i\<close> show ?thesis by simp
  qed
  have known: "x \<in> set (reverse (fst sd)) \<longleftrightarrow> lookup x (fst sd) \<noteq> None"
    using lookup_iff [OF assms(1), of x] by (auto simp: in_set_conv_nth)
  have "reverse (fst (snd (assign k x sd))) = names \<and> fst (fst (assign k x sd)) = name_id names x"
  proof (cases "lookup x (fst sd)")
    case None
    then have new: "x \<notin> set (reverse (fst sd))" using known by simp
    then have "takeWhile (\<lambda>y. y \<noteq> x) (reverse (fst sd) @ [x]) = reverse (fst sd)" by (auto simp: takeWhile_append)
    with assign_new [OF None assms(2), of k] new show ?thesis by (auto simp: names_def name_id_def)
  next
    case (Some i)
    with assign_known [OF Some, of k] first known show ?thesis by (simp add: names_def)
  qed
  then show "reverse (fst (snd (assign k x sd))) = names" "fst (fst (assign k x sd)) = name_id names x" by blast+
qed

text \<open>An insertion that answers ok has saved the metadata under the local id.\<close>

lemma shard_insert_saves:
  assumes "shard_insert os draws k req s = Returns (Some \<lparr>ack_ok = True, ack_error = ''''\<rparr>, s')"
  shows "path_of (sv_index s') = path_of (sv_index s)"
    "save_metadata (as_int (fst (fst (assign k (ir_external_id req) (sv_ids s))))) (ir_metadata req) (metadata (sv_index s))
      = Returns (metadata (sv_index s'))"
proof -
  obtain i new ids' h' where "assign k (ir_external_id req) (sv_ids s) = ((i, new), ids')"
    "hnsw_insert os draws (ir_vector req) i (ir_metadata req) (sv_index s) = Returns (None, h')" "sv_index s' = h'"
    using assms by (auto simp: shard_insert_def check_and_advance_epoch_def Let_def bind_Returns split: prod.splits if_splits)
  with hnsw_insert_files [OF this(2)] show "path_of (sv_index s') = path_of (sv_index s)"
    "save_metadata (as_int (fst (fst (assign k (ir_external_id req) (sv_ids s))))) (ir_metadata req) (metadata (sv_index s))
      = Returns (metadata (sv_index s'))" by simp_all
qed

lemma metadata_as_save:
  assumes "metadata_as md m" and "save_metadata (int i) x md = Returns md'" and "length x < 2 ^ 32"
    and "sm_metadata m' = (if x = '''' then sm_metadata m else (sm_metadata m)(i := x))"
    and "sm_log m' = (if x = '''' then sm_log m else sm_log m @ [x])"
  shows "metadata_as md' m'"
proof (cases "x = ''''")
  case True
  then show ?thesis using assms by (simp add: metadata_as_def save_metadata_def)
next
  case False
  have wf: "metadata_wf md" using assms(1) by (simp add: metadata_as_def)
  show ?thesis
    using assms False save_metadata_wf [OF wf assms(2)] save_bytes [OF assms(2,3)] get_after_save [OF wf assms(2) False]
    by (simp add: metadata_as_def)
qed

lemma metadata_as_reopen:
  assumes "metadata_as md m"
  shows "metadata_as (open_metadata (md_bytes md) new_metadata) (spec_do ShardRestart m)"
  using assms reopen_offsets(1,3) [of "sm_log m"] reopen_by_position [of "sm_log m"] by (simp add: metadata_as_def)

lemma insert_refines:
  assumes m: "serves data_dir s m" and f: "op_fits (ShardInsert draws req)" "metadata_fits (known s)"
    and "element_count (sv_index s) + 1 < 2 ^ 32"
  shows "\<exists>s'. shard_do data_dir (ShardInsert draws req) s = Some s' \<and> serves data_dir s' (spec_do (ShardInsert draws req) m) \<and>
    known s' \<le> Suc (known s) \<and> element_count (sv_index s') \<le> Suc (element_count (sv_index s))"
proof (cases "length (ir_vector req) \<noteq> VECTOR_DIM \<or> ir_epoch req < current_epoch s")
  case True
  then obtain r where "shard_insert os_ok draws (length (encode_id (ir_external_id req))) req s = Returns (r, s)"
    using stale_insert by blast
  with True m show ?thesis by (auto simp: serves_def)
next
  case False
  let ?x = "ir_external_id req" and ?k = "length (encode_id (ir_external_id req))"
  have k: "kept_in data_dir s" using m by (simp add: serves_def)
  then have ok: "service_ok s" "header_ok (sv_index s)" "path_of (sv_index s) = data_dir @ ''/index.ndb''"
    "ids_path (fst (sv_ids s)) = data_dir @ ''/id_map.bin''" by (simp_all add: kept_in_def)
  have fits: "insert_fits draws ?x s" "length (ir_vector req) = VECTOR_DIM" "current_epoch s \<le> ir_epoch req"
    using f False assms(4) by (auto simp: insert_fits_def)
  obtain s' where s': "shard_insert os_ok draws ?k req s = Returns (Some \<lparr>ack_ok = True, ack_error = ''''\<rparr>, s')"
    "service_ok s'" "view s' = (view s)(?x \<mapsto> ir_vector req)" "current_epoch s' = ir_epoch req"
    "file_magic (sv_index s) = NANODB_MAGIC \<longrightarrow> header_ok (sv_index s')" "known s' \<le> Suc (known s)"
    "sv_ids s' = snd (assign_whole ?x (sv_ids s))" "element_count (sv_index s') = element_count (sv_index s) + 1"
    using shard_insert_ok [OF ok(1) fits] by blast
  note saves = shard_insert_saves [OF s'(1)]
  have "file_magic (sv_index s) = NANODB_MAGIC" using ok(2) by (simp add: header_ok_def storage_simps)
  then have kept: "kept_in data_dir s'" using s' ok assign_path saves(1) by (simp add: kept_in_def)
  define names where "names = (if ?x \<in> set (sm_names m) then sm_names m else sm_names m @ [?x])"
  have "known s < 2 ^ 32" using f(2) by (simp add: metadata_fits_def)
  from assign_names [OF service_parts(1) [OF ok(1)] this, where k = ?k and x = ?x]
  have names: "reverse (fst (sv_ids s')) = names" "fst (fst (assign_whole ?x (sv_ids s))) = name_id names ?x"
    using m s'(7) by (simp_all add: serves_def names_def)
  have "name_id names ?x \<le> known s"
    using length_takeWhile_le [of "\<lambda>y. y \<noteq> ?x" "sm_names m"] m by (auto simp: name_id_def names_def takeWhile_append serves_def)
  then have "as_int (name_id names ?x) = int (name_id names ?x)" using f(2) by (simp add: as_int_def metadata_fits_def)
  with saves(2) names(2) have save: "save_metadata (int (name_id names ?x)) (ir_metadata req) (metadata (sv_index s)) = Returns (metadata (sv_index s'))"
    by simp
  have epoch: "\<not> (length (ir_vector req) \<noteq> VECTOR_DIM \<or> ir_epoch req < sm_epoch m)" using False m by (simp add: serves_def)
  have "metadata_as (metadata (sv_index s')) (spec_do (ShardInsert draws req) m)"
    by (rule metadata_as_save [OF _ save])
       (use m f(1) epoch in \<open>auto simp: serves_def names_def Let_def\<close>)
  then have "serves data_dir s' (spec_do (ShardInsert draws req) m)"
    using kept s'(3,4) names(1) m epoch by (auto simp: serves_def names_def Let_def)
  with s'(1,6,8) show ?thesis by auto
qed

lemma shard_do_refines:
  assumes m: "serves data_dir s m" and f: "op_fits p" "metadata_fits (known s)" "element_count (sv_index s) + 1 < 2 ^ 32"
  shows "\<exists>s'. shard_do data_dir p s = Some s' \<and> serves data_dir s' (spec_do p m) \<and> known s' \<le> Suc (known s) \<and>
    element_count (sv_index s') \<le> Suc (element_count (sv_index s))"
proof (cases p)
  case (ShardInsert draws req)
  then show ?thesis using insert_refines [OF m _ f(2,3)] f(1) by blast
next
  case (ShardDelete req)
  have k: "kept_in data_dir s" using m by (simp add: serves_def)
  show ?thesis
  proof (cases "dr_epoch req < current_epoch s")
    case True
    then obtain r where "shard_delete req s = Returns (r, s)" using stale_delete by blast
    with True m ShardDelete show ?thesis by (auto simp: serves_def)
  next
    case False
    have ok: "service_ok s" "header_ok (sv_index s)" using k by (simp_all add: kept_in_def)
    obtain s' r where s': "shard_delete req s = Returns (r, s')" "service_ok s'" "view s' = (view s)(dr_external_id req := None)"
      "current_epoch s' = dr_epoch req" "header_ok (sv_index s')" "sv_ids s' = sv_ids s"
      "element_count (sv_index s') \<le> element_count (sv_index s)" "metadata (sv_index s') = metadata (sv_index s)"
      using shard_delete_ok [OF ok(1), of req] ok(2) False by auto
    have "path_of (sv_index s') = path_of (sv_index s)"
      using s'(1) False
      by (auto simp: shard_delete_def check_and_advance_epoch_def Let_def bind_Returns split: option.splits if_splits
          dest!: delete_vector_path)
    with s' k have "kept_in data_dir s'" by (simp add: kept_in_def)
    with s' False m ShardDelete show ?thesis by (auto simp: serves_def metadata_as_def)
  qed
next
  case ShardRestart
  from m restart_kept [of data_dir s] obtain s' where s': "restart_shard data_dir s = Returns (Some s')" "kept_in data_dir s'" "view s' = view s"
    "current_epoch s' = 0" "fst (sv_ids s') = fst (sv_ids s)" "element_count (sv_index s') = element_count (sv_index s)"
    "metadata (sv_index s') = open_metadata (md_bytes (metadata (sv_index s))) new_metadata" by (auto simp: serves_def)
  moreover have "metadata_as (metadata (sv_index s')) (spec_do ShardRestart m)"
    using metadata_as_reopen m s'(7) by (simp add: serves_def)
  ultimately show ?thesis using m ShardRestart by (simp add: serves_def)
qed

lemma shard_life_refines:
  assumes "serves data_dir s m" and "\<forall>p \<in> set ps. op_fits p" and "metadata_fits (known s + length ps)"
    and "element_count (sv_index s) + length ps < 2 ^ 32"
  shows "\<exists>s'. shard_life data_dir ps s = Some s' \<and> serves data_dir s' (fold spec_do ps m) \<and> known s' \<le> known s + length ps"
  using assms
proof (induction ps arbitrary: s m)
  case (Cons p ps)
  have "metadata_fits (known s)" using Cons.prems(3) by (simp add: metadata_fits_def)
  with Cons.prems obtain s1 where s1: "shard_do data_dir p s = Some s1" "serves data_dir s1 (spec_do p m)" "known s1 \<le> Suc (known s)"
    "element_count (sv_index s1) \<le> Suc (element_count (sv_index s))"
    using shard_do_refines [of data_dir s m p] by auto
  have "metadata_fits (known s1 + length ps)" "element_count (sv_index s1) + length ps < 2 ^ 32"
    using s1(3,4) Cons.prems(3,4) by (simp_all add: metadata_fits_def)
  with Cons.IH [OF s1(2)] Cons.prems(2) s1 show ?case by fastforce
qed simp

text \<open>What \<open>GetVector\<close> answers.\<close>

lemma serves_reply:
  assumes "serves data_dir s m" and "metadata_fits (known s)"
  shows "get_vector x s = Returns (spec_reply m x)"
proof -
  have ok: "service_ok s" using assms(1) by (simp add: serves_def kept_in_def)
  note sp = service_parts [OF ok]
  have names: "reverse (fst (sv_ids s)) = sm_names m" using assms(1) by (simp add: serves_def)
  show ?thesis
  proof (cases "lookup x (fst (sv_ids s))")
    case None
    then have "x \<notin> set (sm_names m)" using lookup_iff [OF sp(1), of x] unfolding names in_set_conv_nth by auto
    moreover have "sm_map m x = view s x" using assms(1) by (simp add: serves_def)
    then have "sm_map m x = None" using None by (simp add: view_def)
    ultimately show ?thesis using None by (simp add: get_vector_def spec_reply_def)
  next
    case (Some i)
    then have i: "i < known s" "sm_names m ! i = x" using lookup_iff [OF sp(1)] names by auto
    then have "x \<in> set (sm_names m)" using names by auto
    then have "i = name_id (sm_names m) x"
      using assign_names(2) [OF sp(1), of 0 x] assign_known [OF Some, of 0] assms(2) names by (simp add: metadata_fits_def)
    moreover have "as_int i = int i" using i(1) assms(2) by (simp add: as_int_def metadata_fits_def)
    ultimately have md: "hnsw_metadata i (sv_index s) = sm_metadata m (name_id (sm_names m) x)"
      using assms(1) by (simp add: hnsw_metadata_def serves_def metadata_as_def)
    have "node_end i \<le> get_size (sv_index s)" "length (nd_vector (nodes (sv_index s) i)) = VECTOR_DIM" "VECTOR_DIM \<noteq> 0"
      using sp(3) i(1) by (auto simp: nodes_ok_def node_ok_def VECTOR_DIM_def)
    moreover have "sm_map m x = view s x" using assms(1) by (simp add: serves_def)
    ultimately show ?thesis
      using Some md get_node_ok [OF sp(3), of i] i(1) \<open>x \<in> set (sm_names m)\<close>
      by (auto simp: get_vector_def get_vector_data_def spec_reply_def view_def)
  qed
qed

text \<open>Between two starts, with requests one after another, the epoch never goes back.\<close>

lemma shard_do_epoch:
  assumes "shard_do data_dir p s = Some s'" and "p \<noteq> ShardRestart"
  shows "current_epoch s \<le> current_epoch s'"
  using assms
  by (cases p) (auto simp: shard_insert_def shard_delete_def check_and_advance_epoch_def Let_def bind_Returns
      split: outcome.splits prod.splits option.splits if_splits)

lemma shard_life_epoch:
  assumes "shard_life data_dir ps s = Some s'" and "ShardRestart \<notin> set ps"
  shows "current_epoch s \<le> current_epoch s'"
  using assms
proof (induction ps arbitrary: s)
  case (Cons p ps)
  then obtain s1 where "shard_do data_dir p s = Some s1" "shard_life data_dir ps s1 = Some s'" by (auto simp: bind_eq_Some_conv)
  with Cons shard_do_epoch [of data_dir p s s1] show ?case by fastforce
qed simp

section \<open>Properties\<close>

text \<open>
  C9: a shard over its whole life.  Started on an empty directory, through any sequence of
  inserts, deletes and restarts (a stop or a kill between two requests), the shard never runs
  into undefined behaviour.  The vectors it serves are exactly the accepted writes; the fencing
  epoch is the highest accepted since the last start; and \<open>GetVector\<close> answers what the
  specification says, metadata included: after a restart the \<open>k\<close>-th local id gets the \<open>k\<close>-th
  non-empty metadata ever accepted, whatever vector that came with.
\<close>

theorem shard_life_refines_map:
  assumes "\<forall>p \<in> set ps. op_fits p" and "metadata_fits (length ps)"
  defines "m \<equiv> fold spec_do ps new_spec"
  shows "\<exists>s s'. start_shard os_ok True data_dir name Map.empty Map.empty = Returns (Some s) \<and> shard_life data_dir ps s = Some s' \<and>
    service_ok s' \<and> view s' = sm_map m \<and> current_epoch s' = sm_epoch m \<and> (\<forall>x. get_vector x s' = Returns (spec_reply m x))"
proof -
  obtain s where s: "start_shard os_ok True data_dir name Map.empty Map.empty = Returns (Some s)" "kept_in data_dir s"
    "view s = Map.empty" "current_epoch s = 0" "reverse (fst (sv_ids s)) = []" "element_count (sv_index s) = 0"
    "metadata (sv_index s) = open_metadata '''' new_metadata"
    using fresh_shard_kept by blast
  have "metadata_as (open_metadata '''' new_metadata) new_spec"
    using reopen_offsets(1,3) [of "[]"] reopen_by_position [of "[]"] by (simp add: metadata_as_def new_spec_def)
  then have "serves data_dir s new_spec" using s by (simp add: serves_def new_spec_def)
  moreover have "length ps < 2 ^ 32" using assms(2) by (simp add: metadata_fits_def)
  ultimately obtain s' where s': "shard_life data_dir ps s = Some s'" "serves data_dir s' m" "known s' \<le> length ps"
    using shard_life_refines [of data_dir s new_spec ps] assms(1,2) s(5,6) by (auto simp: m_def)
  then have "metadata_fits (known s')" using assms(2) by (simp add: metadata_fits_def)
  from serves_reply [OF s'(2) this] s' s(1) show ?thesis by (auto simp: serves_def kept_in_def)
qed

definition sample_life :: "shard_op list" where
  "sample_life = [ShardInsert [1 / 2] (sample_request 3\<lparr>ir_external_id := ''b'', ir_metadata := ''''\<rparr>),
     ShardInsert [1 / 2] (sample_request 3), ShardRestart, ShardDelete \<lparr>dr_external_id = ''c'', dr_epoch = 1\<rparr>]"

text \<open>In this life the metadata of the second vector is served with the first one after the restart.\<close>

theorem shard_life_refines_map_witness:
  "\<exists>s s'. start_shard os_ok True ''data'' ''0'' Map.empty Map.empty = Returns (Some s) \<and> shard_life ''data'' sample_life s = Some s' \<and>
     view s' = [''b'' \<mapsto> sample_vec 2, ''a'' \<mapsto> sample_vec 2] \<and> current_epoch s' = 1 \<and>
     get_vector ''b'' s' = Returns \<lparr>vr_ok = True, vr_vector = sample_vec 2, vr_metadata = ''m'', vr_error = ''''\<rparr> \<and>
     get_vector ''a'' s' = Returns \<lparr>vr_ok = True, vr_vector = sample_vec 2, vr_metadata = '''', vr_error = ''''\<rparr>"
proof -
  have fits: "\<forall>p \<in> set sample_life. op_fits p" "metadata_fits (length sample_life)"
    by (simp_all add: sample_life_def get_random_level_def LEVEL_THRESHOLD_def MAX_LAYERS_def sample_request_def metadata_fits_def)
  let ?m = "fold spec_do sample_life new_spec"
  have "length (sample_vec 2) = VECTOR_DIM" by (simp add: sample_vec_def)
  then have m: "sm_map ?m = [''b'' \<mapsto> sample_vec 2, ''a'' \<mapsto> sample_vec 2]" "sm_epoch ?m = 1" "sm_names ?m = [''b'', ''a'']"
    "sm_metadata ?m = (\<lambda>k. if k < 1 then [''m''] ! k else '''')"
    by (auto simp: sample_life_def sample_request_def new_spec_def Let_def fun_eq_iff)
  have "spec_reply ?m ''b'' = \<lparr>vr_ok = True, vr_vector = sample_vec 2, vr_metadata = ''m'', vr_error = ''''\<rparr>"
    "spec_reply ?m ''a'' = \<lparr>vr_ok = True, vr_vector = sample_vec 2, vr_metadata = '''', vr_error = ''''\<rparr>"
    by (simp_all add: spec_reply_def m name_id_def)
  with shard_life_refines_map [OF fits, of "''data''" "''0''"] m(1,2) show ?thesis by (metis (no_types, lifting))
qed

end
