(* ===== verification/Cluster_Service.thy ===== *)
theory Cluster_Service
  imports Coordinator_Http Shard_Restart
begin

text \<open>
  The coordinator's handlers with the shard services behind them: \<open>POST /vectors\<close> and
  \<open>DELETE /vectors/<id>\<close> of \<^verbatim>\<open>cluster/coordinator_main.cpp\<close>, and the migration of one key from the
  replicas of one shard to those of another.  The remote calls that the handlers take as
  arguments are the handlers of the services, over a network that loses calls and answers.
\<close>

section \<open>Deletes and reads at a replica\<close>

definition replica_delete :: "delivery \<Rightarrow> delete_request \<Rightarrow> shard_service \<Rightarrow> (bool option \<times> shard_service) outcome" where
  "replica_delete dl req s =
     (if dl = NotDelivered then Returns (None, s)
      else bind_outcome (shard_delete req s) (\<lambda>(r, s'). Returns (if dl = Delivered then Some (ack_ok r) else None, s')))"

definition delete_rpc :: "replica_group \<Rightarrow> nat \<Rightarrow> shard_client \<Rightarrow> delete_request \<Rightarrow> bool option" where
  "delete_rpc g i sc req =
     (case replica_delete (delivery_of g i) req (services g ! i) of Undefined \<Rightarrow> None | Returns (a, s) \<Rightarrow> a)"

definition after_delete :: "replica_group \<Rightarrow> shard_client list \<Rightarrow> string \<Rightarrow> shard_service list" where
  "after_delete g replicas key =
     map (\<lambda>(i, sc). case replica_delete (delivery_of g i) \<lparr>dr_external_id = key, dr_epoch = epoch sc\<rparr> (services g ! i) of
                       Undefined \<Rightarrow> services g ! i | Returns (a, s) \<Rightarrow> s) (enumerate 0 replicas)"

text \<open>\<open>GetVector\<close> at replica \<open>p\<close>; \<open>None\<close> if the call fails or the answer is not ok.\<close>

definition get_rpc_of :: "replica_group \<Rightarrow> nat \<Rightarrow> delivery \<Rightarrow> shard_client \<Rightarrow> string \<Rightarrow> (f32 list \<times> string) option" where
  "get_rpc_of g p dl sc key =
     (if dl \<noteq> Delivered then None
      else case get_vector key (services g ! p) of
        Undefined \<Rightarrow> None
      | Returns r \<Rightarrow> if vr_ok r then Some (vr_vector r, vr_metadata r) else None)"

text \<open>What the calls of a migration do to the two groups of services.\<close>

fun run_call :: "replica_group \<Rightarrow> replica_group \<Rightarrow> f32 rpc_call \<Rightarrow> shard_service list \<times> shard_service list \<Rightarrow>
    shard_service list \<times> shard_service list" where
  "run_call src dst (CallGet sc key) (ss, ds) = (ss, ds)"
| "run_call src dst (CallInsert rs key vec md) (ss, ds) = (ss, group_after dst rs key vec md)"
| "run_call src dst (CallDelete rs key) (ss, ds) = (after_delete src rs key, ds)"

definition migrate_services ::
  "replica_group \<Rightarrow> replica_group \<Rightarrow> nat \<Rightarrow> delivery \<Rightarrow> shard_client list \<Rightarrow> shard_client list \<Rightarrow> string \<Rightarrow>
   bool \<times> shard_service list \<times> shard_service list" where
  "migrate_services src dst p dl source_replicas dest_replicas key =
     (case migrate_one_key (get_rpc_of src p dl) (group_rpc dst) (source_replicas ! p) source_replicas dest_replicas key of
        (ok, calls) \<Rightarrow> (ok, fold (run_call src dst) calls (services src, services dst)))"

section \<open>One replica\<close>

lemma replica_delete_ok:
  assumes "service_ok s"
  shows "\<exists>a s'. replica_delete dl req s = Returns (a, s') \<and> service_ok s' \<and>
    (if a = Some True then view s' = (view s)(dr_external_id req := None)
     else view s' = view s \<or> view s' = (view s)(dr_external_id req := None))"
proof (cases "dl = NotDelivered")
  case True
  with assms show ?thesis by (simp add: replica_delete_def)
next
  case False
  show ?thesis
  proof (cases "dr_epoch req < current_epoch s")
    case True
    then obtain e where "shard_delete req s = Returns (\<lparr>ack_ok = False, ack_error = e\<rparr>, s)"
      by (auto simp: shard_delete_def check_and_advance_epoch_def Let_def)
    with False assms show ?thesis by (simp add: replica_delete_def)
  next
    case fresh: False
    then obtain s' r where "shard_delete req s = Returns (r, s')" "service_ok s'" "view s' = (view s)(dr_external_id req := None)"
      using shard_delete_ok [OF assms, of req] by auto
    with False show ?thesis by (simp add: replica_delete_def)
  qed
qed

lemma replica_insert_ok:
  assumes "service_ok s" and "insert_fits draws (ir_external_id req) s"
  shows "\<exists>a s'. replica_insert draws dl req s = Returns (a, s') \<and> service_ok s' \<and>
    (view s' = view s \<or> view s' = (view s)(ir_external_id req \<mapsto> ir_vector req))"
proof (cases "dl = NotDelivered \<or> length (ir_vector req) \<noteq> VECTOR_DIM \<or> ir_epoch req < current_epoch s")
  case True
  then obtain a where "replica_insert draws dl req s = Returns (a, s)"
    using stale_insert [of req s os_ok draws "length (encode_id (ir_external_id req))"]
    by (cases "dl = NotDelivered") (auto simp: replica_insert_def)
  with assms(1) show ?thesis by blast
next
  case False
  then obtain s' where "shard_insert os_ok draws (length (encode_id (ir_external_id req))) req s
      = Returns (Some \<lparr>ack_ok = True, ack_error = ''''\<rparr>, s')" "service_ok s'"
    "view s' = (view s)(ir_external_id req \<mapsto> ir_vector req)"
    using shard_insert_ok [OF assms] by auto
  with False show ?thesis by (simp add: replica_insert_def)
qed

lemma group_after_nth:
  assumes "i < length replicas" and "service_ok (services g ! i)" and "insert_fits (draws_of g i) key (services g ! i)"
  shows "service_ok (group_after g replicas key vec md ! i)"
    "view (group_after g replicas key vec md ! i) = view (services g ! i) \<or>
     view (group_after g replicas key vec md ! i) = (view (services g ! i))(key \<mapsto> vec)"
proof -
  have "insert_fits (draws_of g i) (ir_external_id (request_for key vec md (replicas ! i))) (services g ! i)"
    using assms(3) by (simp add: request_for_def)
  from replica_insert_ok [OF assms(2) this, of "delivery_of g i"] assms(1)
  show "service_ok (group_after g replicas key vec md ! i)"
    "view (group_after g replicas key vec md ! i) = view (services g ! i) \<or>
     view (group_after g replicas key vec md ! i) = (view (services g ! i))(key \<mapsto> vec)"
    by (auto simp: group_after_def nth_enumerate_eq request_for_def)
qed

lemma after_delete_nth:
  assumes "i < length replicas" and "service_ok (services g ! i)"
  shows "service_ok (after_delete g replicas key ! i)"
    "view (after_delete g replicas key ! i) = view (services g ! i) \<or>
     view (after_delete g replicas key ! i) = (view (services g ! i))(key := None)"
    "delete_rpc g i (replicas ! i) \<lparr>dr_external_id = key, dr_epoch = epoch (replicas ! i)\<rparr> = Some True \<Longrightarrow>
     view (after_delete g replicas key ! i) = (view (services g ! i))(key := None)"
  using replica_delete_ok [OF assms(2), of "delivery_of g i" "\<lparr>dr_external_id = key, dr_epoch = epoch (replicas ! i)\<rparr>"] assms(1)
  by (auto simp: after_delete_def delete_rpc_def nth_enumerate_eq split: if_splits)

section \<open>Properties\<close>

text \<open>
  C3: \<open>POST /vectors\<close> end to end.  A coordinator that routes the key of a well-formed body to a
  shard with replicas always answers, with 201 or 502.  After 201 the primary of that shard and
  a majority of its replicas serve the vector under the key; whatever the answer, no replica
  serves anything else than before under another key.
\<close>

theorem posted_vector_stored:
  assumes "insert_body parse get_float body key vec md" and "\<not> rebalancing c" and "route (ring_snapshot c) key = Some sid"
    and "replicas_for_shard (live_shards c) sid = replicas" and "replicas \<noteq> []"
    and "\<forall>i < length replicas. service_ok (services g ! i) \<and> insert_fits (draws_of g i) key (services g ! i)"
  defines "ss \<equiv> group_after g replicas key vec md"
  shows "\<exists>resp. handle_insert parse get_float (group_rpc g) body c = Returns (resp, http_status resp = 201) \<and>
    (if http_status resp = 201
     then (\<exists>i. primary_idx replicas = Some i \<and> view (ss ! i) key = Some vec) \<and>
       majority_of {..<length replicas} {i. i < length replicas \<and> view (ss ! i) key = Some vec}
     else http_status resp = 502) \<and>
    (\<forall>i < length replicas. service_ok (ss ! i) \<and> (\<forall>k. k \<noteq> key \<longrightarrow> view (ss ! i) k = view (services g ! i) k))"
proof -
  let ?ok = "qr_ok (quorum_insert (group_rpc g) replicas key vec md)"
  obtain resp where "handle_insert parse get_float (group_rpc g) body c = Returns (resp, ?ok)"
    "http_status resp = (if ?ok then 201 else 502)"
    using handle_insert_good [OF assms(1-3)] assms(4,5) by blast
  moreover have "\<forall>i < length replicas. service_ok (ss ! i) \<and> (\<forall>k. k \<noteq> key \<longrightarrow> view (ss ! i) k = view (services g ! i) k)"
    unfolding ss_def using group_after_nth assms(6) by (metis fun_upd_other)
  ultimately show ?thesis using write_stored [OF assms(6), of vec md] by (auto simp: ss_def)
qed

definition post_body :: json where
  "post_body = JObj [(''id'', JStr ''a''), (''vector'', JArr (replicate VECTOR_DIM (JInt 2)))]"

lemma map_throw_replicate: "map_throw (\<lambda>_. Some y) xs = Some (replicate (length xs) y)"
  by (induction xs) simp_all

lemma post_body_fields: "insert_body (\<lambda>_. Some post_body) (\<lambda>_. Some (Fin 2)) body ''a'' (sample_vec 2) ''''"
  by (simp add: insert_body_def post_body_def read_external_id_def map_throw_replicate sample_vec_def)

lemma sample_coord_route:
  "route (ring_snapshot sample_coord) key = Some 0"
  "replicas_for_shard (live_shards sample_coord) 0 = [make_shard_client 0 0 ''h'' 9090 True, make_shard_client 0 1 ''h'' 9090 False]"
proof -
  show "replicas_for_shard (live_shards sample_coord) 0 = [make_shard_client 0 0 ''h'' 9090 True, make_shard_client 0 1 ''h'' 9090 False]"
    by (simp add: replicas_for_shard_def make_shard_client_def)
  have "ring_ok sample_coord" unfolding sample_coord_def by (rule start_ring_ok)
  then obtain sid where "route (ring_snapshot sample_coord) key = Some sid" "replicas_for_shard (live_shards sample_coord) sid \<noteq> []"
    using route_to_live [of sample_coord key] by auto
  then show "route (ring_snapshot sample_coord) key = Some 0"
    by (auto simp: replicas_for_shard_def make_shard_client_def split: if_splits)
qed

theorem posted_vector_stored_witness:
  "\<exists>resp. handle_insert (\<lambda>_. Some post_body) (\<lambda>_. Some (Fin 2)) (group_rpc sample_group) ''{}'' sample_coord = Returns (resp, True) \<and>
     http_status resp = 201 \<and>
     view (group_after sample_group (replicas_for_shard (live_shards sample_coord) 0) ''a'' (sample_vec 2) '''' ! 0) ''a'' = Some (sample_vec 2)"
proof -
  define rs0 where "rs0 = replicas_for_shard (live_shards sample_coord) 0"
  have rs: "length rs0 = 2" "rs0 \<noteq> []" "primary_idx rs0 = Some 0"
    unfolding rs0_def sample_coord_route(2) by (simp_all add: primary_idx_def make_shard_client_def)
  have ok: "\<forall>i < length rs0. service_ok (services sample_group ! i) \<and> insert_fits (draws_of sample_group i) ''a'' (services sample_group ! i)"
    using sample_group_fields(1) by (simp add: rs)
  have idle: "\<not> rebalancing sample_coord" by (simp add: sample_coord_def start_coordinator_def Let_def)
  have two: "{i :: nat. i < 2 \<and> delivery_of sample_group i = Delivered} = {..<2}" by (auto simp: sample_group_def)
  have "qr_ok (fst (group_write sample_group rs0 ''a'' (sample_vec 2) ''''))"
    by (rule delivered_write_ok [where p = 0])
      (use sample_group_fields(1) in \<open>simp_all add: rs two sample_vec_def majority_of_def majority_def, simp add: sample_group_def\<close>)
  then have "qr_ok (quorum_insert (group_rpc sample_group) rs0 ''a'' (sample_vec 2) '''')" by (simp add: group_write_def)
  moreover note handle_insert_good [OF post_body_fields [of "''{}''"] idle sample_coord_route(1) rs(2) [unfolded rs0_def],
    folded rs0_def, of "group_rpc sample_group"]
  moreover note posted_vector_stored [OF post_body_fields [of "''{}''"] idle sample_coord_route(1) rs0_def [symmetric] rs(2) ok]
  ultimately show ?thesis unfolding rs0_def [symmetric] using rs(3) by auto
qed

text \<open>
  C13: migrating a key never loses it.  If the primary of the source serves a vector under the key,
  then after \<open>migrate_one_key\<close>, whatever the network did to each of its calls, the primary and a
  majority of the destination serve it, or the call has said no and the source is untouched; other keys are
  as before on all replicas.
\<close>

theorem migration_keeps_key:
  assumes "\<forall>i < length source. service_ok (services src ! i)" and "p < length source"
    and "\<forall>i < length dest. service_ok (services dst ! i) \<and> insert_fits (draws_of dst i) key (services dst ! i)"
    and "view (services src ! p) key = Some vec"
    and "length (services src) = length source" and "length (services dst) = length dest"
    and "migrate_services src dst p dl source dest key = (ok, ss, ds)"
  shows "(if ok then (\<exists>i. primary_idx dest = Some i \<and> view (ds ! i) key = Some vec) \<and>
            majority_of {..<length dest} {i. i < length dest \<and> view (ds ! i) key = Some vec}
          else ss = services src) \<and>
    (\<forall>i < length source. \<forall>k. k \<noteq> key \<longrightarrow> view (ss ! i) k = view (services src ! i) k) \<and>
    (\<forall>i < length dest. \<forall>k. k \<noteq> key \<longrightarrow> view (ds ! i) k = view (services dst ! i) k)"
proof (cases "get_rpc_of src p dl (source ! p) key")
  case None
  with assms(7) show ?thesis by (auto simp: migrate_services_def migrate_one_key_def)
next
  case (Some vm)
  obtain md where vm: "vm = (vec, md)"
    using Some get_vector_ok [of "services src ! p" key] assms(1,2,4)
    by (auto simp: get_rpc_of_def split: if_splits outcome.splits)
  have ins: "view (group_after dst dest key vec md ! i) k = view (services dst ! i) k" if "i < length dest" "k \<noteq> key" for i k
    using group_after_nth(2) [OF that(1), of dst key vec md] assms(3) that by (metis fun_upd_other)
  have del: "view (after_delete src source key ! i) k = view (services src ! i) k" if "i < length source" "k \<noteq> key" for i k
    using after_delete_nth(2) [OF that(1), of src key] assms(1) that by (metis fun_upd_other)
  show ?thesis
  proof (cases "qr_ok (quorum_insert (group_rpc dst) dest key vec md)")
    case True
    then have "ok" "ss = after_delete src source key" "ds = group_after dst dest key vec md"
      using assms(7) Some vm by (auto simp: migrate_services_def migrate_one_key_def Let_def)
    with write_stored [OF assms(3) True] ins del show ?thesis by simp
  next
    case False
    then have "\<not> ok" "ss = services src" "ds = group_after dst dest key vec md"
      using assms(7) Some vm by (auto simp: migrate_services_def migrate_one_key_def Let_def)
    with ins show ?thesis by simp
  qed
qed

definition holding_group :: replica_group where
  "holding_group = sample_group\<lparr>services := snd (group_write sample_group (sample_clients 1) ''a'' (sample_vec 2) ''m'')\<rparr>"

theorem migration_keeps_key_witness:
  "\<exists>ok ss ds. migrate_services holding_group sample_group 0 Delivered (sample_clients 1) (sample_clients 3) ''a'' = (ok, ss, ds) \<and>
     (if ok then majority_of {..<3} {i. i < 3 \<and> view (ds ! i) ''a'' = Some (sample_vec 2)} else ss = services holding_group)"
proof -
  have ok: "\<forall>i < length (sample_clients e). service_ok (services sample_group ! i) \<and>
      insert_fits (draws_of sample_group i) ''a'' (services sample_group ! i)" for e
    using sample_group_fields(1) by (simp add: sample_clients_fields)
  have after: "services holding_group = group_after sample_group (sample_clients 1) ''a'' (sample_vec 2) ''m''"
    by (simp add: holding_group_def group_write_def)
  have src: "\<forall>i < length (sample_clients 1). service_ok (services holding_group ! i)"
    unfolding after using group_after_nth(1) ok by blast
  have "quorum_insert (group_rpc sample_group) (sample_clients 1) ''a'' (sample_vec 2) ''m'' =
      fst (group_write sample_group (sample_clients 1) ''a'' (sample_vec 2) ''m'')" by (simp add: group_write_def)
  then have held: "view (services holding_group ! 0) ''a'' = Some (sample_vec 2)"
    using write_stored [OF ok [of 1], of "sample_vec 2" "''m''"] sample_write_ok unfolding after by (simp add: sample_clients_fields)
  have len: "length (services holding_group) = length (sample_clients 1)" "length (services sample_group) = length (sample_clients 3)"
    by (simp_all add: after group_after_def sample_group_def sample_clients_fields)
  obtain k ss ds where m: "migrate_services holding_group sample_group 0 Delivered (sample_clients 1) (sample_clients 3) ''a'' = (k, ss, ds)"
    by (metis surj_pair)
  from migration_keeps_key [OF src _ ok held len m] m show ?thesis by (cases k) (auto simp: sample_clients_fields)
qed

text \<open>\<open>DELETE /vectors/<id>\<close> answered with 200: the primary and a majority no longer serve the key.\<close>

lemma deleted_vector_gone:
  assumes "\<not> rebalancing c" and "route (ring_snapshot c) key = Some sid"
    and "replicas_for_shard (live_shards c) sid = replicas" and "replicas \<noteq> []"
    and "\<forall>i < length replicas. service_ok (services g ! i)"
  defines "ss \<equiv> after_delete g replicas key"
  shows "\<exists>resp. handle_delete (delete_rpc g) key c = Returns (resp, http_status resp = 200) \<and>
    (if http_status resp = 200
     then (\<exists>i. primary_idx replicas = Some i \<and> view (ss ! i) key = None) \<and>
       majority_of {..<length replicas} {i. i < length replicas \<and> view (ss ! i) key = None}
     else http_status resp = 404)"
proof -
  define oks where "oks = map (\<lambda>(i, sc). delete_rpc g i sc \<lparr>dr_external_id = key, dr_epoch = epoch sc\<rparr> = Some True) (enumerate 0 replicas)"
  have q: "quorum_delete (delete_rpc g) replicas key = quorum_outcome replicas oks" by (simp add: quorum_delete_def oks_def)
  have len: "length oks = length replicas" by (simp add: oks_def)
  obtain resp where r: "handle_delete (delete_rpc g) key c = Returns (resp, qr_ok (quorum_outcome replicas oks))"
    "http_status resp = (if qr_ok (quorum_outcome replicas oks) then 200 else 404)"
    using assms(1-4) q by (cases "qr_ok (quorum_outcome replicas oks)") (auto simp: handle_delete_def Let_def)
  have gone: "view (ss ! i) key = None" if "i < length replicas" "oks ! i" for i
    using after_delete_nth(3) [OF that(1), of g key] assms(5) that by (simp add: oks_def nth_enumerate_eq ss_def)
  then have "{i. i < length replicas \<and> oks ! i} \<subseteq> {i. i < length replicas \<and> view (ss ! i) key = None}" by blast
  then have "card {i. i < length replicas \<and> oks ! i} \<le> card {i. i < length replicas \<and> view (ss ! i) key = None}"
    by (intro card_mono) simp_all
  with r gone quorum_outcome_iff [OF len] primary_idx_SomeD show ?thesis by (auto simp: majority_of_def)
qed

end
