(* ===== verification/Cluster_Search.thy ===== *)
theory Cluster_Search
  imports Cluster_Service "HOL-Library.Product_Lexorder"
begin

text \<open>
  \<open>POST /search\<close> of \<^verbatim>\<open>cluster/coordinator_main.cpp\<close> with the shard services behind it: the answers the
  handler merges are those of \<open>Search\<close> at the replicas it picks.
\<close>

section \<open>Searches at the replicas\<close>

text \<open>A distance that is not a NaN as an element of a linear order.\<close>

fun dist_key :: "f32 \<Rightarrow> int \<times> rat" where
  "dist_key NInf = (- 1, 0)"
| "dist_key (Fin a) = (0, a)"
| "dist_key PInf = (1, 0)"
| "dist_key NaN = (2, 0)"

lemma dist_key_le: "x \<noteq> NaN \<Longrightarrow> y \<noteq> NaN \<Longrightarrow> dist_key x \<le> dist_key y \<longleftrightarrow> \<not> y < x"
  by (cases x; cases y) auto

text \<open>The call and what the handler makes of the reply; \<open>up\<close> says which replicas answer in time.\<close>

definition hit_of :: "search_result \<Rightarrow> (int \<times> rat) search_hit" where
  "hit_of r = \<lparr>hit_id = sr_external_id r, distance = dist_key (sr_distance r), hit_metadata = sr_metadata r\<rparr>"

definition search_rpc ::
  "(shard_client \<Rightarrow> shard_service) \<Rightarrow> (shard_client \<Rightarrow> bool) \<Rightarrow> shard_client \<Rightarrow> f32 list \<Rightarrow> int \<Rightarrow> (int \<times> rat) search_hit list option" where
  "search_rpc svc up sc vec k =
     (if \<not> up sc then None
      else case shard_search vec k (svc sc) of
        Undefined \<Rightarrow> None
      | Returns r \<Rightarrow> if sp_ok r then Some (map hit_of (sp_results r)) else None)"

text \<open>The distance of the vector a replica serves under a key.\<close>

definition served_at :: "f32 list \<Rightarrow> shard_service \<Rightarrow> string \<Rightarrow> (int \<times> rat) option" where
  "served_at vec s x = map_option (\<lambda>v. dist_key (compute_distance vec v VECTOR_DIM (metric (sv_index s)))) (view s x)"

text \<open>A replica whose index is small and connected, and whose vectors have proper distances from the query.\<close>

definition search_fits :: "f32 list \<Rightarrow> shard_service \<Rightarrow> bool" where
  "search_fits vec s \<longleftrightarrow> service_ok s \<and> known s < 100 \<and> connected {..<known s} (sv_index s) \<and> no_NaN {..<known s} (sv_index s) vec"

lemma view_no_NaN:
  assumes "search_fits vec s" and "view s x = Some v"
  shows "compute_distance vec v VECTOR_DIM (metric (sv_index s)) \<noteq> NaN"
proof -
  have ok: "service_ok s" "no_NaN {..<known s} (sv_index s) vec" using assms(1) by (simp_all add: search_fits_def)
  obtain i where "lookup x (fst (sv_ids s)) = Some i" "v = nd_vector (nodes (sv_index s) i)"
    using assms(2) by (auto simp: view_def split: option.splits if_splits)
  with ok lookup_iff [OF service_parts(1) [OF ok(1)]] show ?thesis by (auto simp: no_NaN_def)
qed

lemma search_rpc_exact:
  assumes "search_fits vec (svc sc)" and "length vec = VECTOR_DIM" and "0 \<le> k" and "up sc"
  shows "\<exists>hs. search_rpc svc up sc vec k = Some hs \<and> distinct (map hit_id hs) \<and>
    (\<forall>r \<in> set hs. served_at vec (svc sc) (hit_id r) = Some (distance r)) \<and>
    (\<forall>x d. served_at vec (svc sc) x = Some d \<and> x \<notin> hit_id ` set hs \<longrightarrow> length hs = nat k \<and> (\<forall>r \<in> set hs. distance r \<le> d))"
proof -
  let ?s = "svc sc"
  have fits: "service_ok ?s" "known ?s < 100" "connected {..<known ?s} (sv_index ?s)" "no_NaN {..<known ?s} (sv_index ?s) vec"
    using assms(1) by (simp_all add: search_fits_def)
  obtain r where r: "shard_search vec k ?s = Returns r" "sp_ok r" "distinct (map sr_external_id (sp_results r))"
    and sound: "\<forall>hit \<in> set (sp_results r). \<exists>v. view ?s (sr_external_id hit) = Some v \<and>
       sr_distance hit = compute_distance vec v VECTOR_DIM (metric (sv_index ?s))"
    using shard_search_sound [OF fits(1) assms(2) fits(4) assms(3)] by blast
  have "search_rpc svc up sc vec k = Some (map hit_of (sp_results r))" using r assms(4) by (simp add: search_rpc_def)
  moreover have "distinct (map hit_id (map hit_of (sp_results r)))" using r(3) by (simp add: hit_of_def comp_def)
  moreover have "\<forall>h \<in> set (map hit_of (sp_results r)). served_at vec ?s (hit_id h) = Some (distance h)"
    using sound by (fastforce simp: hit_of_def served_at_def)
  moreover have "length (map hit_of (sp_results r)) = nat k \<and> (\<forall>h \<in> set (map hit_of (sp_results r)). distance h \<le> d)"
    if d: "served_at vec ?s x = Some d" "x \<notin> hit_id ` set (map hit_of (sp_results r))" for x d
  proof -
    obtain v where v: "view ?s x = Some v" "d = dist_key (compute_distance vec v VECTOR_DIM (metric (sv_index ?s)))"
      using d(1) by (auto simp: served_at_def)
    have "x \<notin> sr_external_id ` set (sp_results r)" using d(2) by (auto simp: hit_of_def image_image)
    from shard_search_exact [OF fits(1) assms(2) fits(4) assms(3) fits(2,3) r(1) v(1) this]
    have out: "length (sp_results r) = nat k"
      "\<forall>h \<in> set (sp_results r). \<not> compute_distance vec v VECTOR_DIM (metric (sv_index ?s)) < sr_distance h" by blast+
    have "dist_key (sr_distance h) \<le> d" if h: "h \<in> set (sp_results r)" for h
    proof -
      obtain w where "view ?s (sr_external_id h) = Some w" "sr_distance h = compute_distance vec w VECTOR_DIM (metric (sv_index ?s))"
        using sound h by blast
      then have "sr_distance h \<noteq> NaN" using view_no_NaN [OF assms(1)] by metis
      with dist_key_le view_no_NaN [OF assms(1) v(1)] out(2) h v(2) show ?thesis by simp
    qed
    with out(1) show ?thesis by (auto simp: hit_of_def)
  qed
  ultimately show ?thesis by blast
qed

section \<open>Merging exact answers\<close>

text \<open>
  If \<open>out\<close> is the best of the hits, and some shard's answer is full with hits no farther than
  \<open>d\<close>, then \<open>out\<close> is full and no farther than \<open>d\<close>.
\<close>

lemma full_answer_bounds:
  fixes out hs :: "'d::linorder search_hit list"
  assumes "distinct (map hit_id out)" and "length out \<le> k" and "set hs \<subseteq> hits"
    and "\<forall>r \<in> set out. \<forall>r' \<in> hits. hit_id r' = hit_id r \<longrightarrow> distance r \<le> distance r'"
    and "\<forall>r' \<in> hits. hit_id r' \<notin> hit_id ` set out \<longrightarrow> length out = k \<and> (\<forall>r \<in> set out. distance r \<le> distance r')"
    and "distinct (map hit_id hs)" and "length hs = k" and "\<forall>r \<in> set hs. distance r \<le> d"
  shows "length out = k \<and> (\<forall>r \<in> set out. distance r \<le> d)"
proof (cases "hit_id ` set hs \<subseteq> hit_id ` set out")
  case False
  then obtain h where h: "h \<in> set hs" "hit_id h \<notin> hit_id ` set out" by blast
  with assms(3) have "h \<in> hits" by blast
  with assms(5) h(2) have "length out = k" "\<forall>r \<in> set out. distance r \<le> distance h" by blast+
  with assms(8) h(1) show ?thesis using order_trans by blast
next
  case True
  have c: "card (hit_id ` set out) = length out" "card (hit_id ` set hs) = k"
    using distinct_card [OF assms(1)] distinct_card [OF assms(6)] assms(7) by simp_all
  then have "length out = k" using card_mono [OF _ True] assms(2) by simp
  then have same: "hit_id ` set hs = hit_id ` set out" using card_subset_eq [OF _ True] c by simp
  have "distance r \<le> d" if r: "r \<in> set out" for r
  proof -
    obtain h where h: "h \<in> set hs" "hit_id h = hit_id r" using r same by (metis imageE imageI)
    then have "distance r \<le> distance h" using assms(3,4) r by blast
    with assms(8) h(1) show ?thesis using order_trans by blast
  qed
  with \<open>length out = k\<close> show ?thesis by blast
qed

section \<open>Properties\<close>

text \<open>
  C17: \<open>POST /search\<close> end to end.  If the replicas asked all answer and their indexes are small
  and connected, the answer is exact over the whole cluster: it holds \<open>k\<close> distinct keys at most, in order of
  distance, each served by a replica that was asked at that distance, and a key that one of them
  serves but that is missing is no closer than any hit, the answer then being full.  One replica per
  shard is asked, the primary for a strong read, and for an eventual one no shard is left out.
\<close>

theorem cluster_search_exact:
  fixes svc :: "shard_client \<Rightarrow> shard_service" and c :: coordinator
  assumes "search_body parse get_float body vec k consistency" and "0 < k" and "k < 2 ^ 31" and "length vec = VECTOR_DIM"
    and fits: "\<forall>sc \<in> set (select_read_targets (live_shards c) consistency). up sc \<and> search_fits vec (svc sc)"
  defines "targets \<equiv> select_read_targets (live_shards c) consistency"
  shows "(\<exists>out. handle_search parse get_float (search_rpc svc up) body c =
        Inr \<lparr>results = out, used_consistency = consistency, unavailable_shards = []\<rparr> \<and>
      distinct (map hit_id out) \<and> sorted (map distance out) \<and> length out \<le> nat k \<and>
      (\<forall>r \<in> set out. \<exists>sc \<in> set targets. served_at vec (svc sc) (hit_id r) = Some (distance r)) \<and>
      (\<forall>sc \<in> set targets. \<forall>x d. served_at vec (svc sc) x = Some d \<and> x \<notin> hit_id ` set out \<longrightarrow>
         length out = nat k \<and> (\<forall>r \<in> set out. distance r \<le> d))) \<and>
    distinct (map shard_id targets) \<and> set targets \<subseteq> set (live_shards c) \<and>
    (if consistency = ''strong'' then \<forall>sc \<in> set targets. is_primary sc
     else shard_id ` set targets = shard_id ` set (live_shards c))"
proof -
  let ?rpc = "search_rpc svc up"
  define hits where "hits = {x. \<exists>sc \<in> set targets. \<exists>hs. ?rpc sc vec k = Some hs \<and> x \<in> set hs}"
  have answer: "\<exists>hs. ?rpc sc vec k = Some hs \<and> distinct (map hit_id hs) \<and>
      (\<forall>r \<in> set hs. served_at vec (svc sc) (hit_id r) = Some (distance r)) \<and>
      (\<forall>x d. served_at vec (svc sc) x = Some d \<and> x \<notin> hit_id ` set hs \<longrightarrow> length hs = nat k \<and> (\<forall>r \<in> set hs. distance r \<le> d))"
    if "sc \<in> set targets" for sc
    using search_rpc_exact [of vec svc sc k up] that fits assms(2,4) by (simp add: targets_def)
  then have none: "filter (\<lambda>sc. ?rpc sc vec k = None) targets = []" by (fastforce simp: filter_empty_conv)
  note best = search_answer_best [OF assms(1-3), where c = c and rpc = ?rpc, folded targets_def, folded hits_def, unfolded none list.map]
  obtain out where run: "handle_search parse get_float ?rpc body c =
      Inr \<lparr>results = out, used_consistency = consistency, unavailable_shards = []\<rparr>"
    and out: "distinct (map hit_id out)" "sorted (map distance out)" "length out \<le> nat k" "set out \<subseteq> hits"
      "\<forall>r \<in> set out. \<forall>r' \<in> hits. hit_id r' = hit_id r \<longrightarrow> distance r \<le> distance r'"
      "\<forall>r' \<in> hits. hit_id r' \<notin> hit_id ` set out \<longrightarrow> length out = nat k \<and> (\<forall>r \<in> set out. distance r \<le> distance r')"
    using best by (elim conjE exE) (rule that)
  have "\<exists>sc \<in> set targets. served_at vec (svc sc) (hit_id r) = Some (distance r)" if r: "r \<in> set out" for r
  proof -
    obtain sc hs where "sc \<in> set targets" "?rpc sc vec k = Some hs" "r \<in> set hs" using out(4) r by (auto simp: hits_def)
    with answer [of sc] show ?thesis by auto
  qed
  moreover have "length out = nat k \<and> (\<forall>r \<in> set out. distance r \<le> d)"
    if sc: "sc \<in> set targets" and x: "served_at vec (svc sc) x = Some d" "x \<notin> hit_id ` set out" for sc x d
  proof -
    obtain hs where hs: "?rpc sc vec k = Some hs" "distinct (map hit_id hs)"
      "\<forall>r \<in> set hs. served_at vec (svc sc) (hit_id r) = Some (distance r)"
      "x \<notin> hit_id ` set hs \<Longrightarrow> length hs = nat k \<and> (\<forall>r \<in> set hs. distance r \<le> d)"
      using answer [OF sc] x(1) by blast
    have sub: "set hs \<subseteq> hits" using sc hs(1) by (auto simp: hits_def)
    show ?thesis
    proof (cases "x \<in> hit_id ` set hs")
      case True
      then obtain h where "h \<in> set hs" "hit_id h = x" "distance h = d" using hs(3) x(1) by force
      with sub out(6) x(2) show ?thesis by blast
    next
      case False
      with hs(4) full_answer_bounds [OF out(1,3) sub out(5,6) hs(2)] show ?thesis by blast
    qed
  qed
  ultimately have "\<exists>out. handle_search parse get_float ?rpc body c =
        Inr \<lparr>results = out, used_consistency = consistency, unavailable_shards = []\<rparr> \<and>
      distinct (map hit_id out) \<and> sorted (map distance out) \<and> length out \<le> nat k \<and>
      (\<forall>r \<in> set out. \<exists>sc \<in> set targets. served_at vec (svc sc) (hit_id r) = Some (distance r)) \<and>
      (\<forall>sc \<in> set targets. \<forall>x d. served_at vec (svc sc) x = Some d \<and> x \<notin> hit_id ` set out \<longrightarrow>
         length out = nat k \<and> (\<forall>r \<in> set out. distance r \<le> d))"
    using run out(1-3) by blast
  with best show ?thesis by (elim conjE) (intro conjI)
qed

definition two_key_shard :: shard_service where
  "two_key_shard = (empty_shard 0)\<lparr>sv_index := two_nodes,
     sv_ids := (\<lparr>ids_path = ''ids'', ids_open = True, forward = [''a'' \<mapsto> 0, ''b'' \<mapsto> 1], reverse = [''a'', ''b'']\<rparr>,
       [''ids'' \<mapsto> encode_id ''a'' @ encode_id ''b''])\<rparr>"

lemma two_key_shard_known: "{..<known two_key_shard} = {0, 1}"
  by (auto simp: two_key_shard_def)

lemma two_key_shard_ok: "service_ok two_key_shard"
proof -
  have "ids_ok (sv_ids two_key_shard)"
    by (auto simp: two_key_shard_def ids_ok_def ids_wf_def ids_saved_def less_Suc_eq nth_Cons' split: if_splits)
  moreover have i: "sv_index two_key_shard = two_nodes" by (simp add: two_key_shard_def)
  moreover have "card (live {0, 1} two_nodes) \<le> card {0 :: nat, 1}" by (rule card_mono) (auto simp: live_def)
  moreover have "element_count two_nodes = 2" by (simp add: two_nodes_def no_id_def)
  ultimately show ?thesis using two_nodes_ok unfolding service_ok_def two_key_shard_known i by simp
qed

lemma two_key_shard_fits: "search_fits (sample_vec 0) two_key_shard"
proof -
  have "no_NaN {0, 1} two_nodes (sample_vec 0)"
    by (intro L2_no_NaN two_nodes_finite) (simp_all add: two_nodes_def sample_vec_def finite_vec_def)
  then show ?thesis using two_key_shard_ok two_nodes_connected two_key_shard_known
    by (simp add: search_fits_def) (simp add: two_key_shard_def)
qed

definition query_body :: json where
  "query_body = JObj [(''consistency'', JStr ''strong''), (''k'', JInt 1), (''vector'', JArr (replicate VECTOR_DIM (JInt 0)))]"

theorem cluster_search_exact_witness:
  "\<exists>out. handle_search (\<lambda>_. Some query_body) (\<lambda>_. Some (Fin 0)) (search_rpc (\<lambda>_. two_key_shard) (\<lambda>_. True)) ''{}'' sample_coord =
     Inr \<lparr>results = out, used_consistency = ''strong'', unavailable_shards = []\<rparr> \<and> length out = 1 \<and> hit_id ` set out \<subseteq> {''a'', ''b''}"
proof -
  have body: "search_body (\<lambda>_. Some query_body) (\<lambda>_. Some (Fin 0)) ''{}'' (sample_vec 0) 1 ''strong''"
    by (simp add: search_body_def query_body_def wrap_signed_id map_throw_replicate sample_vec_def)
  have len: "length (sample_vec 0) = VECTOR_DIM" by (simp add: sample_vec_def)
  let ?t = "select_read_targets (live_shards sample_coord) ''strong''"
  have t: "make_shard_client 0 0 ''h'' 9090 True \<in> set ?t"
    by (simp add: select_read_targets_def shard_ids_def read_target_def List.map_filter_def make_shard_client_def)
  have a: "\<exists>d. served_at (sample_vec 0) two_key_shard ''a'' = Some d"
    by (simp add: served_at_def view_def two_key_shard_def two_nodes_def sample_contents lookup_def sample_vertex_def relink_def new_node_def)
  have keys: "x \<in> {''a'', ''b''}" if "served_at (sample_vec 0) two_key_shard x = Some d" for x d
    using that by (auto simp: served_at_def view_def two_key_shard_def lookup_def split: if_splits)
  obtain out where out: "handle_search (\<lambda>_. Some query_body) (\<lambda>_. Some (Fin 0)) (search_rpc (\<lambda>_. two_key_shard) (\<lambda>_. True)) ''{}'' sample_coord =
      Inr \<lparr>results = out, used_consistency = ''strong'', unavailable_shards = []\<rparr>" "length out \<le> 1"
    "\<forall>r \<in> set out. \<exists>sc \<in> set ?t. served_at (sample_vec 0) two_key_shard (hit_id r) = Some (distance r)"
    "\<forall>sc \<in> set ?t. \<forall>x d. served_at (sample_vec 0) two_key_shard x = Some d \<and> x \<notin> hit_id ` set out \<longrightarrow> length out = nat 1"
    using conjunct1 [OF cluster_search_exact [OF body zero_less_one _ len, where c = sample_coord and up = "\<lambda>_. True" and svc = "\<lambda>_. two_key_shard"]]
      two_key_shard_fits unfolding nat_one_as_int by (simp del: sample_coord_shards) blast
  have "out \<noteq> []" using out(4) t a by fastforce
  then have "length out = 1" using out(2) by (cases out) auto
  with out(1,3) keys show ?thesis by blast
qed

end
