(* ===== verification/Cluster_Config.thy ===== *)
theory Cluster_Config
  imports Coordinator
begin

text \<open>
  \<^verbatim>\<open>cluster/cluster_config.hpp\<close> and \<^verbatim>\<open>cluster/raft_config.hpp\<close>: the file that lists the shard replicas,
  which every coordinator reads at start and writes after a change, and the file that lists
  the Raft peers.  Text to JSON and back (\<open>parse\<close>, \<open>dump\<close>) are parameters.  A save writes a
  temporary file of its own and renames it over the real one; the second half of the theory
  lets any number of saves run at once.
\<close>

section \<open>Reading and writing\<close>

datatype config_error = CannotRead string | BadConfig | EmptyConfig | CannotWrite string | CannotRename string

definition ep_address :: "shard_endpoint \<Rightarrow> string" where
  "ep_address ep = ep_host ep @ '':'' @ to_string (ep_port ep)"

text \<open>One element of the \<open>shards\<close> array; \<open>None\<close> is an exception of the library.\<close>

definition read_endpoint :: "json \<Rightarrow> shard_endpoint option" where
  "read_endpoint s =
     (case Option.bind (json_at ''shard_id'' s) get_int of
        None \<Rightarrow> None
      | Some sid \<Rightarrow> (case json_value ''replica_id'' get_int 0 s of
          None \<Rightarrow> None
        | Some rid \<Rightarrow> (case Option.bind (json_at ''host'' s) get_string of
            None \<Rightarrow> None
          | Some h \<Rightarrow> (case Option.bind (json_at ''port'' s) get_int of
              None \<Rightarrow> None
            | Some p \<Rightarrow> map_option (\<lambda>prim. \<lparr>ep_shard_id = sid, ep_replica_id = rid, ep_host = h, ep_port = p,
                                              ep_is_primary = prim\<rparr>) (json_value ''primary'' get_bool True s)))))"

definition load_cluster_config :: "(string \<Rightarrow> json option) \<Rightarrow> string \<Rightarrow> disk \<Rightarrow> config_error + shard_endpoint list" where
  "load_cluster_config parse path d =
     (case d path of
        None \<Rightarrow> Inl (CannotRead path)
      | Some text \<Rightarrow>
          (case Option.bind (Option.bind (parse text) (json_at ''shards'')) (\<lambda>a. map_throw read_endpoint (json_items a)) of
             None \<Rightarrow> Inl BadConfig
           | Some shards \<Rightarrow> if shards = [] then Inl EmptyConfig else Inr shards))"

definition read_peer :: "json \<Rightarrow> raft_peer option" where
  "read_peer p =
     (case Option.bind (json_at ''node_id'' p) get_int of
        None \<Rightarrow> None
      | Some i \<Rightarrow> (case Option.bind (json_at ''host'' p) get_string of
          None \<Rightarrow> None
        | Some h \<Rightarrow> map_option (\<lambda>pt. \<lparr>node_id = i, host = h, port = pt\<rparr>) (Option.bind (json_at ''raft_port'' p) get_int)))"

definition load_raft_peers :: "(string \<Rightarrow> json option) \<Rightarrow> string \<Rightarrow> disk \<Rightarrow> config_error + raft_peer list" where
  "load_raft_peers parse path d =
     (case d path of
        None \<Rightarrow> Inl (CannotRead path)
      | Some text \<Rightarrow>
          (case Option.bind (Option.bind (parse text) (json_at ''peers'')) (\<lambda>a. map_throw read_peer (json_items a)) of
             None \<Rightarrow> Inl BadConfig
           | Some ps \<Rightarrow> if ps = [] then Inl EmptyConfig else Inr ps))"

definition endpoint_json :: "shard_endpoint \<Rightarrow> json" where
  "endpoint_json ep = JObj [(''host'', JStr (ep_host ep)), (''port'', JInt (ep_port ep)),
     (''primary'', JBool (ep_is_primary ep)), (''replica_id'', JInt (ep_replica_id ep)), (''shard_id'', JInt (ep_shard_id ep))]"

definition config_json :: "shard_endpoint list \<Rightarrow> json" where
  "config_json shards = JObj [(''shards'', JArr (map endpoint_json shards))]"

definition tmp_path :: "string \<Rightarrow> nat \<Rightarrow> nat \<Rightarrow> string" where
  "tmp_path path pid seq = path @ ''.'' @ to_string_nat pid @ ''.'' @ to_string_nat seq @ ''.tmp''"

text \<open>
  \<open>save_cluster_config\<close>: \<open>pid\<close> is the process, \<open>seq\<close> the value of the write counter, \<open>w\<close> how the
  write of the temporary file turns out, \<open>renames\<close> whether \<open>rename\<close> succeeds.
\<close>

definition save_cluster_config ::
  "(json \<Rightarrow> string) \<Rightarrow> write_outcome \<Rightarrow> bool \<Rightarrow> nat \<Rightarrow> nat \<Rightarrow> string \<Rightarrow> shard_endpoint list \<Rightarrow> disk \<Rightarrow> config_error option \<times> disk" where
  "save_cluster_config dump w renames pid seq path shards d =
     (let tmp = tmp_path path pid seq in
      case write_file w tmp (dump (config_json shards)) d of
        (Some e, d) \<Rightarrow> (Some (CannotWrite tmp), d)
      | (None, d) \<Rightarrow>
          if \<not> renames then (Some (CannotRename path), d)
          else (None, d(path := d tmp, tmp := None)))"

section \<open>Round trip\<close>

definition endpoint_wf :: "shard_endpoint \<Rightarrow> bool" where
  "endpoint_wf ep \<longleftrightarrow> is_i32 (ep_shard_id ep) \<and> is_i32 (ep_replica_id ep) \<and> is_i32 (ep_port ep)"

lemma get_int_i32 [simp]: "is_i32 x \<Longrightarrow> get_int (JInt x) = Some x"
  by (simp add: is_i32_def wrap_signed_id)

lemma read_endpoint_json: "endpoint_wf ep \<Longrightarrow> read_endpoint (endpoint_json ep) = Some ep"
  by (simp add: read_endpoint_def endpoint_json_def endpoint_wf_def del: get_signed.simps)

lemma tmp_path_other: "tmp_path path pid seq \<noteq> path"
  by (simp add: tmp_path_def)

lemma tmp_path_inj:
  assumes "tmp_path path p q = tmp_path path p' q'"
  shows "p = p' \<and> q = q'"
proof -
  have digits: "takeWhile is_digit (to_string_nat n @ CHR ''.'' # r) = to_string_nat n" for n r
    using takeWhile_append2 [of "to_string_nat n" is_digit "CHR ''.'' # r"] to_string_nat_digits
    by (simp add: is_digit_def)
  from assms have eq: "to_string_nat p @ CHR ''.'' # to_string_nat q @ ''.tmp'' = to_string_nat p' @ CHR ''.'' # to_string_nat q' @ ''.tmp''"
    by (simp add: tmp_path_def)
  then have pp: "to_string_nat p = to_string_nat p'" using digits by metis
  with eq have "to_string_nat q @ ''.tmp'' = to_string_nat q' @ ''.tmp''" by simp
  with pp show ?thesis using to_string_nat_inj by (metis append_same_eq)
qed

section \<open>Saves that run at once\<close>

text \<open>
  A save in progress: who writes what, and how far it is.  Its steps are the \<open>open\<close> that
  creates or truncates its temporary file, writes of some bytes, and the \<open>rename\<close>; a save
  that fails or whose process dies takes no further step.
\<close>

record save_job =
  job_pid :: nat
  job_seq :: nat
  job_text :: string

datatype job_phase = NotStarted | Writing nat | Renamed

type_synonym saving = "disk \<times> (nat \<Rightarrow> job_phase)"

inductive save_step :: "string \<Rightarrow> save_job list \<Rightarrow> saving \<Rightarrow> saving \<Rightarrow> bool" for path jobs where
  open_tmp: "i < length jobs \<Longrightarrow> ph i = NotStarted \<Longrightarrow>
    save_step path jobs (d, ph) (d(tmp_path path (job_pid (jobs ! i)) (job_seq (jobs ! i)) \<mapsto> ''''), ph(i := Writing 0))"
| write_some: "i < length jobs \<Longrightarrow> ph i = Writing n \<Longrightarrow> n + m \<le> length (job_text (jobs ! i)) \<Longrightarrow>
    save_step path jobs (d, ph)
      (d(tmp_path path (job_pid (jobs ! i)) (job_seq (jobs ! i)) \<mapsto> take (n + m) (job_text (jobs ! i))), ph(i := Writing (n + m)))"
| rename_tmp: "i < length jobs \<Longrightarrow> ph i = Writing (length (job_text (jobs ! i))) \<Longrightarrow>
    save_step path jobs (d, ph)
      (d(path := d (tmp_path path (job_pid (jobs ! i)) (job_seq (jobs ! i))),
         tmp_path path (job_pid (jobs ! i)) (job_seq (jobs ! i)) := None), ph(i := Renamed))"

inductive_cases save_stepE: "save_step path jobs st st'"

definition jobs_distinct :: "save_job list \<Rightarrow> bool" where
  "jobs_distinct jobs \<longleftrightarrow> distinct (map (\<lambda>j. (job_pid j, job_seq j)) jobs)"

definition saving_inv :: "string \<Rightarrow> save_job list \<Rightarrow> disk \<Rightarrow> saving \<Rightarrow> bool" where
  "saving_inv path jobs d0 st \<longleftrightarrow> (case st of (d, ph) \<Rightarrow>
     (d path = d0 path \<or> (\<exists>j \<in> set jobs. d path = Some (job_text j))) \<and>
     (\<forall>i < length jobs. \<forall>n. ph i = Writing n \<longrightarrow>
        d (tmp_path path (job_pid (jobs ! i)) (job_seq (jobs ! i))) = Some (take n (job_text (jobs ! i)))))"

lemma tmp_paths_differ:
  assumes "jobs_distinct jobs" and "i < length jobs" and "j < length jobs" and "i \<noteq> j"
  shows "tmp_path path (job_pid (jobs ! i)) (job_seq (jobs ! i)) \<noteq> tmp_path path (job_pid (jobs ! j)) (job_seq (jobs ! j))"
  using assms tmp_path_inj by (fastforce simp: jobs_distinct_def distinct_conv_nth)

lemma saving_inv_step:
  assumes "jobs_distinct jobs" and "saving_inv path jobs d0 st" and "save_step path jobs st st'"
  shows "saving_inv path jobs d0 st'"
proof -
  note other = tmp_path_other [symmetric]
  have same: "ia = i" if "tmp_path path (job_pid (jobs ! ia)) (job_seq (jobs ! ia)) = tmp_path path (job_pid (jobs ! i)) (job_seq (jobs ! i))"
    "ia < length jobs" "i < length jobs" for ia i
    using tmp_paths_differ [OF assms(1)] that by blast
  show ?thesis using assms(3)
  proof cases
    case (open_tmp i ph d)
    then show ?thesis using assms(2) by (auto simp: saving_inv_def other dest: same)
  next
    case (write_some i ph n m d)
    then show ?thesis using assms(2) by (auto simp: saving_inv_def other dest: same)
  next
    case (rename_tmp i ph d)
    have "jobs ! i \<in> set jobs" using rename_tmp(3) by simp
    moreover have "d (tmp_path path (job_pid (jobs ! i)) (job_seq (jobs ! i))) = Some (job_text (jobs ! i))"
      using assms(2) rename_tmp by (simp add: saving_inv_def)
    ultimately show ?thesis
      using rename_tmp assms(2) by (auto simp: saving_inv_def tmp_path_other other dest: same)
  qed
qed

section \<open>Properties\<close>

text \<open>
  What was saved is loaded again; a save whose write fails or stops short, or whose rename
  fails, reports an error and leaves the configuration as it was.
\<close>

lemma config_save_load:
  assumes "parse (dump (config_json shards)) = Some (config_json shards)" and "\<forall>ep \<in> set shards. endpoint_wf ep" and "shards \<noteq> []"
  shows "case save_cluster_config dump w renames pid seq path shards d of
      (None, d') \<Rightarrow> load_cluster_config parse path d' = Inr shards
    | (Some e, d') \<Rightarrow> d' path = d path"
proof -
  have "map_throw read_endpoint (map endpoint_json shards) = Some shards"
    using map_throw_map [of shards read_endpoint endpoint_json "\<lambda>x. x"] assms(2) read_endpoint_json by simp
  then have "Option.bind (Option.bind (parse (dump (config_json shards))) (json_at ''shards'')) (\<lambda>a. map_throw read_endpoint (json_items a))
      = Some shards"
    using assms(1) by (simp add: config_json_def)
  then show ?thesis
    using assms(3) tmp_path_other [of path pid seq]
    by (auto simp: save_cluster_config_def load_cluster_config_def write_file_def Let_def
        split: write_outcome.splits if_splits prod.splits option.splits)
qed

text \<open>
  C34: however many saves run at once, a reader finds at every moment the whole configuration
  from before or the whole text of one of the saves, because the temporary names differ.
\<close>

theorem concurrent_saves_whole:
  assumes "(save_step path jobs)\<^sup>*\<^sup>* (d0, \<lambda>_. NotStarted) (d, ph)" and "jobs_distinct jobs"
  shows "d path = d0 path \<or> (\<exists>j \<in> set jobs. d path = Some (job_text j))"
proof -
  have "saving_inv path jobs d0 st" if "(save_step path jobs)\<^sup>*\<^sup>* (d0, \<lambda>_. NotStarted) st" for st
    using that
  proof (induction rule: rtranclp_induct)
    case base
    show ?case by (simp add: saving_inv_def)
  next
    case (step st st')
    then show ?case using saving_inv_step [OF assms(2)] by blast
  qed
  from this [OF assms(1)] show ?thesis by (simp add: saving_inv_def)
qed

definition two_saves :: "save_job list" where
  "two_saves = [\<lparr>job_pid = 7, job_seq = 0, job_text = ''ab''\<rparr>, \<lparr>job_pid = 8, job_seq = 0, job_text = ''xy''\<rparr>]"

text \<open>Both saves have opened their file and the first has written one byte: the old text is still there.\<close>

theorem concurrent_saves_whole_witness:
  "\<exists>d ph. (save_step ''c'' two_saves)\<^sup>*\<^sup>* ([''c'' \<mapsto> ''old''], \<lambda>_. NotStarted) (d, ph) \<and>
     ph 0 = Writing 1 \<and> ph 1 = Writing 0 \<and> (d ''c'' = Some ''old'' \<or> (\<exists>j \<in> set two_saves. d ''c'' = Some (job_text j)))"
proof -
  let ?p = "\<lambda>i. tmp_path ''c'' (job_pid (two_saves ! i)) (job_seq (two_saves ! i))" and ?d = "[''c'' \<mapsto> ''old'']"
  have one: "save_step ''c'' two_saves (?d, \<lambda>_. NotStarted) (?d(?p 0 \<mapsto> ''''), (\<lambda>_. NotStarted)(0 := Writing 0))"
    by (rule open_tmp) (simp_all add: two_saves_def)
  have two: "save_step ''c'' two_saves (?d(?p 0 \<mapsto> ''''), (\<lambda>_. NotStarted)(0 := Writing 0))
      (?d(?p 0 \<mapsto> '''', ?p 1 \<mapsto> ''''), (\<lambda>_. NotStarted)(0 := Writing 0, 1 := Writing 0))"
    by (rule open_tmp) (simp_all add: two_saves_def)
  let ?d3 = "?d(?p 0 \<mapsto> '''', ?p 1 \<mapsto> '''', ?p 0 \<mapsto> take (0 + 1) (job_text (two_saves ! 0)))"
    and ?ph3 = "(\<lambda>_. NotStarted)(0 := Writing 0, 1 := Writing 0, 0 := Writing (0 + 1))"
  have three: "save_step ''c'' two_saves
      (?d(?p 0 \<mapsto> '''', ?p 1 \<mapsto> ''''), (\<lambda>_. NotStarted)(0 := Writing 0, 1 := Writing 0)) (?d3, ?ph3)"
    by (rule write_some) (simp_all add: two_saves_def)
  have run: "(save_step ''c'' two_saves)\<^sup>*\<^sup>* (?d, \<lambda>_. NotStarted) (?d3, ?ph3)"
    using one two three by (meson converse_rtranclp_into_rtranclp rtranclp.rtrancl_refl)
  have "jobs_distinct two_saves" by (simp add: jobs_distinct_def two_saves_def)
  from concurrent_saves_whole [OF run this] run show ?thesis
    by (intro exI [of _ ?d3] exI [of _ ?ph3]) simp
qed

end
