(* ===== verification/Server.thy ===== *)
theory Server
  imports Hnsw_Search Coordinator_Http
begin

text \<open>
  \<^verbatim>\<open>src/server.cpp\<close>: the single-node HTTP server, one index behind four routes.  A handler maps
  the request and the index to the response, or the exception it lets through, and the index
  afterwards.  JSON text, the draws of the random generator, the system's answers and the
  library's check that a string can be dumped (\<open>utf8\<close>) are parameters.  What the HTTP library
  does with an exception is its own matter; here it is the value \<open>Inl\<close>.
\<close>

section \<open>Reading the request\<close>

text \<open>
  \<open>get<uint32_t>()\<close>: integers wrap; a floating-point value is truncated to 64 bits and then
  wraps, as the common hardware does it.
\<close>

fun get_uint32 :: "json \<Rightarrow> nat option" where
  "get_uint32 (JInt i) = Some (nat (i mod 2 ^ 32))"
| "get_uint32 (JFloat r) = Some (nat (float_to_signed 64 r mod 2 ^ 32))"
| "get_uint32 (JBool b) = Some (if b then 1 else 0)"
| "get_uint32 _ = None"

text \<open>\<open>get<float>()\<close>.\<close>

fun get_float32 :: "json \<Rightarrow> f32 option" where
  "get_float32 (JInt i) = Some (round32 (of_int i))"
| "get_float32 (JFloat r) = Some (round32 r)"
| "get_float32 (JBool b) = Some (Fin (if b then 1 else 0))"
| "get_float32 _ = None"

fun json_size :: "json \<Rightarrow> nat" where
  "json_size JNull = 0"
| "json_size (JArr xs) = length xs"
| "json_size (JObj m) = length m"
| "json_size _ = 1"

text \<open>The loop over \<open>vec_json[i]\<close>: an index into anything but an array throws.\<close>

fun read_floats :: "json \<Rightarrow> f32 list option" where
  "read_floats (JArr xs) = map_throw get_float32 xs"
| "read_floats _ = None"

definition dim_mismatch :: http_response where
  "dim_mismatch = error_doc 400 (''vector dimension mismatch, expected '' @ to_string_nat VECTOR_DIM)"

definition status_ok :: "int \<Rightarrow> nat \<Rightarrow> http_response" where
  "status_ok st i = \<lparr>http_status = st, content = Doc (JObj [(''id'', JInt (int i)), (''status'', JStr ''ok'')])\<rparr>"

fun metric_to_string :: "distance_metric \<Rightarrow> string" where
  "metric_to_string L2 = ''L2''"
| "metric_to_string Cosine = ''Cosine''"
| "metric_to_string InnerProduct = ''InnerProduct''"

section \<open>The routes\<close>

datatype server_exn = StorageError mmap_error | OutOfRange

type_synonym reply = "((server_exn + http_response) \<times> hnsw) outcome"

text \<open>\<open>POST /vectors\<close>.\<close>

definition post_vectors :: "os_answers \<Rightarrow> rat list \<Rightarrow> (string \<Rightarrow> json option) \<Rightarrow> string \<Rightarrow> hnsw \<Rightarrow> reply" where
  "post_vectors os draws parse body h =
     (case parse body of
        None \<Rightarrow> Returns (Inr invalid_json, h)
      | Some j \<Rightarrow>
          if \<not> contains ''id'' j \<or> \<not> contains ''vector'' j
          then Returns (Inr (error_doc 400 ''missing required fields: id, vector''), h)
          else case (Option.bind (json_at ''id'' j) get_uint32, json_at ''vector'' j) of
            (Some i, Some vec_json) \<Rightarrow>
              if json_size vec_json \<noteq> VECTOR_DIM then Returns (Inr dim_mismatch, h)
              else (case (read_floats vec_json, json_value ''metadata'' get_string '''' j) of
                (Some vec, Some md) \<Rightarrow>
                  bind_outcome (hnsw_insert os draws vec i md h) (\<lambda>(err, h).
                    case err of Some e \<Rightarrow> Returns (Inl (StorageError e), h) | None \<Rightarrow> Returns (Inr (status_ok 201 i), h))
              | _ \<Rightarrow> Returns (Inr invalid_json, h))
          | _ \<Rightarrow> Returns (Inr invalid_json, h))"

text \<open>A distance in a document: the library prints what is not finite as \<open>null\<close>.\<close>

fun json_float :: "f32 \<Rightarrow> json" where
  "json_float (Fin x) = JFloat x"
| "json_float _ = JNull"

definition result_json :: "result \<Rightarrow> json" where
  "result_json r = JObj [(''distance'', json_float (r_distance r)), (''id'', JInt (int (r_id r))), (''metadata'', JStr (r_metadata r))]"

text \<open>\<open>POST /search\<close>.\<close>

definition post_search :: "(string \<Rightarrow> bool) \<Rightarrow> (string \<Rightarrow> json option) \<Rightarrow> string \<Rightarrow> hnsw \<Rightarrow> reply" where
  "post_search utf8 parse body h =
     (case parse body of
        None \<Rightarrow> Returns (Inr invalid_json, h)
      | Some j \<Rightarrow>
          if \<not> contains ''vector'' j \<or> \<not> contains ''k'' j
          then Returns (Inr (error_doc 400 ''missing required fields: vector, k''), h)
          else case (json_at ''vector'' j, Option.bind (json_at ''k'' j) get_int) of
            (Some vec_json, Some k) \<Rightarrow>
              if json_size vec_json \<noteq> VECTOR_DIM then Returns (Inr dim_mismatch, h)
              else if k \<le> 0 then Returns (Inr (error_doc 400 ''k must be positive''), h)
              else (case read_floats vec_json of
                None \<Rightarrow> Returns (Inr invalid_json, h)
              | Some vec \<Rightarrow> bind_outcome (search vec k h) (\<lambda>rs.
                  if \<exists>r \<in> set rs. \<not> utf8 (r_metadata r) then Returns (Inr invalid_json, h)
                  else Returns (Inr \<lparr>http_status = 200, content = Doc (JObj [(''results'', JArr (map result_json rs))])\<rparr>, h)))
          | _ \<Rightarrow> Returns (Inr invalid_json, h))"

text \<open>
  \<open>DELETE /vectors/<digits>\<close>: \<open>std::stoul\<close> throws from \<open>2 ^ 64\<close> on, and its result is narrowed to
  \<open>id_t\<close>.
\<close>

definition delete_route :: "string \<Rightarrow> hnsw \<Rightarrow> reply" where
  "delete_route digits h =
     (if digits_value digits \<ge> 2 ^ 64 then Returns (Inl OutOfRange, h)
      else let i = u32 (digits_value digits)
           in bind_outcome (delete_vector i h) (\<lambda>h. Returns (Inr (status_ok 200 i), h)))"

text \<open>\<open>GET /stats\<close>.\<close>

definition get_stats :: "hnsw \<Rightarrow> http_response" where
  "get_stats h = \<lparr>http_status = 200, content = Doc (JObj [(''element_count'', JInt (int (hnsw_size h))),
     (''metric'', JStr (metric_to_string (metric h))), (''vector_dim'', JInt (int VECTOR_DIM))])\<rparr>"

datatype server_request = PostVectors "rat list" string | PostSearch string | DeleteVector string | GetStats

fun serve :: "os_answers \<Rightarrow> (string \<Rightarrow> bool) \<Rightarrow> (string \<Rightarrow> json option) \<Rightarrow> server_request \<Rightarrow> hnsw \<Rightarrow> reply" where
  "serve os utf8 parse (PostVectors draws body) h = post_vectors os draws parse body h"
| "serve os utf8 parse (PostSearch body) h = post_search utf8 parse body h"
| "serve os utf8 parse (DeleteVector digits) h = delete_route digits h"
| "serve os utf8 parse GetStats h = Returns (Inr (get_stats h), h)"

text \<open>\<open>main\<close> up to the routes, \<open>None\<close> if the storage cannot be opened; and what it does after \<open>listen\<close>.\<close>

definition start_server :: "os_answers \<Rightarrow> string \<Rightarrow> contents files \<Rightarrow> disk \<Rightarrow> hnsw option outcome" where
  "start_server os data_dir fs d =
     (case open_mmap os zero_contents (data_dir @ ''/index.ndb'') (100 * 1024 * 1024) (new_mmap, fs) of
        (Some e, st) \<Rightarrow> Returns None
      | (None, st) \<Rightarrow>
          (let md = open_metadata (case d (data_dir @ ''/metadata.bin'') of None \<Rightarrow> '''' | Some bs \<Rightarrow> bs) new_metadata
           in bind_outcome (open_hnsw st md L2) (\<lambda>h. Returns (Some h))))"

definition stop_server :: "hnsw \<Rightarrow> hnsw" where
  "stop_server h = h\<lparr>storage := close_mmap (storage h)\<rparr>"

text \<open>A session: requests one after another, with their responses.\<close>

fun run_server :: "os_answers \<Rightarrow> (string \<Rightarrow> bool) \<Rightarrow> (string \<Rightarrow> json option) \<Rightarrow> server_request list \<Rightarrow> hnsw \<Rightarrow>
    ((server_exn + http_response) list \<times> hnsw) outcome" where
  "run_server os utf8 parse [] h = Returns ([], h)"
| "run_server os utf8 parse (r # rs) h =
     bind_outcome (serve os utf8 parse r h) (\<lambda>(a, h).
     bind_outcome (run_server os utf8 parse rs h) (\<lambda>(as, h). Returns (a # as, h)))"

section \<open>Sessions\<close>

lemma map_throw_length: "map_throw f xs = Some ys \<Longrightarrow> length ys = length xs"
  by (induction xs arbitrary: ys) (auto split: option.splits)

lemma read_floats_length: "read_floats j = Some vec \<Longrightarrow> length vec = json_size j"
  by (cases j) (auto dest: map_throw_length)

text \<open>Ids that fit into the storage as it is first opened, at levels below the fourth.\<close>

definition id_in_reach :: "nat \<Rightarrow> bool" where
  "id_in_reach i \<longleftrightarrow> i < 99296"

fun request_fits :: "(string \<Rightarrow> json option) \<Rightarrow> server_request \<Rightarrow> bool" where
  "request_fits parse (PostVectors draws body) \<longleftrightarrow> get_random_level draws < MAX_LAYERS \<and>
     (case Option.bind (Option.bind (parse body) (json_at ''id'')) get_uint32 of Some i \<Rightarrow> id_in_reach i | None \<Rightarrow> True)"
| "request_fits parse _ \<longleftrightarrow> True"

text \<open>
  The specification of a session.  A body that names an id and a vector of the right dimension,
  with text as metadata if there is any, is a vector posted; the server holds what was posted
  last under an id and not deleted since.
\<close>

definition posted :: "(string \<Rightarrow> json option) \<Rightarrow> string \<Rightarrow> (nat \<times> f32 list) option" where
  "posted parse body =
     (case parse body of
        None \<Rightarrow> None
      | Some j \<Rightarrow>
          (case (Option.bind (json_at ''id'' j) get_uint32, json_at ''vector'' j, json_value ''metadata'' get_string '''' j) of
             (Some i, Some v, Some md) \<Rightarrow> if json_size v = VECTOR_DIM then map_option (Pair i) (read_floats v) else None
           | _ \<Rightarrow> None))"

fun session_map :: "(string \<Rightarrow> json option) \<Rightarrow> server_request \<Rightarrow> (nat \<rightharpoonup> f32 list) \<Rightarrow> (nat \<rightharpoonup> f32 list)" where
  "session_map parse (PostVectors draws body) m = (case posted parse body of Some (i, v) \<Rightarrow> m(i \<mapsto> v) | None \<Rightarrow> m)"
| "session_map parse (DeleteVector digits) m = (if digits_value digits < 2 ^ 64 then m(u32 (digits_value digits) := None) else m)"
| "session_map parse _ m = m"

fun posted_ids :: "(string \<Rightarrow> json option) \<Rightarrow> server_request \<Rightarrow> nat set" where
  "posted_ids parse (PostVectors draws body) = (case posted parse body of Some (i, v) \<Rightarrow> {i} | None \<Rightarrow> {})"
| "posted_ids parse _ = {}"

fun answer_ok :: "(string \<Rightarrow> json option) \<Rightarrow> server_request \<Rightarrow> server_exn + http_response \<Rightarrow> bool" where
  "answer_ok parse (PostVectors draws body) a \<longleftrightarrow>
     (case posted parse body of Some (i, v) \<Rightarrow> a = Inr (status_ok 201 i) | None \<Rightarrow> \<exists>r. a = Inr r \<and> http_status r = 400)"
| "answer_ok parse (PostSearch body) a \<longleftrightarrow> (\<exists>r. a = Inr r \<and> http_status r \<in> {200, 400})"
| "answer_ok parse (DeleteVector digits) a \<longleftrightarrow>
     a = (if digits_value digits < 2 ^ 64 then Inr (status_ok 200 (u32 (digits_value digits))) else Inl OutOfRange)"
| "answer_ok parse GetStats a \<longleftrightarrow> (\<exists>r. a = Inr r \<and> http_status r = 200)"

text \<open>The deletions of ids that no request before has posted.\<close>

fun stray_deletes :: "(string \<Rightarrow> json option) \<Rightarrow> nat set \<Rightarrow> server_request list \<Rightarrow> nat" where
  "stray_deletes parse S [] = 0"
| "stray_deletes parse S (r # rs) =
     (case r of DeleteVector digits \<Rightarrow> (if u32 (digits_value digits) \<in> S then 0 else 1) | _ \<Rightarrow> 0) +
     stray_deletes parse (S \<union> posted_ids parse r) rs"

section \<open>The element count\<close>

text \<open>
  The count as an integer: it is at least the number of live nodes less the stray deletions, and
  at most the number of insertions.
\<close>

definition counts :: "nat set \<Rightarrow> nat \<Rightarrow> nat \<Rightarrow> hnsw \<Rightarrow> bool" where
  "counts S strays inserts h \<longleftrightarrow>
     (\<exists>z. int (element_count h) = z mod 2 ^ 64 \<and> int (card (live S h)) - int strays \<le> z \<and> z \<le> int inserts)"

lemma count_ok_int:
  assumes "int c = z mod 2 ^ 64" and "- 2000 \<le> z" and "z < 2 ^ 62"
  shows "count_ok c"
proof (cases "0 \<le> z")
  case True
  then have "c < 2 ^ 62" using assms(1,3) by simp
  then show ?thesis by (rule count_ok_small)
next
  case False
  then have "(z + 2 ^ 64) mod 2 ^ 64 = z + 2 ^ 64" using assms(2) by (intro mod_pos_pos_trivial) simp_all
  then have "z mod 2 ^ 64 = z + 2 ^ 64" by simp
  then have "int c = z + 2 ^ 64" using assms(1) by simp
  then have "2 ^ 64 - 2000 \<le> c" "c < 2 ^ 64" using assms(2) False by simp_all
  then show ?thesis by (rule count_ok_wrapped)
qed

lemma int_u64: "int c = z mod 2 ^ 64 \<Longrightarrow> int (u64 (c + 1)) = (z + 1) mod 2 ^ 64"
  by (simp add: u64_def zmod_int mod_simps add.commute)

lemma int_u64_sub: "int c = z mod 2 ^ 64 \<Longrightarrow> int (u64_sub c 1) = (z - 1) mod 2 ^ 64"
proof -
  assume c: "int c = z mod 2 ^ 64"
  then have "(z - 1) mod 2 ^ 64 = (int c - 1) mod 2 ^ 64" by (simp add: mod_diff_left_eq)
  moreover have "c < 2 ^ 64" using c pos_mod_bound [of "2 ^ 64" z] by simp
  ultimately show ?thesis by (cases "c = 0") (simp_all add: u64_sub_def)
qed

definition server_ok :: "nat set \<Rightarrow> nat \<Rightarrow> nat \<Rightarrow> hnsw \<Rightarrow> bool" where
  "server_ok S strays inserts h \<longleftrightarrow> graph_ok S h \<and> finite S \<and> 100 * 1024 * 1024 \<le> get_size h \<and> counts S strays inserts h"

definition server_view :: "nat set \<Rightarrow> hnsw \<Rightarrow> nat \<rightharpoonup> f32 list" where
  "server_view S h i = (if i \<in> live S h then Some (nd_vector (nodes h i)) else None)"

lemma server_count:
  assumes "server_ok S strays inserts h" and "strays \<le> 2000" and "inserts + 1 < 2 ^ 62"
  shows "count_ok (u64 (element_count h + 1))"
  using assms count_ok_int [OF int_u64] by (fastforce simp: server_ok_def counts_def)

section \<open>The requests\<close>

lemma post_vectors_ok:
  assumes "server_ok S strays inserts h" and "strays \<le> 2000" and "inserts + 1 < 2 ^ 62"
    and "request_fits parse (PostVectors draws body)"
  shows "\<exists>a h'. post_vectors os_ok draws parse body h = Returns (a, h') \<and> answer_ok parse (PostVectors draws body) a \<and>
    server_ok (S \<union> posted_ids parse (PostVectors draws body)) strays (inserts + 1) h' \<and>
    server_view (S \<union> posted_ids parse (PostVectors draws body)) h' = session_map parse (PostVectors draws body) (server_view S h)"
proof (cases "posted parse body")
  case None
  then have "\<exists>r. post_vectors os_ok draws parse body h = Returns (Inr r, h) \<and> http_status r = 400"
    by (auto simp: posted_def post_vectors_def invalid_json_def error_doc_def dim_mismatch_def split: option.splits if_splits)
  moreover have "server_ok S strays (inserts + 1) h" using assms(1) by (fastforce simp: server_ok_def counts_def)
  ultimately show ?thesis using None by auto
next
  case (Some iv)
  obtain i vec where iv: "iv = (i, vec)" by fastforce
  then obtain j v md where j: "parse body = Some j" "Option.bind (json_at ''id'' j) get_uint32 = Some i"
    "json_at ''vector'' j = Some v" "json_size v = VECTOR_DIM" "read_floats v = Some vec" "json_value ''metadata'' get_string '''' j = Some md"
    using Some by (auto simp: posted_def split: option.splits if_splits)
  have len: "length vec = VECTOR_DIM" using read_floats_length [OF j(5)] j(4) by simp
  have g: "graph_ok S h" "100 * 1024 * 1024 \<le> get_size h" "finite S" using assms(1) by (simp_all add: server_ok_def)
  have "insert_ok draws vec i h"
    using assms(4) j(1,2) len g(2) server_count [OF assms(1-3)]
    by (simp add: id_in_reach_def insert_ok_def metadata_fits_def node_end_def HEADER_SIZE_def NODE_SIZE_def no_id_def)
  moreover have "nodes_ok S h" "entry_point_id h = no_id \<or>
      (entry_point_id h \<in> insert i S \<and> 0 \<le> current_max_layer h \<and> current_max_layer h < int MAX_LAYERS)"
    using g(1) by (auto simp: graph_ok_def split: if_splits)
  ultimately obtain h' where h': "hnsw_insert os_ok draws vec i md h = Returns (None, h')" "graph_ok (insert i S) h'"
    "inserted i vec (get_random_level draws) h h'" using insert_core by blast
  have "counts (insert i S) strays (inserts + 1) h'"
  proof -
    obtain z where z: "int (element_count h) = z mod 2 ^ 64" "int (card (live S h)) - int strays \<le> z" "z \<le> int inserts"
      using assms(1) by (auto simp: server_ok_def counts_def)
    have "int (element_count h') = (z + 1) mod 2 ^ 64" using h'(3) int_u64 [OF z(1)] by (simp add: inserted_def)
    moreover have "card (live (insert i S) h') \<le> Suc (card (live S h))" by (rule live_inserted [OF h'(3) g(3)])
    ultimately show ?thesis unfolding counts_def using z(2,3) by (intro exI [of _ "z + 1"]) auto
  qed
  then have "server_ok (insert i S) strays (inserts + 1) h'"
    using h'(2,3) g by (simp add: server_ok_def inserted_def)
  moreover have "server_view (insert i S) h' = (server_view S h)(i \<mapsto> vec)"
    using h'(3) len by (auto simp: server_view_def live_def inserted_def)
  moreover have "post_vectors os_ok draws parse body h = Returns (Inr (status_ok 201 i), h')"
    using j h'(1) by (auto simp: post_vectors_def contains_iff)
  ultimately show ?thesis using Some iv by simp
qed

lemma delete_any_ok:
  assumes "server_ok S strays inserts h" and "strays + (if i \<in> S then 0 else 1) \<le> 2000" and "inserts < 2 ^ 62"
  shows "\<exists>h'. delete_vector i h = Returns h' \<and> server_ok S (strays + (if i \<in> S then 0 else 1)) inserts h' \<and>
    server_view S h' = (server_view S h)(i := None)"
proof -
  have g: "graph_ok S h" "finite S" "100 * 1024 * 1024 \<le> get_size h" "mapped h"
    using assms(1) by (simp_all add: server_ok_def graph_ok_def nodes_ok_def)
  obtain z where z: "int (element_count h) = z mod 2 ^ 64" "int (card (live S h)) - int strays \<le> z" "z \<le> int inserts"
    using assms(1) by (auto simp: server_ok_def counts_def)
  have more: "counts S (strays + n) inserts h" for n unfolding counts_def using z by (intro exI [of _ z]) simp
  show ?thesis
  proof (cases "node_end i > get_size h \<or> is_deleted (nodes h i)")
    case True
    then have "i \<notin> live S h" using g(1) by (auto simp: live_def graph_ok_def nodes_ok_def)
    moreover have "delete_vector i h = Returns h"
      using True g(4) get_node_Returns [of h i "nodes h i"] by (auto simp: delete_vector_def storage_simps)
    ultimately show ?thesis using g more by (auto simp: server_ok_def server_view_def fun_eq_iff)
  next
    case False
    define h' where "h' = persist_header (set_node_at i (nodes h i\<lparr>is_deleted := True\<rparr>) h\<lparr>element_count := u64_sub (element_count h) 1\<rparr>)"
    have "get_node h i = Returns (nodes h i)" using g(4) False by (simp add: get_node_Returns storage_simps)
    then have del: "delete_vector i h = Returns h'" using False by (simp add: delete_vector_def h'_def Let_def storage_simps)
    have h': "nodes h' = (nodes h)(i := nodes h i\<lparr>is_deleted := True\<rparr>)" "element_count h' = u64_sub (element_count h) 1" "get_size h' = get_size h"
      by (simp_all add: h'_def storage_simps)
    have c: "int (element_count h') = (z - 1) mod 2 ^ 64" using int_u64_sub [OF z(1)] h'(2) by simp
    have live: "live S h' = live S h - {i}" using h'(1) by (auto simp: live_def)
    have fin: "finite (live S h)" using g(2) by (simp add: live_def)
    have low: "int (card (live S h')) - int (strays + (if i \<in> S then 0 else 1)) \<le> z - 1"
    proof (cases "i \<in> S")
      case True
      then have "i \<in> live S h" using False by (simp add: live_def)
      then have "0 < card (live S h)" using fin card_gt_0_iff by blast
      then show ?thesis using z(2) True live card_Diff_singleton [OF \<open>i \<in> live S h\<close>] by simp
    next
      case False
      then have "live S h' = live S h" using live by (auto simp: live_def)
      then show ?thesis using z(2) False by simp
    qed
    have "- 2000 \<le> z - 1" using low assms(2) by simp
    moreover have "z - 1 < 2 ^ 62" using z(3) assms(3) by simp
    ultimately have "count_ok (element_count h')" by (rule count_ok_int [OF c])
    then have "graph_ok S h'"
    proof (cases "i \<in> S")
      case True
      with \<open>count_ok (element_count h')\<close> h'(2) delete_keeps_graph [OF g(1) True] del show ?thesis by auto
    next
      case False
      with \<open>count_ok (element_count h')\<close> g(1) show ?thesis by (auto simp: h'_def graph_ok_def nodes_ok_def storage_simps)
    qed
    moreover have "counts S (strays + (if i \<in> S then 0 else 1)) inserts h'"
      unfolding counts_def using c low z(3) by (intro exI [of _ "z - 1"]) simp
    moreover have "server_view S h' = (server_view S h)(i := None)"
      using live h'(1) by (auto simp: server_view_def live_def fun_eq_iff)
    ultimately show ?thesis using del g h'(3) by (auto simp: server_ok_def)
  qed
qed

lemma post_search_ok:
  assumes "graph_ok S h"
  shows "\<exists>a. post_search utf8 parse body h = Returns (Inr a, h) \<and> http_status a \<in> {200, 400}"
proof (cases "\<exists>j v k vec. parse body = Some j \<and> json_at ''vector'' j = Some v \<and>
    Option.bind (json_at ''k'' j) get_int = Some k \<and> json_size v = VECTOR_DIM \<and> 0 < k \<and> read_floats v = Some vec")
  case True
  then obtain j v k vec where j: "parse body = Some j" "json_at ''vector'' j = Some v" "Option.bind (json_at ''k'' j) get_int = Some k"
    "json_size v = VECTOR_DIM" "0 < k" "read_floats v = Some vec" by blast
  then obtain rs where "search vec k h = Returns rs"
    using search_returns [OF assms, of vec k] read_floats_length by fastforce
  with j show ?thesis by (auto simp: post_search_def contains_iff invalid_json_def)
next
  case False
  then show ?thesis
    by (auto simp: post_search_def invalid_json_def error_doc_def dim_mismatch_def split: option.splits)
qed

lemma serve_ok:
  assumes "server_ok S strays inserts h" and "request_fits parse r" and "inserts + 1 < 2 ^ 62"
    and "strays + stray_deletes parse S [r] \<le> 2000"
  shows "\<exists>a h'. serve os_ok utf8 parse r h = Returns (a, h') \<and> answer_ok parse r a \<and>
    server_ok (S \<union> posted_ids parse r) (strays + stray_deletes parse S [r]) (inserts + 1) h' \<and>
    server_view (S \<union> posted_ids parse r) h' = session_map parse r (server_view S h)"
proof -
  have later: "server_ok S n (inserts + 1) h'" if "server_ok S n inserts h'" for n h'
    using that by (fastforce simp: server_ok_def counts_def)
  show ?thesis
  proof (cases r)
    case (PostVectors draws body)
    then show ?thesis using post_vectors_ok [OF assms(1), of parse draws body] assms(2-4) by simp
  next
    case (PostSearch body)
    then show ?thesis using post_search_ok [of S h utf8 parse body] assms(1) later by (fastforce simp: server_ok_def)
  next
    case (DeleteVector digits)
    show ?thesis
    proof (cases "digits_value digits < 2 ^ 64")
      case True
      with DeleteVector delete_any_ok [OF assms(1), of "u32 (digits_value digits)"] assms(3,4) later show ?thesis
        by (auto simp: delete_route_def Let_def)
    next
      case False
      moreover have "server_ok S (strays + n) (inserts + 1) h" for n using assms(1) by (fastforce simp: server_ok_def counts_def)
      ultimately show ?thesis using DeleteVector by (auto simp: delete_route_def)
    qed
  next
    case GetStats
    then show ?thesis using later [OF assms(1)] by (auto simp: get_stats_def)
  qed
qed

lemma run_server_ok:
  assumes "server_ok S strays inserts h" and "\<forall>r \<in> set rs. request_fits parse r" and "inserts + length rs < 2 ^ 62"
    and "strays + stray_deletes parse S rs \<le> 2000"
  shows "\<exists>as h'. run_server os_ok utf8 parse rs h = Returns (as, h') \<and> list_all2 (answer_ok parse) rs as \<and>
    graph_ok (S \<union> \<Union> (posted_ids parse ` set rs)) h' \<and>
    server_view (S \<union> \<Union> (posted_ids parse ` set rs)) h' = fold (session_map parse) rs (server_view S h)"
  using assms
proof (induction rs arbitrary: S strays inserts h)
  case Nil
  then show ?case by (simp add: server_ok_def)
next
  case (Cons r rs)
  have split: "stray_deletes parse S (r # rs) = stray_deletes parse S [r] + stray_deletes parse (S \<union> posted_ids parse r) rs" by simp
  obtain a h1 where a: "serve os_ok utf8 parse r h = Returns (a, h1)" "answer_ok parse r a"
    "server_ok (S \<union> posted_ids parse r) (strays + stray_deletes parse S [r]) (inserts + 1) h1"
    "server_view (S \<union> posted_ids parse r) h1 = session_map parse r (server_view S h)"
    using serve_ok [OF Cons.prems(1), of parse r utf8] Cons.prems(2-4) split by fastforce
  from Cons.IH [OF a(3)] Cons.prems(2-4) split
  obtain as h' where "run_server os_ok utf8 parse rs h1 = Returns (as, h')" "list_all2 (answer_ok parse) rs as"
    "graph_ok (S \<union> posted_ids parse r \<union> \<Union> (posted_ids parse ` set rs)) h'"
    "server_view (S \<union> posted_ids parse r \<union> \<Union> (posted_ids parse ` set rs)) h' = fold (session_map parse) rs (server_view (S \<union> posted_ids parse r) h1)"
    by fastforce
  with a show ?case by (simp add: Un_assoc)
qed

lemma fresh_server_ok:
  assumes "fs (dir @ ''/index.ndb'') = None"
  shows "\<exists>h. start_server os_ok dir fs d = Returns (Some h) \<and> graph_ok {} h \<and> element_count h = 0 \<and> nodes h = (\<lambda>_. zero_node) \<and>
    get_size h = 100 * 1024 * 1024 \<and> metric h = L2"
  using assms
  by (auto simp: start_server_def open_mmap_def os_ok_def new_mmap_def Let_def open_hnsw_def contents_of_def zero_contents_def
      NANODB_MAGIC_def graph_ok_def nodes_ok_def mapped_def set_contents_def get_size_def count_ok_small)

section \<open>Properties\<close>

text \<open>
  C22: a server started on an empty directory answers every request of a session, whatever the
  bodies and paths hold, as long as levels stay below the fourth, posted ids below 99296 (the
  nodes that fit into the first 100 MiB), and at most 2000 requests delete an id that none
  before has posted (they count down the elements without limit).  A post is answered with 201
  exactly if its body is well formed, a deletion with ok unless the number does not fit 64 bits.
  Afterwards the graph is closed over the posted ids, and each of them has the vector that was
  posted last, or none if it was deleted since.
\<close>

theorem server_session_safe:
  assumes "fs (dir @ ''/index.ndb'') = None" and "\<forall>r \<in> set rs. request_fits parse r" and "length rs < 2 ^ 62"
    and "stray_deletes parse {} rs \<le> 2000" and "start_server os_ok dir fs d = Returns (Some h)"
  defines "ids \<equiv> \<Union> (posted_ids parse ` set rs)"
  shows "\<exists>as h'. run_server os_ok utf8 parse rs h = Returns (as, h') \<and> list_all2 (answer_ok parse) rs as \<and> graph_ok ids h' \<and>
    (\<forall>i \<in> ids. get_vector_data i h' = Returns (case fold (session_map parse) rs Map.empty i of Some v \<Rightarrow> v | None \<Rightarrow> []))"
proof -
  have h: "graph_ok {} h" "element_count h = 0" "get_size h = 100 * 1024 * 1024"
    using fresh_server_ok [of fs dir d, OF assms(1)] assms(5) by auto
  then have "server_ok {} 0 0 h" by (auto simp: server_ok_def counts_def live_def intro!: exI [of _ 0])
  from run_server_ok [OF this assms(2), of utf8] assms(3,4)
  obtain as h' where r: "run_server os_ok utf8 parse rs h = Returns (as, h')" "list_all2 (answer_ok parse) rs as" "graph_ok ids h'"
    "server_view ids h' = fold (session_map parse) rs (server_view {} h)" by (auto simp: ids_def)
  have "server_view {} h = Map.empty" by (simp add: server_view_def live_def fun_eq_iff)
  moreover have "get_vector_data i h' = Returns (case server_view ids h' i of Some v \<Rightarrow> v | None \<Rightarrow> [])" if "i \<in> ids" for i
    using get_node_ok [of ids h' i] r(3) that
    by (auto simp: get_vector_data_def server_view_def live_def graph_ok_def nodes_ok_def node_ok_def)
  ultimately show ?thesis using r by auto
qed

definition sample_body :: json where
  "sample_body = JObj [(''id'', JInt 3), (''vector'', JArr (replicate 128 (JInt 1)))]"

lemma sample_body_fields: "json_at ''id'' sample_body = Some (JInt 3)"
  by (simp add: sample_body_def)

lemma sample_body_posted: "posted (\<lambda>_. Some sample_body) body = Some (3, sample_vec 1)"
proof -
  have "map_throw get_float32 (replicate n (JInt 1)) = Some (replicate n (Fin 1))" for n
    using round32_of_int [of 1] by (induction n) simp_all
  then show ?thesis by (simp add: posted_def sample_body_def VECTOR_DIM_def sample_vec_def)
qed

theorem server_session_safe_witness:
  "\<exists>h as h'. start_server os_ok ''data'' Map.empty Map.empty = Returns (Some h) \<and>
     run_server os_ok (\<lambda>_. True) (\<lambda>_. Some sample_body) [DeleteVector ''7'', PostVectors [1 / 2] ''{}'', GetStats] h = Returns (as, h') \<and>
     as ! 0 = Inr (status_ok 200 7) \<and> as ! 1 = Inr (status_ok 201 3) \<and> get_vector_data 3 h' = Returns (sample_vec 1)"
proof -
  let ?rs = "[DeleteVector ''7'', PostVectors [1 / 2] ''{}'', GetStats]" and ?parse = "\<lambda>_. Some sample_body"
  obtain h where h: "start_server os_ok ''data'' Map.empty Map.empty = Returns (Some h)"
    using fresh_server_ok [of Map.empty "''data''" Map.empty] by auto
  have fits: "\<forall>r \<in> set ?rs. request_fits ?parse r"
    by (simp add: sample_body_fields id_in_reach_def get_random_level_def LEVEL_THRESHOLD_def MAX_LAYERS_def)
  have seven: "digits_value ''7'' = 7" by (simp add: digits_value_def)
  obtain as h' where r: "run_server os_ok (\<lambda>_. True) ?parse ?rs h = Returns (as, h')" "list_all2 (answer_ok ?parse) ?rs as"
    "get_vector_data 3 h' = Returns (case fold (session_map ?parse) ?rs Map.empty 3 of Some v \<Rightarrow> v | None \<Rightarrow> [])"
    using server_session_safe [OF _ fits _ _ h, of "\<lambda>_. True"] by (auto simp: sample_body_posted)
  then have "as ! 0 = Inr (status_ok 200 7)" "as ! 1 = Inr (status_ok 201 3)"
    using list_all2_nthD2 [OF r(2), of 0] list_all2_nthD2 [OF r(2), of 1] list_all2_lengthD [OF r(2)]
    by (auto simp: sample_body_posted seven u32_def)
  with h r show ?thesis by (auto simp: sample_body_posted seven u32_def)
qed

text \<open>
  \<open>DELETE /vectors/n\<close> deletes the vector whose id is \<open>n\<close> modulo \<open>2 ^ 32\<close> and answers ok with that
  id: a request for a number past the ids removes an unrelated vector.  From \<open>2 ^ 64\<close> on the
  handler throws and nothing changes.
\<close>

lemma delete_route_narrows_id:
  assumes "graph_ok S h" and "i \<in> S" and "i < 2 ^ 32" and "n = i + m * 2 ^ 32" and "count_ok (u64_sub (element_count h) 1)"
  shows "if n < 2 ^ 64
    then \<exists>h'. delete_route (to_string_nat n) h = Returns (Inr (status_ok 200 i), h') \<and>
           get_vector_data i h' = Returns [] \<and> nodes h' = (nodes h)(i := nodes h i\<lparr>is_deleted := True\<rparr>)
    else delete_route (to_string_nat n) h = Returns (Inl OutOfRange, h)"
proof -
  have i: "u32 n = i" using assms(3,4) by (simp add: u32_def)
  obtain h' where h': "delete_vector i h = Returns h'" "graph_ok S h'" "nodes h' = (nodes h)(i := nodes h i\<lparr>is_deleted := True\<rparr>)"
    using delete_keeps_graph [OF assms(1,2)] assms(5) by blast
  have "get_node h' i = Returns (nodes h' i)" using h'(2) assms(2) get_node_ok by (auto simp: graph_ok_def)
  then have "get_vector_data i h' = Returns []" using h'(3) by (simp add: get_vector_data_def)
  with h' i show ?thesis by (auto simp: delete_route_def)
qed

text \<open>
  Deleting an id that was never stored, on a server just started, makes the number of
  elements that \<open>GET /stats\<close> reports wrap to \<open>2 ^ 64 - 1\<close>.
\<close>

lemma delete_unwritten_wraps_count:
  assumes "fs (dir @ ''/index.ndb'') = None" and "start_server os_ok dir fs d = Returns (Some h)" and "id_in_reach i"
  shows "\<exists>h'. delete_route (to_string_nat i) h = Returns (Inr (status_ok 200 i), h') \<and>
    get_stats h' = \<lparr>http_status = 200, content = Doc (JObj [(''element_count'', JInt (2 ^ 64 - 1)),
      (''metric'', JStr ''L2''), (''vector_dim'', JInt 128)])\<rparr>"
proof -
  have h: "graph_ok {} h" "element_count h = 0" "nodes h i = zero_node" "get_size h = 100 * 1024 * 1024" and mt: "metric h = L2"
    using fresh_server_ok [of fs dir d, OF assms(1)] assms(2) by auto
  have fits: "node_end i \<le> get_size h" using assms(3) h(4) by (simp add: id_in_reach_def node_end_def HEADER_SIZE_def NODE_SIZE_def)
  moreover have "mapped h" using h(1) by (simp add: graph_ok_def nodes_ok_def)
  ultimately have "get_node h i = Returns zero_node" using h(3) by (simp add: get_node_Returns storage_simps)
  moreover have "u32 i = i" "i < 2 ^ 64" using assms(3) by (simp_all add: id_in_reach_def u32_def)
  ultimately show ?thesis
    using fits h(2) mt
    by (auto simp: delete_route_def delete_vector_def zero_node_def Let_def get_stats_def hnsw_size_def storage_simps
        u64_sub_def VECTOR_DIM_def)
qed

end
