(* ===== verification/Decimal.thy ===== *)
theory Decimal
  imports Float32 Prelude
begin

text \<open>
  The \<open>double\<close> of the metrics, and the text of a floating-point number in an output stream,
  which the metrics and the demo program print.
\<close>

section \<open>Doubles\<close>

text \<open>
  A \<open>double\<close> has the shape of a \<open>float\<close>, with 53 bits of precision and exponents down to
  \<open>-1022\<close>; a sum that is not of two finite values does not depend on the precision.
\<close>

type_synonym f64 = f32

definition round64 :: "rat \<Rightarrow> f64" where
  "round64 q =
     (if q = 0 then Fin 0
      else let u = pow2 (max (exponent \<bar>q\<bar>) (- 1022) - 52); r = of_int (nearest (q / u)) * u in
           if r \<ge> pow2 1024 then PInf else if r \<le> - pow2 1024 then NInf else Fin r)"

fun dadd :: "f64 \<Rightarrow> f64 \<Rightarrow> f64" where
  "dadd (Fin a) (Fin b) = round64 (a + b)"
| "dadd x y = fadd x y"

text \<open>
  A \<open>double\<close> in a stream: six significant digits without trailing zeros, in scientific form if
  the exponent is below \<open>-4\<close> or above 5.
\<close>

definition pow10 :: "int \<Rightarrow> rat" where
  "pow10 e = (if e \<ge> 0 then 10 ^ nat e else 1 / 10 ^ nat (- e))"

definition decimal_exponent :: "rat \<Rightarrow> int" where
  "decimal_exponent a =
     (let k = exponent a * 30103 div 100000
      in if pow10 (k + 1) \<le> a then k + 1 else if pow10 k \<le> a then k else k - 1)"

definition strip_zeros :: "string \<Rightarrow> string" where
  "strip_zeros s = rev (dropWhile (\<lambda>c. c = CHR ''0'') (rev s))"

definition with_fraction :: "string \<Rightarrow> string \<Rightarrow> string" where
  "with_fraction whole digits = (if strip_zeros digits = '''' then whole else whole @ ''.'' @ strip_zeros digits)"

definition exponent_text :: "int \<Rightarrow> string" where
  "exponent_text x = (if x < 0 then ''e-'' else ''e+'') @ (if \<bar>x\<bar> < 10 then ''0'' else '''') @ to_string_nat (nat \<bar>x\<bar>)"

definition show_positive :: "rat \<Rightarrow> string" where
  "show_positive a =
     (let x = decimal_exponent a; m = nearest (a * pow10 (5 - x));
          (x, m) = (if m = 1000000 then (x + 1, 100000) else (x, m));
          ds = to_string_nat (nat m)
      in if x < - 4 \<or> x \<ge> 6 then with_fraction (take 1 ds) (drop 1 ds) @ exponent_text x
         else if x < 0 then with_fraction ''0'' (replicate (nat (- x - 1)) (CHR ''0'') @ ds)
         else with_fraction (take (nat x + 1) ds) (drop (nat x + 1) ds))"

fun show_double :: "f64 \<Rightarrow> string" where
  "show_double NaN = ''nan''"
| "show_double PInf = ''inf''"
| "show_double NInf = ''-inf''"
| "show_double (Fin q) = (if q = 0 then ''0'' else if q < 0 then ''-'' @ show_positive (- q) else show_positive q)"

end
