(* ===== verification/Demo.thy ===== *)
theory Demo
  imports Hnsw_Frame Decimal
begin

text \<open>
  \<^verbatim>\<open>src/main.cpp\<close>: the demo program.  It opens an index on a file, inserts ten thousand random
  vectors with metadata, searches near one of them and prints a table.  The draws of the two
  generators (\<open>mt19937\<close> in \<open>main\<close> and the one behind \<open>get_random_level\<close>) are arguments; the
  progress lines with their timings are not modelled.
\<close>

section \<open>The program\<close>

definition NUM_VECTORS :: nat where
  "NUM_VECTORS = 10000"

text \<open>The generator is its stream of draws and the position in it.\<close>

definition generate_random_vector :: "(nat \<Rightarrow> f32) \<Rightarrow> nat \<Rightarrow> f32 list \<times> nat" where
  "generate_random_vector draw pos = (map (\<lambda>i. draw (pos + i)) [0..<VECTOR_DIM], pos + VECTOR_DIM)"

fun generate_dataset :: "(nat \<Rightarrow> f32) \<Rightarrow> nat \<Rightarrow> nat \<Rightarrow> f32 list list" where
  "generate_dataset draw 0 pos = []"
| "generate_dataset draw (Suc n) pos =
     (let (vec, pos) = generate_random_vector draw pos in vec # generate_dataset draw n pos)"

definition item_name :: "nat \<Rightarrow> string" where
  "item_name i = ''Item_'' @ to_string (int i)"

text \<open>The loop over the data set; an exception of the storage leaves \<open>main\<close>.\<close>

fun insert_items :: "os_answers \<Rightarrow> (nat \<Rightarrow> rat list) \<Rightarrow> f32 list list \<Rightarrow> nat \<Rightarrow> hnsw \<Rightarrow> (mmap_error option \<times> hnsw) outcome" where
  "insert_items os level_draws [] i index = Returns (None, index)"
| "insert_items os level_draws (vec # dataset) i index =
     bind_outcome (hnsw_insert os (level_draws i) vec i (item_name i) index) (\<lambda>(e, index).
       case e of Some e \<Rightarrow> Returns (Some e, index) | None \<Rightarrow> insert_items os level_draws dataset (i + 1) index)"

text \<open>\<open>left << setw(n)\<close>, and the table.\<close>

definition setw :: "nat \<Rightarrow> string \<Rightarrow> string" where
  "setw n s = s @ replicate (n - length s) (CHR '' '')"

definition endl :: string where
  "endl = [CHR 0x0A]"

definition result_row :: "nat \<Rightarrow> result \<Rightarrow> string" where
  "result_row i r = setw 10 (to_string (int (i + 1))) @ setw 10 (to_string (int (r_id r))) @ setw 15 (r_metadata r) @
     show_double (r_distance r) @ endl"

definition print_results :: "result list \<Rightarrow> string" where
  "print_results results =
     setw 10 ''Rank'' @ setw 10 ''ID'' @ setw 15 ''Metadata'' @ ''Distance'' @ endl @
     replicate 56 (CHR ''-'') @ endl @ concat (map2 result_row [0..<length results] results)"

text \<open>How \<open>main\<close> ends: with status 1, by an uncaught exception, or with its table and the closed storage.\<close>

datatype demo_end = OpenError mmap_error | Terminated mmap_error | Finished string hnsw

definition demo_main ::
  "os_answers \<Rightarrow> (nat \<Rightarrow> f32) \<Rightarrow> (nat \<Rightarrow> rat list) \<Rightarrow> contents files \<Rightarrow> disk \<Rightarrow> demo_end outcome" where
  "demo_main os draw level_draws fs d =
     (case open_mmap os zero_contents ''data/index.ndb'' (50 * 1024 * 1024) (new_mmap, fs) of
        (Some e, st) \<Rightarrow> Returns (OpenError e)
      | (None, st) \<Rightarrow>
          let md = open_metadata (case d ''data/metadata.bin'' of None \<Rightarrow> '''' | Some bs \<Rightarrow> bs) new_metadata;
              dataset = generate_dataset draw NUM_VECTORS 0
          in bind_outcome (open_hnsw st md L2) (\<lambda>index.
             bind_outcome (insert_items os level_draws dataset 0 index) (\<lambda>(e, index).
               case e of
                 Some e \<Rightarrow> Returns (Terminated e)
               | None \<Rightarrow>
                   let query = dataset ! 500;
                       query = query[0 := fadd (query ! 0) (round32 (1 / 1000))]
                   in bind_outcome (search query 5 index) (\<lambda>results.
                        Returns (Finished (print_results results) (index\<lparr>storage := close_mmap (storage index)\<rparr>))))))"

section \<open>The data set\<close>

lemma length_generate_dataset [simp]: "length (generate_dataset draw n pos) = n"
  by (induction n arbitrary: pos) (simp_all add: generate_random_vector_def)

lemma generate_dataset_nth:
  "i < n \<Longrightarrow> generate_dataset draw n pos ! i = map (\<lambda>j. draw (pos + i * VECTOR_DIM + j)) [0..<VECTOR_DIM]"
  by (induction n arbitrary: pos i) (auto simp: generate_random_vector_def nth_Cons' algebra_simps gr0_conv_Suc)

section \<open>The insertions\<close>

text \<open>After \<open>n\<close> insertions of the data set.\<close>

definition items_in :: "f32 list list \<Rightarrow> nat \<Rightarrow> hnsw \<Rightarrow> bool" where
  "items_in dataset n h \<longleftrightarrow> graph_ok {..<n} h \<and> metric h = L2 \<and> 50 * 1024 * 1024 \<le> get_size h \<and>
     element_count h = n \<and> metadata_wf (metadata h) \<and>
     (\<forall>i < n. nd_vector (nodes h i) = dataset ! i \<and> \<not> is_deleted (nodes h i) \<and> hnsw_metadata i h = item_name i)"

lemma item_inserted:
  assumes "items_in dataset n h" and "n < NUM_VECTORS" and "length (dataset ! n) = VECTOR_DIM"
    and "get_random_level draws < MAX_LAYERS"
  shows "\<exists>h'. hnsw_insert os_ok draws (dataset ! n) n (item_name n) h = Returns (None, h') \<and> items_in dataset (Suc n) h'"
proof -
  have g: "graph_ok {..<n} h" "metric h = L2" "50 * 1024 * 1024 \<le> get_size h" "element_count h = n" "metadata_wf (metadata h)"
    and old: "\<forall>i < n. nd_vector (nodes h i) = dataset ! i \<and> \<not> is_deleted (nodes h i) \<and> hnsw_metadata i h = item_name i"
    using assms(1) by (simp_all add: items_in_def)
  have ins: "insert_ok draws (dataset ! n) n h"
    using assms(2-4) g(3,4)
    by (simp add: insert_ok_def metadata_fits_def NUM_VECTORS_def no_id_def node_end_def HEADER_SIZE_def NODE_SIZE_def count_ok_small u64_def)
  have "nodes_ok {..<n} h" "entry_point_id h = no_id \<or>
      (entry_point_id h \<in> insert n {..<n} \<and> 0 \<le> current_max_layer h \<and> current_max_layer h < int MAX_LAYERS)"
    using g(1) by (auto simp: graph_ok_def split: if_splits)
  from insert_core [OF this(1) ins this(2), of "item_name n"]
  obtain h' where h': "hnsw_insert os_ok draws (dataset ! n) n (item_name n) h = Returns (None, h')"
    "graph_ok (insert n {..<n}) h'" "inserted n (dataset ! n) (get_random_level draws) h h'" by blast
  note save = hnsw_insert_files(2) [OF h'(1)]
  have small: "as_int i = int i" if "i \<le> n" for i using that assms(2) by (simp add: as_int_def NUM_VECTORS_def)
  have "item_name n \<noteq> ''''" by (simp add: item_name_def)
  from get_after_save [OF g(5) save this] have md: "hnsw_metadata i h' = (if i = n then item_name n else hnsw_metadata i h)" if "i \<le> n" for i
    using small [OF that] small [of n] by (simp add: hnsw_metadata_def)
  moreover have "metadata_wf (metadata h')" by (rule save_metadata_wf [OF g(5) save])
  moreover have "u64 (Suc n) = Suc n" using assms(2) by (simp add: u64_def NUM_VECTORS_def)
  ultimately have "items_in dataset (Suc n) h'"
    using h'(2,3) g old assms(3) by (auto simp: items_in_def inserted_def lessThan_Suc less_Suc_eq)
  with h'(1) show ?thesis by blast
qed

lemma insert_items_ok:
  assumes "items_in dataset n h" and "n + length vs \<le> NUM_VECTORS" and "drop n dataset = vs"
    and "\<forall>v \<in> set vs. length v = VECTOR_DIM" and "\<forall>i < NUM_VECTORS. get_random_level (level_draws i) < MAX_LAYERS"
  shows "\<exists>h'. insert_items os_ok level_draws vs n h = Returns (None, h') \<and> items_in dataset (n + length vs) h'"
  using assms
proof (induction vs arbitrary: n h)
  case (Cons v vs)
  have "n < length dataset" using Cons.prems(3) by (metis drop_eq_Nil linorder_not_less list.distinct(1))
  then have v: "v = dataset ! n" "drop (Suc n) dataset = vs" using Cons.prems(3) by (simp_all add: Cons_nth_drop_Suc [symmetric])
  moreover have "n < NUM_VECTORS" using Cons.prems(2) by simp
  ultimately obtain h1 where h1: "hnsw_insert os_ok (level_draws n) v n (item_name n) h = Returns (None, h1)"
    "items_in dataset (Suc n) h1"
    using item_inserted [OF Cons.prems(1), of "level_draws n"] Cons.prems(4,5) by auto
  from Cons.IH [OF h1(2) _ v(2)] Cons.prems h1(1) show ?case by simp
qed simp

lemma fresh_demo:
  assumes "fs ''data/index.ndb'' = None"
  shows "\<exists>st h. open_mmap os_ok zero_contents ''data/index.ndb'' (50 * 1024 * 1024) (new_mmap, fs) = (None, st) \<and>
    open_hnsw st (open_metadata '''' new_metadata) L2 = Returns h \<and> items_in dataset 0 h"
proof -
  have "metadata_wf (open_metadata '''' new_metadata)"
    by (simp add: open_metadata_def new_metadata_def metadata_wf_def rebuild_offsets.simps)
  then show ?thesis
    using assms
    by (auto simp: open_mmap_def os_ok_def new_mmap_def Let_def open_hnsw_def contents_of_def zero_contents_def
        NANODB_MAGIC_def items_in_def graph_ok_def nodes_ok_def mapped_def set_contents_def get_size_def count_ok_small)
qed

text \<open>The noise added to the query keeps it finite.\<close>

lemma noisy_finite:
  assumes "0 \<le> a" and "a \<le> 1"
  shows "\<exists>b. fadd (Fin a) (round32 (1 / 1000)) = Fin b"
proof -
  obtain c where c: "round32 (1 / 1000) = Fin c" using round32_finite [of "1 / 1000"] by (auto simp: pow2_def)
  have "round32 1 = Fin 1" by (rule round32_exact [where m = 1 and k = 0]) (simp_all add: pow2_def)
  then have "Fin c \<le> Fin 1" "Fin 0 \<le> Fin c"
    using round32_mono [of "1 / 1000" 1] round32_nonneg_le [of "1 / 1000"] c by simp_all
  then have "\<bar>a + c\<bar> \<le> pow2 127" using assms by (simp add: pow2_def)
  then show ?thesis using round32_finite [of "a + c"] c by auto
qed

lemma dataset_finite:
  assumes "\<forall>n. \<exists>a. draw n = Fin a \<and> 0 \<le> a \<and> a \<le> 1" and "i < n"
  shows "finite_vec (generate_dataset draw n 0 ! i)" "length (generate_dataset draw n 0 ! i) = VECTOR_DIM"
    "\<exists>a. generate_dataset draw n 0 ! i ! 0 = Fin a \<and> 0 \<le> a \<and> a \<le> 1"
  using assms by (auto simp: generate_dataset_nth finite_vec_def VECTOR_DIM_def dest: spec)

section \<open>Properties\<close>

text \<open>
  C39: the demo program on an empty directory, with any draws from the unit interval and levels below the
  fourth, runs to its end: it prints between one and five rows, nearest first, each for another
  inserted vector, with that vector's metadata and its distance from the query.
\<close>

theorem demo_prints_items:
  assumes "fs ''data/index.ndb'' = None" and "d ''data/metadata.bin'' = None" and "\<forall>n. \<exists>a. draw n = Fin a \<and> 0 \<le> a \<and> a \<le> 1"
    and "\<forall>i < NUM_VECTORS. get_random_level (level_draws i) < MAX_LAYERS"
  defines "dataset \<equiv> generate_dataset draw NUM_VECTORS 0"
  defines "query \<equiv> (dataset ! 500)[0 := fadd (dataset ! 500 ! 0) (round32 (1 / 1000))]"
  shows "\<exists>rs h. demo_main os_ok draw level_draws fs d = Returns (Finished (print_results rs) h) \<and>
    rs \<noteq> [] \<and> length rs \<le> 5 \<and> closer_first rs \<and> distinct (map r_id rs) \<and> element_count h = NUM_VECTORS \<and>
    (\<forall>r \<in> set rs. r_id r < NUM_VECTORS \<and> r_metadata r = item_name (r_id r) \<and>
       r_distance r = compute_distance query (dataset ! r_id r) VECTOR_DIM L2)"
proof -
  have data: "finite_vec (dataset ! i)" "length (dataset ! i) = VECTOR_DIM" if "i < NUM_VECTORS" for i
    using dataset_finite [OF assms(3) that] by (simp_all add: dataset_def)
  obtain st h0 where st: "open_mmap os_ok zero_contents ''data/index.ndb'' (50 * 1024 * 1024) (new_mmap, fs) = (None, st)"
    "items_in dataset 0 h0" "open_hnsw st (open_metadata '''' new_metadata) L2 = Returns h0"
    using fresh_demo [of fs, OF assms(1)] by blast
  have "\<forall>v \<in> set dataset. length v = VECTOR_DIM" using data(2) by (auto simp: in_set_conv_nth dataset_def)
  from insert_items_ok [OF st(2) _ _ this assms(4)]
  obtain h where h: "insert_items os_ok level_draws dataset 0 h0 = Returns (None, h)"
    "items_in dataset NUM_VECTORS h" by (auto simp: dataset_def)
  have five: "500 < NUM_VECTORS" by (simp add: NUM_VECTORS_def)
  obtain a where "dataset ! 500 ! 0 = Fin a" "0 \<le> a" "a \<le> 1"
    using dataset_finite(3) [OF assms(3) five] by (auto simp: dataset_def)
  then have q: "finite_vec query" "length query = VECTOR_DIM"
    using noisy_finite [of a] data [OF five] set_update_subset_insert [of "dataset ! 500" 0]
    by (fastforce simp: query_def finite_vec_def)+
  have g: "graph_ok {..<NUM_VECTORS} h" and L2: "metric h = L2"
    and items: "\<forall>i < NUM_VECTORS. nd_vector (nodes h i) = dataset ! i \<and> \<not> is_deleted (nodes h i) \<and> hnsw_metadata i h = item_name i"
    using h(2) by (simp_all add: items_in_def)
  have "no_NaN {..<NUM_VECTORS} h query" using items data(1) by (intro L2_no_NaN [OF L2 q(1)]) simp
  from search_found [OF g _ this, of 5] q(2)
  obtain rs where rs: "search query 5 h = Returns rs" "closer_first rs" "distinct (map r_id rs)" "length rs \<le> 5"
    "\<forall>r \<in> set rs. r_id r \<in> {..<NUM_VECTORS} \<and> r_distance r = D h query (r_id r) \<and> r_metadata r = hnsw_metadata (r_id r) h"
    by auto
  moreover have "rs \<noteq> []" using search_finds [OF g _ _ _ _ rs(1)] items q(2) five by auto
  moreover have "demo_main os_ok draw level_draws fs d =
      Returns (Finished (print_results rs) (h\<lparr>storage := close_mmap (storage h)\<rparr>))"
    using st(1,3) h(1) rs(1) assms(2) by (simp add: demo_main_def dataset_def [symmetric] query_def Let_def)
  ultimately show ?thesis using items L2 h(2) by (auto simp: items_in_def)
qed

theorem demo_prints_items_witness:
  "\<exists>rs h. demo_main os_ok (\<lambda>n. Fin (of_nat (n mod 97) / 97)) (\<lambda>_. [1 / 2]) Map.empty Map.empty =
      Returns (Finished (print_results rs) h) \<and> rs \<noteq> [] \<and> length rs \<le> 5"
proof -
  have "of_nat (n mod 97) / 97 \<le> (1 :: rat)" for n by (simp add: order_less_imp_le)
  then have "\<forall>n. \<exists>a. Fin (of_nat (n mod 97) / 97 :: rat) = Fin a \<and> 0 \<le> a \<and> a \<le> 1" by (metis divide_nonneg_nonneg of_nat_0_le_iff zero_le_numeral)
  from demo_prints_items [OF _ _ this, of Map.empty Map.empty "\<lambda>_. [1 / 2]"] show ?thesis
    by (fastforce simp: get_random_level_def LEVEL_THRESHOLD_def MAX_LAYERS_def)
qed

end
