(* ===== verification/Quantizer.thy ===== *)
theory Quantizer
  imports Float32 Prelude
begin

text \<open>
  \<^verbatim>\<open>include/index/quantizer.hpp\<close>: the scalar quantizer, which maps each component of a vector
  from the range seen in training to a signed byte.  Reading an array past its end, converting
  a NaN to an integer and overflow of the integer sum are \<open>Undefined\<close>.
\<close>

section \<open>The quantizer\<close>

record quantizer =
  q_min :: "f32 list"
  q_max :: "f32 list"
  q_dim :: nat
  trained :: bool

definition new_quantizer :: quantizer where
  "new_quantizer = \<lparr>q_min = [], q_max = [], q_dim = 0, trained = False\<rparr>"

datatype quant_error = NotTrained

definition FLT_MAX :: f32 where
  "FLT_MAX = Fin (pow2 128 - pow2 104)"

definition narrow_min :: "f32 \<Rightarrow> f32 \<Rightarrow> f32" where
  "narrow_min m x = (if x < m then x else m)"

definition widen_max :: "f32 \<Rightarrow> f32 \<Rightarrow> f32" where
  "widen_max m x = (if m < x then x else m)"

definition train_vector :: "nat \<Rightarrow> f32 list \<times> f32 list \<Rightarrow> f32 list \<Rightarrow> f32 list \<times> f32 list" where
  "train_vector dims r v =
     (case r of (mins, maxs) \<Rightarrow> (map2 narrow_min mins (take dims v), map2 widen_max maxs (take dims v)))"

definition train :: "f32 list list \<Rightarrow> quantizer \<Rightarrow> quantizer outcome" where
  "train vecs q =
     (if vecs = [] then Returns q
      else let dims = length (hd vecs) in
           if \<exists>v \<in> set vecs. length v < dims then Undefined
           else let (mins, maxs) = foldl (train_vector dims) (replicate dims FLT_MAX, replicate dims (fneg FLT_MAX)) vecs
                in Returns \<lparr>q_min = mins, q_max = maxs, q_dim = dims, trained = True\<rparr>)"

text \<open>\<open>std::clamp\<close>, and the cast of a \<open>float\<close> that fits a signed byte.\<close>

definition clamp :: "f32 \<Rightarrow> f32 \<Rightarrow> f32 \<Rightarrow> f32" where
  "clamp v lo hi = (if v < lo then lo else if hi < v then hi else v)"

definition toward_zero :: "rat \<Rightarrow> int" where
  "toward_zero a = (if 0 \<le> a then \<lfloor>a\<rfloor> else \<lceil>a\<rceil>)"

fun to_int8 :: "f32 \<Rightarrow> int outcome" where
  "to_int8 (Fin a) = (let t = toward_zero a in if - 128 \<le> t \<and> t \<le> 127 then Returns t else Undefined)"
| "to_int8 _ = Undefined"

definition normalized_to :: "f32 \<Rightarrow> f32 \<Rightarrow> f32 \<Rightarrow> f32" where
  "normalized_to lo hi x =
     (let range = fsub hi lo in if round32 (1 / 10 ^ 9) < range then fdiv (fsub x lo) range else Fin 0)"

definition quantize_component :: "f32 \<Rightarrow> f32 \<Rightarrow> f32 \<Rightarrow> int outcome" where
  "quantize_component lo hi x =
     to_int8 (clamp (fsub (fmul (normalized_to lo hi x) (Fin 254)) (Fin 127)) (Fin (- 127)) (Fin 127))"

fun map_outcome :: "('a \<Rightarrow> 'b outcome) \<Rightarrow> 'a list \<Rightarrow> 'b list outcome" where
  "map_outcome f [] = Returns []"
| "map_outcome f (x # xs) = bind_outcome (f x) (\<lambda>y. bind_outcome (map_outcome f xs) (\<lambda>ys. Returns (y # ys)))"

definition quantize :: "f32 list \<Rightarrow> nat \<Rightarrow> quantizer \<Rightarrow> (quant_error + int list) outcome" where
  "quantize vec n q =
     (if \<not> trained q then Returns (Inl NotTrained)
      else if n > length vec \<or> n > length (q_min q) \<or> n > length (q_max q) then Undefined
      else bind_outcome (map_outcome (\<lambda>i. quantize_component (q_min q ! i) (q_max q ! i) (vec ! i)) [0..<n]) (\<lambda>cs. Returns (Inr cs)))"

definition dequantize_component :: "f32 \<Rightarrow> f32 \<Rightarrow> int \<Rightarrow> f32" where
  "dequantize_component lo hi c =
     (let range = fsub hi lo; normalized = fdiv (fadd (Fin (of_int c)) (Fin 127)) (Fin 254)
      in fadd lo (fmul normalized range))"

definition dequantize :: "int list \<Rightarrow> nat \<Rightarrow> quantizer \<Rightarrow> (quant_error + f32 list) outcome" where
  "dequantize cs n q =
     (if \<not> trained q then Returns (Inl NotTrained)
      else if n > length cs \<or> n > length (q_min q) \<or> n > length (q_max q) then Undefined
      else Returns (Inr (map (\<lambda>i. dequantize_component (q_min q ! i) (q_max q ! i) (cs ! i)) [0..<n])))"

text \<open>The loop of \<open>quantize_distance\<close>: a signed sum that leaves 32 bits is undefined.\<close>

fun sum_squares :: "(int \<times> int) list \<Rightarrow> int \<Rightarrow> int outcome" where
  "sum_squares [] s = Returns s"
| "sum_squares ((a, b) # ps) s =
     (let s = s + (a - b) * (a - b) in if s < 2 ^ 31 then sum_squares ps s else Undefined)"

definition quantize_distance :: "int list \<Rightarrow> int list \<Rightarrow> nat \<Rightarrow> int outcome" where
  "quantize_distance a b n = (if n > length a \<or> n > length b then Undefined else sum_squares (zip (take n a) (take n b)) 0)"

definition is_trained :: "quantizer \<Rightarrow> bool" where
  "is_trained q = trained q"

section \<open>Components\<close>

lemma NInf_le: "x \<noteq> NaN \<Longrightarrow> NInf \<le> x"
  by (cases x) (simp_all add: less_eq_f32_def)

lemma le_PInf: "x \<noteq> NaN \<Longrightarrow> x \<le> PInf"
  by (cases x) (simp_all add: less_eq_f32_def)

lemma f32_le_cases:
  assumes "x \<le> y"
  obtains "x = NInf" "y \<noteq> NaN" | "y = PInf" "x \<noteq> NaN" | a b where "x = Fin a" "y = Fin b" "a \<le> b"
  using assms by (cases x; cases y) (auto simp: less_eq_f32_def)

lemma f32_le_not_NaN: "x \<le> y \<Longrightarrow> (x :: f32) \<noteq> NaN"
  by (auto simp: less_eq_f32_def)

lemma fsub_mono: "x \<le> y \<Longrightarrow> fsub x (Fin a) \<le> fsub y (Fin a)"
  by (erule f32_le_cases; cases x; cases y) (auto simp: fsub_def intro: NInf_le le_PInf round32_mono)

lemma fdiv_mono: "x \<le> y \<Longrightarrow> 0 < r \<Longrightarrow> fdiv x (Fin r) \<le> fdiv y (Fin r)"
  by (erule f32_le_cases; cases x; cases y) (auto intro!: NInf_le le_PInf round32_mono divide_right_mono)

lemma fmul_mono: "x \<le> y \<Longrightarrow> 0 < r \<Longrightarrow> fmul x (Fin r) \<le> fmul y (Fin r)"
  by (erule f32_le_cases; cases x; cases y) (auto simp: signed_inf_def intro: NInf_le le_PInf round32_mono mult_right_mono)

text \<open>A value whose difference with another of its kind does not overflow.\<close>

definition moderate :: "f32 \<Rightarrow> bool" where
  "moderate x \<longleftrightarrow> (\<exists>a. x = Fin a \<and> \<bar>a\<bar> \<le> pow2 126)"

lemma range_finite:
  assumes "moderate lo" and "moderate hi"
  shows "\<exists>r. fsub hi lo = Fin r"
proof -
  obtain a b where ab: "lo = Fin a" "hi = Fin b" "\<bar>a\<bar> \<le> pow2 126" "\<bar>b\<bar> \<le> pow2 126" using assms by (auto simp: moderate_def)
  have "pow2 127 = 2 * pow2 126" using pow2_add [of 1 126] by (simp add: pow2_def)
  then have "\<bar>b - a\<bar> \<le> pow2 127" using ab(3,4) by linarith
  then show ?thesis using ab(1,2) round32_finite [of "b - a"] by (simp add: fsub_def)
qed

definition scaled :: "f32 \<Rightarrow> f32 \<Rightarrow> f32 \<Rightarrow> f32" where
  "scaled lo hi x = fsub (fmul (normalized_to lo hi x) (Fin 254)) (Fin 127)"

lemma round32_tiny: "Fin 0 \<le> round32 (1 / 10 ^ 9)"
  by (rule round32_nonneg_le) simp

lemma scaled_mono:
  assumes "moderate lo" and "moderate hi" and "x \<le> y"
  shows "scaled lo hi x \<le> scaled lo hi y"
proof -
  obtain r where r: "fsub hi lo = Fin r" using range_finite [OF assms(1,2)] by blast
  obtain a where a: "lo = Fin a" using assms(1) by (auto simp: moderate_def)
  have "normalized_to lo hi x \<le> normalized_to lo hi y"
  proof (cases "round32 (1 / 10 ^ 9) < Fin r")
    case True
    then have "0 < r" using round32_tiny by (cases "round32 (1 / 10 ^ 9)") (auto simp: less_eq_f32_def)
    with True r a fsub_mono [OF assms(3)] show ?thesis by (simp add: normalized_to_def Let_def fdiv_mono)
  next
    case False
    then show ?thesis using r by (simp add: normalized_to_def Let_def less_eq_f32_def)
  qed
  then show ?thesis unfolding scaled_def by (intro fsub_mono fmul_mono) simp_all
qed

lemma to_int8_clamp:
  assumes "y \<noteq> NaN"
  shows "\<exists>c. to_int8 (clamp y (Fin (- 127)) (Fin 127)) = Returns c \<and> - 127 \<le> c \<and> c \<le> 127"
proof -
  have "\<exists>a. clamp y (Fin (- 127)) (Fin 127) = Fin a \<and> - 127 \<le> a \<and> a \<le> 127"
    using assms by (cases y) (auto simp: clamp_def)
  then obtain a where a: "clamp y (Fin (- 127)) (Fin 127) = Fin a" "- 127 \<le> a" "a \<le> 127" by blast
  have "- 127 \<le> toward_zero a" "toward_zero a \<le> 127" using a(2,3) by (auto simp: toward_zero_def floor_le_iff le_floor_iff ceiling_le_iff le_ceiling_iff)
  with a(1) show ?thesis by (auto simp: Let_def)
qed

lemma toward_zero_mono:
  assumes "a \<le> b"
  shows "toward_zero a \<le> toward_zero b"
proof -
  have "\<lfloor>a\<rfloor> \<le> \<lfloor>b\<rfloor>" "\<lceil>a\<rceil> \<le> \<lceil>b\<rceil>" using assms by (simp_all add: floor_mono ceiling_mono)
  moreover have "\<lceil>a\<rceil> \<le> \<lfloor>b\<rfloor>" if "\<not> 0 \<le> a" "0 \<le> b"
    by (rule order.trans [where b = 0]) (use that in \<open>simp_all add: ceiling_le_iff\<close>)
  ultimately show ?thesis using assms by (auto simp: toward_zero_def)
qed

lemma clamp_mono: "x \<le> y \<Longrightarrow> clamp x (Fin (- 127)) (Fin 127) \<le> clamp y (Fin (- 127)) (Fin 127)"
  by (erule f32_le_cases; cases x; cases y) (auto simp: clamp_def)

lemma to_int8_mono: "x \<le> y \<Longrightarrow> to_int8 x = Returns c \<Longrightarrow> to_int8 y = Returns d \<Longrightarrow> c \<le> d"
  by (erule f32_le_cases) (auto simp: Let_def dest: toward_zero_mono split: if_splits)

lemma quantize_component_ok:
  assumes "moderate lo" and "moderate hi" and "x \<noteq> NaN"
  shows "\<exists>c. quantize_component lo hi x = Returns c \<and> - 127 \<le> c \<and> c \<le> 127"
proof -
  have "x \<le> x" using assms(3) by (simp add: less_eq_f32_def)
  then have "scaled lo hi x \<noteq> NaN" using scaled_mono [OF assms(1,2)] f32_le_not_NaN by blast
  from to_int8_clamp [OF this] show ?thesis unfolding quantize_component_def scaled_def .
qed

lemma quantize_component_mono:
  assumes "moderate lo" and "moderate hi" and "x \<le> y"
    and "quantize_component lo hi x = Returns c" and "quantize_component lo hi y = Returns d"
  shows "c \<le> d"
  using to_int8_mono [OF clamp_mono [OF scaled_mono [OF assms(1-3)]]] assms(4,5) by (simp add: quantize_component_def scaled_def)

lemma scale_ints: "fsub (fmul (Fin 0) (Fin 254)) (Fin 127) = Fin (- 127)" "fsub (fmul (Fin 1) (Fin 254)) (Fin 127) = Fin 127"
  using fsub_int [of 0 127] fsub_int [of 254 127] fmul_int [of 0 254] fmul_int [of 1 254] by (simp_all add: fsub_def)

lemma quantize_low_end:
  assumes "lo = Fin a"
  shows "quantize_component lo hi lo = Returns (- 127)"
proof -
  have "\<not> round32 (1 / 10 ^ 9) < Fin 0" using round32_tiny by (cases "round32 (1 / 10 ^ 9)") (auto simp: less_eq_f32_def)
  then have "normalized_to lo hi lo = Fin 0"
    by (cases "fsub hi lo") (auto simp: normalized_to_def Let_def assms fsub_def)
  then show ?thesis unfolding quantize_component_def by (simp only: scale_ints) (simp add: clamp_def toward_zero_def)
qed

lemma quantize_narrow:
  assumes "\<not> round32 (1 / 10 ^ 9) < fsub hi lo"
  shows "quantize_component lo hi x = Returns (- 127)"
proof -
  have "normalized_to lo hi x = Fin 0" using assms by (simp add: normalized_to_def Let_def)
  then show ?thesis unfolding quantize_component_def by (simp only: scale_ints) (simp add: clamp_def toward_zero_def)
qed

lemma quantize_high_end:
  assumes "moderate lo" and "moderate hi" and "round32 (1 / 10 ^ 9) < fsub hi lo"
  shows "quantize_component lo hi hi = Returns 127"
proof -
  obtain r where r: "fsub hi lo = Fin r" using range_finite [OF assms(1,2)] by blast
  then have "0 < r" using round32_tiny assms(3) by (cases "round32 (1 / 10 ^ 9)") (auto simp: less_eq_f32_def)
  moreover have "round32 1 = Fin 1" using round32_of_int [of 1] by simp
  ultimately have "normalized_to lo hi hi = Fin 1" using r assms(3) by (simp add: normalized_to_def Let_def)
  then show ?thesis unfolding quantize_component_def by (simp only: scale_ints) (simp add: clamp_def toward_zero_def)
qed

section \<open>Training\<close>

lemma narrow_min_fold:
  assumes "xs \<noteq> []" and "\<forall>x \<in> set xs. moderate x"
  shows "foldl narrow_min FLT_MAX xs \<in> set xs \<and> (\<forall>x \<in> set xs. foldl narrow_min FLT_MAX xs \<le> x)"
  using assms
proof (induction xs rule: rev_induct)
  case Nil
  then show ?case by simp
next
  case (snoc x xs)
  obtain a where a: "x = Fin a" "\<bar>a\<bar> \<le> pow2 126" using snoc.prems(2) by (auto simp: moderate_def)
  show ?case
  proof (cases "xs = []")
    case True
    have "pow2 126 < pow2 128 - pow2 104" by (simp add: pow2_def)
    then have "x < FLT_MAX" using a by (simp add: FLT_MAX_def)
    then show ?thesis using True a(1) by (simp add: narrow_min_def)
  next
    case False
    let ?m = "foldl narrow_min FLT_MAX xs"
    have m: "?m \<in> set xs" "\<forall>y \<in> set xs. ?m \<le> y" using snoc.IH [OF False] snoc.prems(2) by auto
    obtain b where b: "?m = Fin b" using m(1) snoc.prems(2) by (auto simp: moderate_def)
    have f: "foldl narrow_min FLT_MAX (xs @ [x]) = (if x < ?m then x else ?m)" by (simp add: narrow_min_def [of ?m])
    show ?thesis
    proof (cases "x < ?m")
      case True
      then have "x \<le> ?m" by (simp add: less_eq_f32_def)
      then have "\<forall>y \<in> set xs. x \<le> y" using m(2) f32_le_trans by blast
      then show ?thesis unfolding f using True a(1) by auto
    next
      case False
      then show ?thesis unfolding f using m a(1) b by auto
    qed
  qed
qed

text \<open>The maximum is the minimum of the negated values.\<close>

lemma fneg_less: "fneg x < fneg y \<longleftrightarrow> y < x"
  by (cases x; cases y) auto

lemma widen_max_fold: "foldl widen_max (fneg m) xs = fneg (foldl narrow_min m (map fneg xs))"
proof (induction xs arbitrary: m)
  case Nil
  then show ?case by simp
next
  case (Cons x xs)
  have "widen_max (fneg m) x = fneg (narrow_min m (fneg x))"
    using fneg_less [of m "fneg x"] fneg_less [of x "fneg m"] by (simp add: widen_max_def narrow_min_def)
  then show ?case using Cons by simp
qed

lemma moderate_fneg [simp]: "moderate (fneg x) \<longleftrightarrow> moderate x"
  by (cases x) (auto simp: moderate_def)

lemma widen_max_bounds:
  assumes "xs \<noteq> []" and "\<forall>x \<in> set xs. moderate x"
  shows "foldl widen_max (fneg FLT_MAX) xs \<in> set xs \<and> (\<forall>x \<in> set xs. x \<le> foldl widen_max (fneg FLT_MAX) xs)"
proof -
  let ?m = "foldl narrow_min FLT_MAX (map fneg xs)"
  have m: "?m \<in> fneg ` set xs" "\<forall>x \<in> set xs. ?m \<le> fneg x" using narrow_min_fold [of "map fneg xs"] assms by auto
  have "x \<le> fneg ?m" if "x \<in> set xs" for x using fneg_mono [of ?m "fneg x"] m(2) that by simp
  with m(1) show ?thesis unfolding widen_max_fold by auto
qed

lemma train_fold:
  assumes "\<forall>v \<in> set vecs. dims \<le> length v" and "length mins = dims" and "length maxs = dims"
  shows "foldl (train_vector dims) (mins, maxs) vecs =
    (map (\<lambda>i. foldl narrow_min (mins ! i) (map (\<lambda>v. v ! i) vecs)) [0..<dims],
     map (\<lambda>i. foldl widen_max (maxs ! i) (map (\<lambda>v. v ! i) vecs)) [0..<dims])"
  using assms
proof (induction vecs arbitrary: mins maxs)
  case Nil
  then show ?case by (auto intro: nth_equalityI)
next
  case (Cons v vecs)
  let ?mins = "map2 narrow_min mins (take dims v)" and ?maxs = "map2 widen_max maxs (take dims v)"
  have "length ?mins = dims" "length ?maxs = dims" using Cons.prems by simp_all
  with Cons.IH [of ?mins ?maxs] Cons.prems show ?case by (simp add: train_vector_def)
qed

definition trained_on :: "f32 list list \<Rightarrow> quantizer \<Rightarrow> bool" where
  "trained_on vecs q \<longleftrightarrow> vecs \<noteq> [] \<and> (\<forall>v \<in> set vecs. \<forall>x \<in> set v. moderate x) \<and> (\<exists>q0. train vecs q0 = Returns q)"

lemma trained_onI:
  assumes "train vecs q0 = Returns q" and "vecs \<noteq> []"
    and "\<forall>v \<in> set vecs. \<forall>x \<in> set v. \<exists>a. x = Fin a \<and> \<bar>a\<bar> \<le> 2 ^ 126"
  shows "trained_on vecs q"
proof -
  have "pow2 126 = 2 ^ 126" by (simp add: pow2_def)
  with assms show ?thesis unfolding trained_on_def moderate_def by auto
qed

lemma trained_unfold:
  assumes "trained_on vecs q"
  defines "n \<equiv> length (hd vecs)"
  shows "\<forall>v \<in> set vecs. n \<le> length v"
    and "q = \<lparr>q_min = map (\<lambda>i. foldl narrow_min FLT_MAX (map (\<lambda>v. v ! i) vecs)) [0..<n],
      q_max = map (\<lambda>i. foldl widen_max (fneg FLT_MAX) (map (\<lambda>v. v ! i) vecs)) [0..<n], q_dim = n, trained = True\<rparr>"
proof -
  show long: "\<forall>v \<in> set vecs. n \<le> length v"
    using assms(1) by (auto simp: trained_on_def train_def Let_def n_def split: if_splits)
  have "foldl (train_vector n) (replicate n FLT_MAX, replicate n (fneg FLT_MAX)) vecs =
      (map (\<lambda>i. foldl narrow_min FLT_MAX (map (\<lambda>v. v ! i) vecs)) [0..<n],
       map (\<lambda>i. foldl widen_max (fneg FLT_MAX) (map (\<lambda>v. v ! i) vecs)) [0..<n])"
    using train_fold [OF long, of "replicate n FLT_MAX" "replicate n (fneg FLT_MAX)"] by (simp cong: map_cong)
  then show "q = \<lparr>q_min = map (\<lambda>i. foldl narrow_min FLT_MAX (map (\<lambda>v. v ! i) vecs)) [0..<n],
      q_max = map (\<lambda>i. foldl widen_max (fneg FLT_MAX) (map (\<lambda>v. v ! i) vecs)) [0..<n], q_dim = n, trained = True\<rparr>"
    using assms(1) by (auto simp: trained_on_def train_def Let_def n_def split: if_splits)
qed

lemma trained_lengths:
  assumes "trained_on vecs q"
  shows "trained q" "length (q_min q) = q_dim q" "length (q_max q) = q_dim q"
  by (subst trained_unfold(2) [OF assms], simp)+

lemma trained_range:
  assumes "trained_on vecs q" and "i < q_dim q"
  shows "moderate (q_min q ! i)" "moderate (q_max q ! i)" "\<forall>v \<in> set vecs. q_min q ! i \<le> v ! i \<and> v ! i \<le> q_max q ! i"
    "q_min q ! i \<in> (\<lambda>v. v ! i) ` set vecs" "q_max q ! i \<in> (\<lambda>v. v ! i) ` set vecs"
proof -
  let ?n = "length (hd vecs)" and ?xs = "map (\<lambda>v. v ! i) vecs"
  note long = trained_unfold(1) [OF assms(1)] and q = trained_unfold(2) [OF assms(1)]
  have ne: "vecs \<noteq> []" using assms(1) by (simp add: trained_on_def)
  have i: "i < ?n" using assms(2) q by (metis quantizer.select_convs(3))
  then have mod: "\<forall>x \<in> set ?xs. moderate x" using assms(1) long by (fastforce simp: trained_on_def)
  have mm: "q_min q ! i = foldl narrow_min FLT_MAX ?xs" "q_max q ! i = foldl widen_max (fneg FLT_MAX) ?xs"
    using i by (subst q, simp)+
  note lo = narrow_min_fold [of ?xs] and hi = widen_max_bounds [of ?xs]
  show "moderate (q_min q ! i)" "moderate (q_max q ! i)" using lo hi mod ne unfolding mm by blast+
  show "\<forall>v \<in> set vecs. q_min q ! i \<le> v ! i \<and> v ! i \<le> q_max q ! i" using lo hi mod ne unfolding mm by simp
  show "q_min q ! i \<in> (\<lambda>v. v ! i) ` set vecs" "q_max q ! i \<in> (\<lambda>v. v ! i) ` set vecs" using lo hi mod ne unfolding mm by simp_all
qed

section \<open>Properties\<close>

lemma map_outcome_ok:
  assumes "\<forall>x \<in> set xs. \<exists>y. f x = Returns y"
  shows "\<exists>ys. map_outcome f xs = Returns ys \<and> length ys = length xs \<and> (\<forall>i < length xs. f (xs ! i) = Returns (ys ! i))"
  using assms
proof (induction xs)
  case Nil
  then show ?case by simp
next
  case (Cons x xs)
  then obtain y ys where "f x = Returns y" "map_outcome f xs = Returns ys" "length ys = length xs"
    "\<forall>i < length xs. f (xs ! i) = Returns (ys ! i)" by auto
  then show ?case by (auto simp: less_Suc_eq_0_disj)
qed

definition no_NaNs :: "f32 list \<Rightarrow> bool" where
  "no_NaNs v \<longleftrightarrow> NaN \<notin> set v"

lemma quantize_components:
  assumes "trained_on vecs q" and "n \<le> q_dim q" and "n \<le> length v" and "no_NaNs v"
  shows "\<exists>cs. quantize v n q = Returns (Inr cs) \<and> length cs = n \<and>
    (\<forall>i < n. quantize_component (q_min q ! i) (q_max q ! i) (v ! i) = Returns (cs ! i) \<and> - 127 \<le> cs ! i \<and> cs ! i \<le> 127)"
proof -
  let ?f = "\<lambda>i. quantize_component (q_min q ! i) (q_max q ! i) (v ! i)"
  have ok: "\<exists>c. ?f i = Returns c \<and> - 127 \<le> c \<and> c \<le> 127" if "i < n" for i
  proof -
    have "i < q_dim q" using assms(2) that by simp
    have "v ! i \<in> set v" using assms(3) that by simp
    then have "v ! i \<noteq> NaN" using assms(4) by (auto simp: no_NaNs_def)
    then show ?thesis using quantize_component_ok trained_range(1,2) [OF assms(1) \<open>i < q_dim q\<close>] by blast
  qed
  have "\<forall>i \<in> set [0..<n]. \<exists>c. ?f i = Returns c" using ok by (metis atLeastLessThan_iff set_upt)
  from map_outcome_ok [OF this] obtain cs where cs: "map_outcome ?f [0..<n] = Returns cs" "length cs = n"
    "\<forall>i < n. ?f i = Returns (cs ! i)" by auto
  then have "quantize v n q = Returns (Inr cs)"
    using trained_lengths [OF assms(1)] assms(2,3) by (simp add: quantize_def)
  with cs ok show ?thesis by fastforce
qed

text \<open>
  C31: on a quantizer trained on at least one vector, all components finite and of magnitude at most
  \<open>2 ^ 126\<close> (a wider range can overflow to infinity), quantizing any vector without a NaN
  (infinities included) is defined and gives one code in \<open>[-127, 127]\<close> per dimension.  The range
  of a dimension is from the smallest to the largest value seen in training.  If it exceeds
  \<open>1e-9f\<close>, codes are in the order of the components, the smallest value gets -127 and the largest 127;
  if not, every value of the dimension gets -127.
\<close>

theorem quantize_ordered_in_range:
  assumes "train vecs q0 = Returns q" and "vecs \<noteq> []"
    and "\<forall>u \<in> set vecs. \<forall>x \<in> set u. \<exists>a. x = Fin a \<and> \<bar>a\<bar> \<le> 2 ^ 126"
    and "q_dim q \<le> length v" and "q_dim q \<le> length w" and "no_NaNs v" and "no_NaNs w"
  shows "\<exists>cs ds. quantize v (q_dim q) q = Returns (Inr cs) \<and> quantize w (q_dim q) q = Returns (Inr ds) \<and>
    length cs = q_dim q \<and> (\<forall>c \<in> set cs. - 127 \<le> c \<and> c \<le> 127) \<and>
    (\<forall>i < q_dim q.
       (\<forall>u \<in> set vecs. q_min q ! i \<le> u ! i \<and> u ! i \<le> q_max q ! i) \<and>
       (\<exists>u \<in> set vecs. q_min q ! i = u ! i) \<and> (\<exists>u \<in> set vecs. q_max q ! i = u ! i) \<and>
       (if round32 (1 / 10 ^ 9) < fsub (q_max q ! i) (q_min q ! i)
        then (v ! i \<le> w ! i \<longrightarrow> cs ! i \<le> ds ! i) \<and> (v ! i = q_min q ! i \<longrightarrow> cs ! i = - 127) \<and>
          (v ! i = q_max q ! i \<longrightarrow> cs ! i = 127)
        else cs ! i = - 127))"
proof -
  note tr = trained_onI [OF assms(1-3)]
  obtain cs where cs: "quantize v (q_dim q) q = Returns (Inr cs)" "length cs = q_dim q"
    "\<And>i. i < q_dim q \<Longrightarrow> quantize_component (q_min q ! i) (q_max q ! i) (v ! i) = Returns (cs ! i) \<and> - 127 \<le> cs ! i \<and> cs ! i \<le> 127"
    using quantize_components [OF tr order_refl assms(4,6)] by blast
  obtain ds where ds: "quantize w (q_dim q) q = Returns (Inr ds)"
    "\<And>i. i < q_dim q \<Longrightarrow> quantize_component (q_min q ! i) (q_max q ! i) (w ! i) = Returns (ds ! i)"
    using quantize_components [OF tr order_refl assms(5,7)] by blast
  have order: "cs ! i \<le> ds ! i" if "i < q_dim q" "v ! i \<le> w ! i" for i
    using quantize_component_mono trained_range(1,2) [OF tr that(1)] that cs(3) ds(2) by blast
  have low: "cs ! i = - 127" if "i < q_dim q" "v ! i = q_min q ! i" for i
    using trained_range(1) [OF tr that(1)] quantize_low_end cs(3) [OF that(1)] that(2) by (auto simp: moderate_def)
  have high: "cs ! i = 127" if "i < q_dim q" "v ! i = q_max q ! i" "round32 (1 / 10 ^ 9) < fsub (q_max q ! i) (q_min q ! i)" for i
    using quantize_high_end [OF trained_range(1,2) [OF tr that(1)] that(3)] cs(3) [OF that(1)] that(2) by simp
  have narrow: "cs ! i = - 127" if "i < q_dim q" "\<not> round32 (1 / 10 ^ 9) < fsub (q_max q ! i) (q_min q ! i)" for i
    using quantize_narrow [OF that(2)] cs(3) [OF that(1)] by simp
  have ends: "(\<forall>u \<in> set vecs. q_min q ! i \<le> u ! i \<and> u ! i \<le> q_max q ! i) \<and>
      (\<exists>u \<in> set vecs. q_min q ! i = u ! i) \<and> (\<exists>u \<in> set vecs. q_max q ! i = u ! i)" if "i < q_dim q" for i
    using trained_range(3-5) [OF tr that] by blast
  have "\<forall>c \<in> set cs. - 127 \<le> c \<and> c \<le> 127" using cs(2,3) by (auto simp: in_set_conv_nth)
  with cs(1,2) ds(1) order low high narrow ends show ?thesis by (intro exI [of _ cs] exI [of _ ds]) (auto split: if_split)
qed

definition sample_training :: "f32 list list" where
  "sample_training = [[Fin 1, Fin 5], [Fin 3, Fin 5]]"

definition sample_quantizer :: quantizer where
  "sample_quantizer = \<lparr>q_min = [Fin 1, Fin 5], q_max = [Fin 3, Fin 5], q_dim = 2, trained = True\<rparr>"

lemma sample_trained:
  "train sample_training new_quantizer = Returns sample_quantizer" "sample_training \<noteq> []"
  "\<forall>u \<in> set sample_training. \<forall>x \<in> set u. \<exists>a. x = Fin a \<and> \<bar>a\<bar> \<le> 2 ^ 126"
  by (simp_all add: sample_training_def sample_quantizer_def train_def Let_def train_vector_def FLT_MAX_def narrow_min_def
      widen_max_def pow2_def numeral_2_eq_2)

lemma sample_wide: "round32 (1 / 10 ^ 9) < fsub (Fin 3) (Fin 1)" "\<not> round32 (1 / 10 ^ 9) < fsub (Fin 5) (Fin 5)"
proof -
  have "fsub (Fin 3) (Fin 1) = Fin 2" "fsub (Fin 5) (Fin 5) = Fin 0" using fsub_int [of 3 1] fsub_int [of 5 5] by simp_all
  moreover have "round32 (1 / 10 ^ 9) \<le> round32 1" by (rule round32_mono) simp
  moreover have "round32 1 = Fin 1" using round32_of_int [of 1] by simp
  moreover note round32_tiny
  ultimately show "round32 (1 / 10 ^ 9) < fsub (Fin 3) (Fin 1)" "\<not> round32 (1 / 10 ^ 9) < fsub (Fin 5) (Fin 5)"
    by (cases "round32 (1 / 10 ^ 9)"; auto simp: less_eq_f32_def)+
qed

theorem quantize_ordered_in_range_witness:
  "\<exists>cs ds. quantize [Fin 1, PInf] 2 sample_quantizer = Returns (Inr cs) \<and> quantize [Fin 3, Fin 5] 2 sample_quantizer = Returns (Inr ds) \<and>
     cs ! 0 = - 127 \<and> cs ! 0 \<le> ds ! 0 \<and> ds ! 0 = 127 \<and> cs ! 1 = - 127 \<and> ds ! 1 = - 127"
proof -
  let ?q = sample_quantizer and ?v = "[Fin 1, PInf]" and ?w = "[Fin 3, Fin 5]"
  have q: "q_dim ?q = 2" "q_min ?q = [Fin 1, Fin 5]" "q_max ?q = [Fin 3, Fin 5]" by (simp_all add: sample_quantizer_def)
  have h: "q_dim ?q \<le> length ?v" "q_dim ?q \<le> length ?w" "no_NaNs ?v" "no_NaNs ?w" by (simp_all add: q(1) no_NaNs_def)
  have two: "(\<forall>i < 2. P i) \<longleftrightarrow> P 0 \<and> P 1" for P :: "nat \<Rightarrow> bool" by (auto simp: less_Suc_eq numeral_2_eq_2)
  obtain cs ds where cs: "quantize ?v 2 ?q = Returns (Inr cs)" "quantize ?w 2 ?q = Returns (Inr ds)"
    "cs ! 0 = - 127" "cs ! 0 \<le> ds ! 0" "cs ! 1 = - 127"
    using quantize_ordered_in_range [OF sample_trained h] unfolding q two using sample_wide by auto
  obtain ds' cs' where ds: "quantize ?w 2 ?q = Returns (Inr ds')" "ds' ! 0 = 127" "ds' ! 1 = - 127"
    using quantize_ordered_in_range [OF sample_trained h(2,1,4,3)] unfolding q two using sample_wide by auto
  have "ds' = ds" using ds(1) cs(2) by simp
  with cs ds(2,3) show ?thesis by blast
qed

lemma sum_squares_exact:
  "s + 65025 * int (length ps) < 2 ^ 31 \<Longrightarrow> \<forall>(a, b) \<in> set ps. - 128 \<le> a \<and> a \<le> 127 \<and> - 128 \<le> b \<and> b \<le> 127 \<Longrightarrow>
   sum_squares ps s = Returns (s + (\<Sum>(a, b) \<leftarrow> ps. (a - b) ^ 2))"
proof (induction ps arbitrary: s)
  case Nil
  then show ?case by simp
next
  case (Cons p ps)
  obtain a b where p: "p = (a, b)" by fastforce
  have "\<bar>a - b\<bar> \<le> 255" using Cons.prems(2) p by auto
  then have "(a - b) * (a - b) \<le> 255 * 255" by (metis abs_ge_zero abs_mult_self_eq mult_mono order.trans)
  with Cons p show ?case by (simp add: power2_eq_square add.assoc)
qed

lemma sum_squares_ends:
  "sum_squares (replicate (Suc k) (127, - 128)) s = (if s + 65025 * int (Suc k) < 2 ^ 31 then Returns (s + 65025 * int (Suc k)) else Undefined)"
  if "0 \<le> s"
  using that
proof (induction k arbitrary: s)
  case 0
  then show ?case by simp
next
  case (Suc k)
  have "sum_squares (replicate (Suc (Suc k)) (127, - 128)) s =
      (if s + 65025 < 2 ^ 31 then sum_squares (replicate (Suc k) (127, - 128)) (s + 65025) else Undefined)"
    by simp
  then show ?case using Suc.IH [of "s + 65025"] Suc.prems by (simp del: replicate.simps)
qed

lemma zip_swap: "zip b a = map prod.swap (zip a b)"
  by (induction a b rule: list_induct2') simp_all

lemma sum_squares_0: "length a = length b \<Longrightarrow> (\<Sum>(x, y) \<leftarrow> zip a b. (x - y) ^ 2) = (0 :: int) \<longleftrightarrow> a = b"
proof (induction a b rule: list_induct2)
  case Nil
  then show ?case by simp
next
  case (Cons x xs y ys)
  have "0 \<le> (\<Sum>(x, y) \<leftarrow> zip xs ys. (x - y) ^ 2)" by (rule sum_list_nonneg) auto
  then have "(x - y) ^ 2 + (\<Sum>(x, y) \<leftarrow> zip xs ys. (x - y) ^ 2) = 0 \<longleftrightarrow> (x - y) ^ 2 = 0 \<and> (\<Sum>(x, y) \<leftarrow> zip xs ys. (x - y) ^ 2) = 0"
    by (simp add: add_nonneg_eq_0_iff)
  with Cons show ?case by simp
qed

text \<open>
  The integer distance of two byte vectors is the exact sum of squares, with no overflow
  up to 33025 components; one more, at opposite ends, and the signed sum overflows.
\<close>

lemma quantize_distance_exact:
  assumes "length a = n" and "length b = n" and "n \<le> 33025"
    and "\<forall>x \<in> set a \<union> set b. - 128 \<le> x \<and> x \<le> 127"
  shows "quantize_distance a b n = Returns (\<Sum>(x, y) \<leftarrow> zip a b. (x - y) ^ 2) \<and>
    quantize_distance b a n = quantize_distance a b n \<and> (quantize_distance a b n = Returns 0 \<longleftrightarrow> a = b) \<and>
    quantize_distance (replicate 33026 127) (replicate 33026 (- 128)) 33026 = Undefined"
proof -
  have exact: "quantize_distance a b n = Returns (\<Sum>(x, y) \<leftarrow> zip a b. (x - y) ^ 2)"
    if "length a = n" "length b = n" "\<forall>x \<in> set a \<union> set b. - 128 \<le> x \<and> x \<le> 127" for a b
  proof -
    have "\<forall>(x, y) \<in> set (zip a b). - 128 \<le> x \<and> x \<le> 127 \<and> - 128 \<le> y \<and> y \<le> 127"
      using that(3) by (auto dest: set_zip_leftD set_zip_rightD)
    then show ?thesis using that(1,2) assms(3) sum_squares_exact [of 0 "zip a b"] by (simp add: quantize_distance_def)
  qed
  have "(\<Sum>(x, y) \<leftarrow> zip b a. (x - y) ^ 2) = (\<Sum>(x, y) \<leftarrow> zip a b. (x - y) ^ 2)"
    by (simp add: zip_swap [of b a] o_def case_prod_unfold power2_commute)
  moreover have "quantize_distance (replicate 33026 127) (replicate 33026 (- 128)) 33026 = Undefined"
    using sum_squares_ends [of 0 33025] by (simp add: quantize_distance_def zip_replicate)
  ultimately show ?thesis
    using exact [OF assms(1,2,4)] exact [OF assms(2,1)] assms(4) sum_squares_0 [of a b] assms(1,2) by auto
qed

end
