(* ===== verification/Python_Bindings.thy ===== *)
theory Python_Bindings
  imports Hnsw_Frame Quantizer
begin

text \<open>
  \<^verbatim>\<open>src/python_bindings.cpp\<close>: the module \<open>nanodb\<close>.  The methods of an index and of the storage
  handler it refers to as calls on one state, since a Python program holds both objects and the
  index only keeps a reference to the handler; and the wrappers around the quantizer.  Arguments
  are taken after pybind11 has converted them; \<open>__repr__\<close> is not modelled.
\<close>

section \<open>Index and storage\<close>

datatype py_call =
    PyOpenFile string nat
  | PyCloseFile
  | PyInsert "rat list" "f32 list" nat "string option"
  | PySearch "f32 list" "int option"
  | PyDeleteVector nat
  | PyIsDeleted nat
  | PyGetMetadata nat
  | PySize
  | PyMetric

datatype py_value = PyNone | PyRaise mmap_error | PyResults "result list" | PyBool bool | PyStr string | PyInt nat | PyEnum distance_metric

text \<open>
  Opening a handler that is open already maps the file anew; what the old shared mapping holds
  is in its file.
\<close>

definition py_open_file :: "os_answers \<Rightarrow> string \<Rightarrow> nat \<Rightarrow> contents mmap_handler \<times> contents files \<Rightarrow>
    mmap_error option \<times> contents mmap_handler \<times> contents files" where
  "py_open_file os path min_size st = open_mmap os zero_contents path min_size (fst st, snd (close_mmap st))"

text \<open>The constructor with its default arguments, undefined on a handler that is not open.\<close>

definition py_hnsw :: "contents mmap_handler \<times> contents files \<Rightarrow> disk \<Rightarrow> string option \<Rightarrow> distance_metric option \<Rightarrow> hnsw outcome" where
  "py_hnsw st d meta_path mt =
     (let path = (case meta_path of Some p \<Rightarrow> p | None \<Rightarrow> ''data/metadata.bin'')
      in open_hnsw st (open_metadata (case d path of None \<Rightarrow> '''' | Some bs \<Rightarrow> bs) new_metadata)
           (case mt of Some m \<Rightarrow> m | None \<Rightarrow> L2))"

fun raised :: "mmap_error option \<Rightarrow> py_value" where
  "raised None = PyNone"
| "raised (Some e) = PyRaise e"

fun py_do :: "os_answers \<Rightarrow> py_call \<Rightarrow> hnsw \<Rightarrow> (py_value \<times> hnsw) outcome" where
  "py_do os (PyOpenFile path min_size) h =
     (case py_open_file os path min_size (storage h) of (e, st) \<Rightarrow> Returns (raised e, h\<lparr>storage := st\<rparr>))"
| "py_do os PyCloseFile h = Returns (PyNone, h\<lparr>storage := close_mmap (storage h)\<rparr>)"
| "py_do os (PyInsert draws vec i md) h =
     bind_outcome (hnsw_insert os draws vec i (case md of Some m \<Rightarrow> m | None \<Rightarrow> '''') h) (\<lambda>(e, h). Returns (raised e, h))"
| "py_do os (PySearch q k) h =
     bind_outcome (search q (case k of Some n \<Rightarrow> n | None \<Rightarrow> 5) h) (\<lambda>rs. Returns (PyResults rs, h))"
| "py_do os (PyDeleteVector i) h = bind_outcome (delete_vector i h) (\<lambda>h. Returns (PyNone, h))"
| "py_do os (PyIsDeleted i) h = bind_outcome (node_deleted i h) (\<lambda>b. Returns (PyBool b, h))"
| "py_do os (PyGetMetadata i) h = Returns (PyStr (hnsw_metadata i h), h)"
| "py_do os PySize h = Returns (PyInt (hnsw_size h), h)"
| "py_do os PyMetric h = Returns (PyEnum (metric h), h)"

fun py_run :: "os_answers \<Rightarrow> py_call list \<Rightarrow> hnsw \<Rightarrow> (py_value list \<times> hnsw) outcome" where
  "py_run os [] h = Returns ([], h)"
| "py_run os (c # cs) h =
     bind_outcome (py_do os c h) (\<lambda>(v, h). bind_outcome (py_run os cs h) (\<lambda>(vs, h). Returns (v # vs, h)))"

section \<open>The quantizer\<close>

definition py_train :: "quantizer \<Rightarrow> f32 list list \<Rightarrow> quantizer outcome" where
  "py_train q vecs = train vecs q"

definition py_quantize :: "quantizer \<Rightarrow> f32 list \<Rightarrow> (quant_error + int list) outcome" where
  "py_quantize q vec = quantize vec (length vec) q"

definition py_dequantize :: "quantizer \<Rightarrow> int list \<Rightarrow> nat \<Rightarrow> (quant_error + f32 list) outcome" where
  "py_dequantize q vec n = dequantize vec n q"

section \<open>Closing the storage\<close>

lemma closed_get_node:
  assumes "mapped h"
  shows "get_node (h\<lparr>storage := close_mmap (storage h)\<rparr>) i = Undefined"
  using assms by (cases "storage h") (auto simp: get_node_def mapped_def close_mmap_def split: mapping.splits)

lemma reopened:
  assumes "graph_ok S h"
  shows "\<exists>st. py_open_file os_ok (path_of h) n (close_mmap (storage h)) = (None, st) \<and> graph_ok S (h\<lparr>storage := st\<rparr>) \<and>
    nodes (h\<lparr>storage := st\<rparr>) = nodes h"
proof -
  obtain m fs where st: "storage h = (m, fs)" by (cases "storage h")
  have "mapped h" using assms by (simp add: graph_ok_def nodes_ok_def)
  then obtain c where c: "mm_data m = Mapped c" by (auto simp: mapped_def st)
  let ?m = "\<lparr>mm_path = mm_path m, mm_size = max n (mm_size m), mm_data = Mapped c\<rparr>"
  obtain fs' where o: "py_open_file os_ok (path_of h) n (close_mmap (storage h)) = (None, ?m, fs')"
    using c by (auto simp: py_open_file_def st close_mmap_def open_mmap_def os_ok_def Let_def max_def)
  moreover have same: "nodes (h\<lparr>storage := (?m, fs')\<rparr>) = nodes h" "mapped (h\<lparr>storage := (?m, fs')\<rparr>)"
    "get_size h \<le> get_size (h\<lparr>storage := (?m, fs')\<rparr>)"
    by (simp_all add: contents_of_def mapped_def get_size_def st c)
  moreover have "graph_ok S (h\<lparr>storage := (?m, fs')\<rparr>)"
    using assms same by (auto simp: graph_ok_def nodes_ok_def)
  ultimately show ?thesis by blast
qed

section \<open>Properties\<close>

text \<open>
  C40: the index does not keep its storage open.  After \<open>close_file\<close> on the handler, a search on
  an index that holds anything reads through a null pointer, and so does deleting a stored id or
  asking for it; the index is as it was once the file is opened again.
\<close>

theorem python_close_then_search:
  assumes "graph_ok S h" and "i \<in> S" and "length q \<ge> VECTOR_DIM"
  shows "py_run os [PyCloseFile, PySearch q k] h = Undefined \<and> py_run os [PyCloseFile, PyDeleteVector i] h = Undefined \<and>
    py_run os [PyCloseFile, PyIsDeleted i] h = Undefined \<and>
    (\<exists>h'. py_run os_ok [PyCloseFile, PyOpenFile (path_of h) n] h = Returns ([PyNone, PyNone], h') \<and> graph_ok S h' \<and>
       nodes h' = nodes h \<and> metadata h' = metadata h)"
proof (intro conjI)
  have m: "mapped h" and e: "entry_point_id h \<noteq> no_id" and i: "node_end i \<le> get_size h"
    using assms(1,2) by (auto simp: graph_ok_def nodes_ok_def split: if_splits)
  note closed = closed_get_node [OF m]
  have size: "get_size (h\<lparr>storage := close_mmap (storage h)\<rparr>) = get_size h"
    using m by (cases "storage h") (auto simp: get_size_def mapped_def close_mmap_def)
  show "py_run os [PyCloseFile, PySearch q k] h = Undefined" using e assms(3) closed by (simp add: search_def dist_to_def)
  show "py_run os [PyCloseFile, PyDeleteVector i] h = Undefined" using i closed size by (simp add: delete_vector_def)
  show "py_run os [PyCloseFile, PyIsDeleted i] h = Undefined" using i closed size by (simp add: node_deleted_def)
  obtain st where "py_open_file os_ok (path_of h) n (close_mmap (storage h)) = (None, st)" "graph_ok S (h\<lparr>storage := st\<rparr>)"
    "nodes (h\<lparr>storage := st\<rparr>) = nodes h" using reopened [OF assms(1), of n] by blast
  then show "\<exists>h'. py_run os_ok [PyCloseFile, PyOpenFile (path_of h) n] h = Returns ([PyNone, PyNone], h') \<and> graph_ok S h' \<and>
       nodes h' = nodes h \<and> metadata h' = metadata h" by (intro exI [of _ "h\<lparr>storage := st\<rparr>"]) simp
qed

theorem python_close_then_search_witness:
  "graph_ok {0, 1} two_nodes \<and> py_run os_ok [PyCloseFile, PySearch (sample_vec 2) None] two_nodes = Undefined"
  using python_close_then_search [OF two_nodes_ok, of 0 "sample_vec 2" os_ok None] two_nodes_ok by (simp add: sample_vec_def)

text \<open>
  The quantizer from Python, trained on values up to \<open>2 ^ 126\<close>.  A vector without a NaN that is no
  longer than the trained dimension has one code per component, and any prefix of the codes
  decodes to as many values; a longer vector, or a dimension above the number of codes, is read
  past the end of an array.
\<close>

lemma python_quantizer_lengths:
  assumes "trained_on vecs q" and "no_NaNs v"
  shows "if length v \<le> q_dim q
    then \<exists>cs. py_quantize q v = Returns (Inr cs) \<and> length cs = length v \<and> (\<forall>c \<in> set cs. - 127 \<le> c \<and> c \<le> 127) \<and>
      (\<forall>n. if n \<le> length v then \<exists>out. py_dequantize q cs n = Returns (Inr out) \<and> length out = n
           else py_dequantize q cs n = Undefined)
    else py_quantize q v = Undefined"
proof (cases "length v \<le> q_dim q")
  case True
  note t = trained_lengths [OF assms(1)]
  obtain cs where cs: "quantize v (length v) q = Returns (Inr cs)" "length cs = length v" "\<forall>i < length v. - 127 \<le> cs ! i \<and> cs ! i \<le> 127"
    using quantize_components [OF assms(1) True order_refl assms(2)] by blast
  have "\<forall>c \<in> set cs. - 127 \<le> c \<and> c \<le> 127" using cs(2,3) by (auto simp: in_set_conv_nth)
  with True cs t show ?thesis by (auto simp: py_quantize_def py_dequantize_def dequantize_def)
next
  case False
  then show ?thesis using trained_lengths [OF assms(1)] by (simp add: py_quantize_def quantize_def)
qed

end
