(* ===== verification/Quantizer_Error.thy ===== *)
theory Quantizer_Error
  imports Quantizer
begin

text \<open>
  How far a vector that was quantized and dequantized (\<^verbatim>\<open>include/index/quantizer.hpp\<close>) is from the
  original: the error of each rounding, followed through both chains of operations.
\<close>

section \<open>The error of one rounding\<close>

lemma nearest_error: "\<bar>of_int (nearest x) - x\<bar> \<le> 1 / 2"
proof -
  have "of_int \<lfloor>x\<rfloor> \<le> x" "x < of_int \<lfloor>x\<rfloor> + 1" by linarith+
  then show ?thesis unfolding nearest_def Let_def by (cases "x - of_int \<lfloor>x\<rfloor> < 1 / 2"; cases "x - of_int \<lfloor>x\<rfloor> > 1 / 2") auto
qed

lemma round32_error:
  assumes "round32 q = Fin r"
  shows "\<bar>r - q\<bar> \<le> pow2 (- 24) * \<bar>q\<bar> + pow2 (- 150)"
proof (cases "q = 0")
  case True
  with assms show ?thesis by (simp add: order_less_imp_le)
next
  case False
  let ?u = "pow2 (last_place q)"
  have r: "r = of_int (nearest (q / ?u)) * ?u" using assms False by (auto simp: round32_def Let_def split: if_splits)
  have "r - q = (of_int (nearest (q / ?u)) - q / ?u) * ?u" by (simp add: r left_diff_distrib)
  then have "\<bar>r - q\<bar> = \<bar>of_int (nearest (q / ?u)) - q / ?u\<bar> * ?u" by (simp add: abs_mult)
  also have "\<dots> \<le> 1 / 2 * ?u" by (rule mult_right_mono [OF nearest_error]) (simp add: order_less_imp_le)
  also have "\<dots> \<le> pow2 (- 24) * \<bar>q\<bar> + pow2 (- 150)"
  proof (cases "exponent \<bar>q\<bar> \<ge> - 126")
    case True
    then have "1 / 2 * ?u = pow2 (- 24) * pow2 (exponent \<bar>q\<bar>)"
      using pow2_add [of "- 24" "exponent \<bar>q\<bar>"] pow2_add [of "- 1" "exponent \<bar>q\<bar> - 23"] by (simp add: last_place_def max_def) (simp add: pow2_def)
    also have "\<dots> \<le> pow2 (- 24) * \<bar>q\<bar>" using exponent_le [of "\<bar>q\<bar>"] False by (intro mult_left_mono) (simp_all add: order_less_imp_le)
    finally show ?thesis by (rule order_trans) (simp add: order_less_imp_le)
  next
    case False
    then have "1 / 2 * ?u = pow2 (- 150)"
      using pow2_add [of "- 1" "- 149"] by (simp add: last_place_def max_def) (simp add: pow2_def)
    then show ?thesis by (simp add: order_less_imp_le)
  qed
  finally show ?thesis .
qed

text \<open>With numerals, for linear arithmetic.\<close>

lemma round32_err:
  assumes "round32 q = Fin r"
  shows "\<bar>r - q\<bar> \<le> \<bar>q\<bar> / 16777216 + 1 / 100000000000000000000"
proof -
  have "pow2 (- 24) = 1 / 16777216" "pow2 (- 150) \<le> 1 / 100000000000000000000" by (simp_all add: pow2_def)
  with round32_error [OF assms] show ?thesis by simp
qed

lemma round32_err_below:
  assumes "round32 q = Fin r" and "\<bar>q\<bar> \<le> B"
  shows "\<bar>r - q\<bar> \<le> B / 16777216 + 1 / 100000000000000000000"
  using round32_err [OF assms(1)] assms(2) by linarith

text \<open>Rounding a value between two values that are exact.\<close>

lemma round32_between:
  assumes "round32 l = Fin l" and "round32 u = Fin u" and "l \<le> q" and "q \<le> u"
  obtains r where "round32 q = Fin r" "l \<le> r" "r \<le> u"
proof -
  have "Fin l \<le> round32 q" "round32 q \<le> Fin u" using round32_mono assms by metis+
  then show thesis by (cases "round32 q") (auto simp: less_eq_f32_def intro!: that)
qed

lemma round32_small_int: "\<bar>z\<bar> \<le> 254 \<Longrightarrow> round32 (of_int z) = Fin (of_int z)"
  by (rule round32_of_int) simp

section \<open>The two chains of operations\<close>

text \<open>The code of a normalized value: scaling, shifting and the cast lose at most a step and a little.\<close>

lemma code_error:
  assumes "0 \<le> n" and "n \<le> 1"
  obtains c where "to_int8 (clamp (fsub (fmul (Fin n) (Fin 254)) (Fin 127)) (Fin (- 127)) (Fin 127)) = Returns c"
    "- 127 \<le> c" "c \<le> 127" "\<bar>of_int c + 127 - 254 * n\<bar> \<le> 1 + 1 / 30000"
proof -
  have ints: "round32 0 = Fin 0" "round32 254 = Fin 254" "round32 127 = Fin 127" "round32 (- 127) = Fin (- 127)"
    using round32_small_int [of 254] round32_small_int [of 127] round32_small_int [of "- 127"] by simp_all
  have "0 \<le> 254 * n" "254 * n \<le> 254" using assms by simp_all
  then obtain m where m: "round32 (254 * n) = Fin m" "0 \<le> m" "m \<le> 254" by (rule round32_between [OF ints(1,2)])
  then have "- 127 \<le> m - 127" "m - 127 \<le> 127" by simp_all
  then obtain s where s: "round32 (m - 127) = Fin s" "- 127 \<le> s" "s \<le> 127" by (rule round32_between [OF ints(4,3)])
  have "\<bar>m - 254 * n\<bar> \<le> 254 / 16777216 + 1 / 100000000000000000000" "\<bar>s - (m - 127)\<bar> \<le> 127 / 16777216 + 1 / 100000000000000000000"
    by (rule round32_err_below [OF m(1)], use assms in simp) (rule round32_err_below [OF s(1)], use m(2,3) in linarith)
  moreover have "\<bar>of_int (toward_zero s) - s\<bar> \<le> 1"
    by (cases "0 \<le> s") (simp_all add: toward_zero_def, linarith+)
  ultimately have "\<bar>of_int (toward_zero s) + 127 - 254 * n\<bar> \<le> 1 + 1 / 30000" by linarith
  moreover have range: "- 127 \<le> toward_zero s" "toward_zero s \<le> 127"
    using s(2,3) by (auto simp: toward_zero_def floor_le_iff le_floor_iff ceiling_le_iff le_ceiling_iff)
  moreover have "fsub (fmul (Fin n) (Fin 254)) (Fin 127) = Fin s" using m(1) s(1) by (simp add: fsub_def mult.commute)
  then have "to_int8 (clamp (fsub (fmul (Fin n) (Fin 254)) (Fin 127)) (Fin (- 127)) (Fin 127)) = Returns (toward_zero s)"
    using s(2,3) range by (simp add: clamp_def Let_def)
  ultimately show thesis by (intro that)
qed

text \<open>The value a code stands for within the range, before the lower end is added.\<close>

lemma decode_error:
  assumes "- 127 \<le> c" and "c \<le> 127" and "0 < R" and "R \<le> pow2 127"
  obtains p where "fmul (fdiv (fadd (Fin (of_int c)) (Fin 127)) (Fin 254)) (Fin R) = Fin p"
    "\<bar>p - (of_int c + 127) / 254 * R\<bar> \<le> R / 5000000 + 1 / 100000000000000000000"
proof -
  let ?k = "of_int c + 127 :: rat"
  have k: "round32 ?k = Fin ?k" using round32_small_int [of "c + 127"] assms(1,2) by simp
  have c: "(of_int c :: rat) \<le> 127" "- 127 \<le> (of_int c :: rat)" using assms(1,2) by linarith+
  then have unit: "0 \<le> ?k / 254" "?k / 254 \<le> 1" by simp_all
  have "round32 1 = Fin 1" "round32 0 = Fin 0" using round32_small_int [of 1] by simp_all
  with unit obtain t where t: "round32 (?k / 254) = Fin t" "0 \<le> t" "t \<le> 1" using round32_between by metis
  have "t * R \<le> 1 * R" using t(3) assms(3) by (intro mult_right_mono) simp_all
  then have tR: "0 \<le> t * R" "t * R \<le> R" using t(2) assms(3) by simp_all
  then obtain p where p: "round32 (t * R) = Fin p" using round32_finite [of "t * R"] assms(4) by auto
  have "\<bar>t - ?k / 254\<bar> \<le> 1 / 16000000"
    using round32_err_below [OF t(1), of 1] unit by (auto intro: order_trans)
  then have "\<bar>t - ?k / 254\<bar> * R \<le> 1 / 16000000 * R" using assms(3) by (intro mult_right_mono) simp_all
  moreover have "\<bar>t - ?k / 254\<bar> * R = \<bar>t * R - ?k / 254 * R\<bar>"
    using assms(3) abs_mult [of "t - ?k / 254" R] by (simp add: left_diff_distrib)
  ultimately have "\<bar>t * R - ?k / 254 * R\<bar> \<le> R / 16000000" by simp
  moreover have "\<bar>p - t * R\<bar> \<le> R / 16777216 + 1 / 100000000000000000000" using round32_err [OF p] tR by simp
  ultimately have "\<bar>p - ?k / 254 * R\<bar> \<le> R / 5000000 + 1 / 100000000000000000000" using assms(3) by linarith
  moreover have "fmul (fdiv (fadd (Fin (of_int c)) (Fin 127)) (Fin 254)) (Fin R) = Fin p" using k t(1) p by simp
  ultimately show thesis by (rule that [rotated])
qed

text \<open>The normalized value, times the range, is the distance from the lower end.\<close>

lemma normalize_error:
  assumes "\<bar>a\<bar> \<le> pow2 126" and "\<bar>b\<bar> \<le> pow2 126" and "a \<le> x" and "x \<le> b"
    and R: "fsub (Fin b) (Fin a) = Fin R" and big: "round32 (1 / 10 ^ 9) < Fin R"
  obtains n where "normalized_to (Fin a) (Fin b) (Fin x) = Fin n" "0 \<le> n" "n \<le> 1"
    "\<bar>n * R - (x - a)\<bar> \<le> (b - a) / 5000000" "1 / 10000000000 \<le> R" "R \<le> pow2 127" "\<bar>R - (b - a)\<bar> \<le> (b - a) / 16000000"
proof -
  obtain g where g: "round32 (1 / 10 ^ 9) = Fin g" using round32_finite [of "1 / 10 ^ 9"] by (auto simp: pow2_def)
  have g_err: "\<bar>g - 1 / 1000000000\<bar> \<le> (1 / 1000000000) / 16777216 + 1 / 100000000000000000000" using round32_err [OF g] by simp
  have "g < R" using big g by simp
  then have R_low: "9 / 10000000000 \<le> R" using g_err by linarith
  have W: "round32 (b - a) = Fin R" using R by (simp add: fsub_def)
  have R_err: "\<bar>R - (b - a)\<bar> \<le> (b - a) / 16777216 + 1 / 100000000000000000000" using round32_err [OF W] assms(3,4) by simp
  define w where "w = b - a"
  have "R - w \<le> w / 16777216 + 1 / 100000000000000000000" using R_err unfolding w_def by linarith
  then have "1 / 10000000000 \<le> w" using R_low by (simp add: field_simps)
  then have W_low: "1 / 10000000000 \<le> b - a" by (simp add: w_def)
  have "pow2 127 = 2 * pow2 126" using pow2_add [of 1 126] by (simp add: pow2_def)
  then have "b - a \<le> pow2 127" using assms(1,2) by linarith
  then have "Fin R \<le> Fin (pow2 127)" using round32_mono [of "b - a" "pow2 127"] W round32_pow2_127 by simp
  then have R_high: "R \<le> pow2 127" by simp
  have "round32 (x - a) \<le> Fin R" "Fin 0 \<le> round32 (x - a)"
    using round32_mono [of "x - a" "b - a"] W assms(3,4) round32_nonneg_le [of "x - a"] by simp_all
  then obtain d where d: "round32 (x - a) = Fin d" "0 \<le> d" "d \<le> R" by (cases "round32 (x - a)") (auto simp: less_eq_f32_def)
  have d_err: "\<bar>d - (x - a)\<bar> \<le> (b - a) / 16777216 + 1 / 100000000000000000000"
    by (rule round32_err_below [OF d(1)]) (use assms(3,4) in simp)
  have pos: "0 < R" using R_low by linarith
  then have unit: "0 \<le> d / R" "d / R \<le> 1" using d(2,3) by simp_all
  have "round32 1 = Fin 1" "round32 0 = Fin 0" using round32_small_int [of 1] by simp_all
  with unit obtain n where n: "round32 (d / R) = Fin n" "0 \<le> n" "n \<le> 1" using round32_between by metis
  have "\<bar>d / R\<bar> \<le> 1" using unit by (simp only: abs_of_nonneg)
  from round32_err_below [OF n(1) this] have "\<bar>n - d / R\<bar> \<le> 1 / 16000000" by linarith
  then have "\<bar>n - d / R\<bar> * R \<le> 1 / 16000000 * R" using pos by (intro mult_right_mono) simp_all
  moreover have "\<bar>n - d / R\<bar> * R = \<bar>n * R - d\<bar>" using pos abs_mult [of "n - d / R" R] by (simp add: left_diff_distrib)
  ultimately have "\<bar>n * R - d\<bar> \<le> R / 16000000" by simp
  moreover define e :: rat where "e = 1 / 100000000000000000000"
  have e: "e \<le> w / 10000000000" using divide_right_mono [OF \<open>1 / 10000000000 \<le> w\<close>, of 10000000000] by (simp add: e_def)
  have Rw: "\<bar>R - w\<bar> \<le> w / 16777216 + e" using R_err unfolding w_def e_def .
  moreover have "\<bar>d - (x - a)\<bar> \<le> w / 16777216 + e" using d_err unfolding w_def e_def .
  ultimately have "\<bar>n * R - (x - a)\<bar> \<le> w / 5000000" using e by linarith
  then have "\<bar>n * R - (x - a)\<bar> \<le> (b - a) / 5000000" unfolding w_def .
  moreover have "\<bar>R - w\<bar> \<le> w / 16000000" using Rw e by linarith
  then have "\<bar>R - (b - a)\<bar> \<le> (b - a) / 16000000" unfolding w_def .
  moreover have "normalized_to (Fin a) (Fin b) (Fin x) = Fin n"
    using R big d(1) n(1) pos by (simp add: normalized_to_def Let_def) (simp add: fsub_def)
  moreover have "1 / 10000000000 \<le> R" using R_low by linarith
  ultimately show thesis using n(2,3) R_high by (intro that)
qed

text \<open>There and back for one component: at most a step of the codes and the rounding of the lower end.\<close>

lemma component_roundtrip:
  assumes "\<bar>a\<bar> \<le> pow2 126" and "\<bar>b\<bar> \<le> pow2 126" and "a \<le> x" and "x \<le> b"
    and "round32 (1 / 10 ^ 9) < fsub (Fin b) (Fin a)"
  obtains c y where "quantize_component (Fin a) (Fin b) (Fin x) = Returns c"
    "dequantize_component (Fin a) (Fin b) c = Fin y" "\<bar>y - x\<bar> \<le> (b - a) / 253 + \<bar>a\<bar> / 2 ^ 24"
proof -
  have "moderate (Fin a)" "moderate (Fin b)" using assms(1,2) by (simp_all add: moderate_def)
  then obtain R where R: "fsub (Fin b) (Fin a) = Fin R" using range_finite by blast
  with assms(5) have big: "round32 (1 / 10 ^ 9) < Fin R" by simp
  obtain n where n: "normalized_to (Fin a) (Fin b) (Fin x) = Fin n" "0 \<le> n" "n \<le> 1"
    and nR: "\<bar>n * R - (x - a)\<bar> \<le> (b - a) / 5000000" and R_low: "1 / 10000000000 \<le> R" and R_high: "R \<le> pow2 127"
    and R_err: "\<bar>R - (b - a)\<bar> \<le> (b - a) / 16000000"
    using normalize_error [OF assms(1-4) R big] .
  obtain c where c: "to_int8 (clamp (fsub (fmul (Fin n) (Fin 254)) (Fin 127)) (Fin (- 127)) (Fin 127)) = Returns c"
    "- 127 \<le> c" "c \<le> 127" and code: "\<bar>of_int c + 127 - 254 * n\<bar> \<le> 1 + 1 / 30000"
    using code_error [OF n(2,3)] .
  have pos: "0 < R" using R_low by linarith
  obtain p where p: "fmul (fdiv (fadd (Fin (of_int c)) (Fin 127)) (Fin 254)) (Fin R) = Fin p"
    and p_err: "\<bar>p - (of_int c + 127) / 254 * R\<bar> \<le> R / 5000000 + 1 / 100000000000000000000"
    using decode_error [OF c(2,3) pos R_high] .
  let ?k = "(of_int c + 127) / 254 :: rat"
  have "?k - n = (of_int c + 127 - 254 * n) / 254" by (simp add: diff_divide_distrib)
  then have "\<bar>?k - n\<bar> = \<bar>of_int c + 127 - 254 * n\<bar> / 254" by (simp only: abs_divide abs_numeral)
  also have "\<dots> \<le> (1 + 1 / 30000) / 254" by (rule divide_right_mono [OF code]) simp
  finally have "\<bar>?k - n\<bar> \<le> 10001 / 2540000" by simp
  then have "\<bar>?k - n\<bar> * R \<le> 10001 / 2540000 * R" using pos by (intro mult_right_mono) simp_all
  moreover have "\<bar>?k - n\<bar> * R = \<bar>?k * R - n * R\<bar>" using pos abs_mult [of "?k - n" R] by (simp add: left_diff_distrib)
  ultimately have kR: "\<bar>?k * R - n * R\<bar> \<le> 10001 / 2540000 * R" by simp
  define w where "w = b - a"
  have Rw: "R \<le> w + w / 16000000" "w - w / 16000000 \<le> R" using R_err unfolding w_def by linarith+
  have "\<bar>p - (x - a)\<bar> \<le> (R / 5000000 + 1 / 100000000000000000000) + 10001 / 2540000 * R + w / 5000000"
    using p_err kR nR unfolding w_def by linarith
  then have near: "\<bar>p - (x - a)\<bar> \<le> w / 253 - w / 1000000" using Rw R_low by linarith
  have x: "\<bar>a + p\<bar> \<le> \<bar>a\<bar> + w + w / 253" using near assms(3,4) unfolding w_def by linarith
  have "\<bar>x\<bar> \<le> pow2 126" "w \<le> 2 * pow2 126" using assms(1-4) unfolding w_def by linarith+
  moreover have "\<bar>a + p\<bar> \<le> \<bar>x\<bar> + w / 253" using near R_low Rw by linarith
  moreover have "pow2 127 = 2 * pow2 126" using pow2_add [of 1 126] by (simp add: pow2_def)
  moreover have "0 < pow2 126" by simp
  ultimately have "\<bar>a + p\<bar> \<le> pow2 127" by linarith
  then obtain y where y: "round32 (a + p) = Fin y" using round32_finite by blast
  have "\<bar>y - (a + p)\<bar> \<le> (\<bar>a\<bar> + w + w / 253) / 16777216 + 1 / 100000000000000000000" by (rule round32_err_below [OF y x])
  moreover have "1 / 20000000000 \<le> w" using R_low Rw(1) by linarith
  ultimately have "\<bar>y - x\<bar> \<le> w / 253 + \<bar>a\<bar> / 16777216" using near by (simp only: add_divide_distrib)
  then have "\<bar>y - x\<bar> \<le> w / 253 + \<bar>a\<bar> / 2 ^ 24" by simp
  moreover have "quantize_component (Fin a) (Fin b) (Fin x) = Returns c" using n(1) c(1) by (simp add: quantize_component_def)
  moreover have "dequantize_component (Fin a) (Fin b) c = Fin y"
    using R p y by (simp add: dequantize_component_def Let_def del: fmul.simps fdiv.simps)
  ultimately show thesis by (intro that) (simp_all add: w_def)
qed

section \<open>There and back\<close>

fun f32_val :: "f32 \<Rightarrow> rat" where
  "f32_val (Fin a) = a"
| "f32_val _ = 0"

lemma between_moderate:
  assumes "moderate lo" and "moderate hi" and "lo \<le> x" and "x \<le> hi"
  obtains a b y where "lo = Fin a" "hi = Fin b" "x = Fin y" "\<bar>a\<bar> \<le> pow2 126" "\<bar>b\<bar> \<le> pow2 126" "a \<le> y" "y \<le> b"
  using assms by (cases x) (auto simp: moderate_def less_eq_f32_def)

text \<open>The code of a narrow dimension comes back as its lower end.\<close>

lemma dequantize_low_code:
  assumes "moderate lo" and "moderate hi"
  shows "dequantize_component lo hi (- 127) = fadd lo (Fin 0)"
proof -
  obtain r where r: "fsub hi lo = Fin r" using range_finite [OF assms] by blast
  have "fadd (Fin (- 127)) (Fin 127) = Fin 0" by simp
  then show ?thesis by (simp add: dequantize_component_def Let_def r)
qed

text \<open>
  C32: take a quantizer trained on at least one vector, all components finite and of magnitude at most
  \<open>2 ^ 126\<close>, and a vector each of whose components is between the smallest and the largest value
  seen in training in its dimension.  Quantizing and dequantizing it both return.  A component of
  a dimension whose range exceeds \<open>1e-9f\<close> comes back finite and off by at most one step of the codes,
  a 253rd of the range, and the rounding of the lower end; one of a narrower dimension
  comes back as the lower end (plus zero), whatever it was.
\<close>

theorem quantize_roundtrip:
  assumes "train vecs q0 = Returns q" and "vecs \<noteq> []"
    and "\<forall>u \<in> set vecs. \<forall>x \<in> set u. \<exists>a. x = Fin a \<and> \<bar>a\<bar> \<le> 2 ^ 126"
    and "q_dim q \<le> length v"
    and "\<forall>i < q_dim q. q_min q ! i \<le> v ! i \<and> v ! i \<le> q_max q ! i"
  shows "\<exists>cs out. quantize v (q_dim q) q = Returns (Inr cs) \<and> dequantize cs (q_dim q) q = Returns (Inr out) \<and>
    length out = q_dim q \<and>
    (\<forall>i < q_dim q.
       if round32 (1 / 10 ^ 9) < fsub (q_max q ! i) (q_min q ! i)
       then (\<exists>y. out ! i = Fin y \<and>
         \<bar>y - f32_val (v ! i)\<bar> \<le> (f32_val (q_max q ! i) - f32_val (q_min q ! i)) / 253 + \<bar>f32_val (q_min q ! i)\<bar> / 2 ^ 24)
       else out ! i = fadd (q_min q ! i) (Fin 0))"
proof -
  note tr = trained_onI [OF assms(1-3)]
  let ?n = "q_dim q" and ?f = "\<lambda>i. quantize_component (q_min q ! i) (q_max q ! i) (v ! i)"
  note lens = trained_lengths [OF tr] and mod = trained_range(1,2) [OF tr]
  have "\<exists>c. ?f i = Returns c" if "i < ?n" for i
    using quantize_component_ok [OF mod [OF that], of "v ! i"] assms(5) that by (metis f32_le_not_NaN)
  then have "\<forall>i \<in> set [0..<?n]. \<exists>c. ?f i = Returns c" by simp
  from map_outcome_ok [OF this] obtain cs where cs: "map_outcome ?f [0..<?n] = Returns cs" "length cs = ?n"
    and code: "\<And>i. i < ?n \<Longrightarrow> ?f i = Returns (cs ! i)" by auto
  let ?out = "map (\<lambda>i. dequantize_component (q_min q ! i) (q_max q ! i) (cs ! i)) [0..<?n]"
  have "\<exists>y. ?out ! i = Fin y \<and>
      \<bar>y - f32_val (v ! i)\<bar> \<le> (f32_val (q_max q ! i) - f32_val (q_min q ! i)) / 253 + \<bar>f32_val (q_min q ! i)\<bar> / 2 ^ 24"
    if i: "i < ?n" and range: "round32 (1 / 10 ^ 9) < fsub (q_max q ! i) (q_min q ! i)" for i
  proof -
    obtain a b x where abx: "q_min q ! i = Fin a" "q_max q ! i = Fin b" "v ! i = Fin x" "\<bar>a\<bar> \<le> pow2 126" "\<bar>b\<bar> \<le> pow2 126" "a \<le> x" "x \<le> b"
      using between_moderate [OF mod [OF i]] assms(5) i by blast
    obtain c y where "quantize_component (Fin a) (Fin b) (Fin x) = Returns c" "dequantize_component (Fin a) (Fin b) c = Fin y"
      "\<bar>y - x\<bar> \<le> (b - a) / 253 + \<bar>a\<bar> / 2 ^ 24"
      using component_roundtrip [OF abx(4-7)] range abx(1,2) by metis
    then show ?thesis using code [OF i] i abx(1-3) by simp
  qed
  moreover have "?out ! i = fadd (q_min q ! i) (Fin 0)"
    if "i < ?n" "\<not> round32 (1 / 10 ^ 9) < fsub (q_max q ! i) (q_min q ! i)" for i
  proof -
    have "cs ! i = - 127" using quantize_narrow [OF that(2)] code [OF that(1)] by simp
    then show ?thesis using dequantize_low_code [OF mod [OF that(1)]] that(1) by simp
  qed
  moreover have "quantize v ?n q = Returns (Inr cs)" using cs(1) lens assms(4) by (simp add: quantize_def)
  moreover have "dequantize cs ?n q = Returns (Inr ?out)" using cs(2) lens by (simp add: dequantize_def)
  moreover have "length ?out = ?n" by simp
  ultimately show ?thesis by (intro exI [of _ cs] exI [of _ ?out] conjI allI impI) auto
qed

theorem quantize_roundtrip_witness:
  "\<exists>cs out y. quantize [Fin 2, Fin 5] 2 sample_quantizer = Returns (Inr cs) \<and> dequantize cs 2 sample_quantizer = Returns (Inr out) \<and>
     out ! 0 = Fin y \<and> \<bar>y - 2\<bar> \<le> 2 / 253 + 1 / 2 ^ 24 \<and> out ! 1 = fadd (Fin 5) (Fin 0)"
proof -
  let ?q = sample_quantizer and ?v = "[Fin 2, Fin 5]"
  have q: "q_dim ?q = 2" "q_min ?q = [Fin 1, Fin 5]" "q_max ?q = [Fin 3, Fin 5]" by (simp_all add: sample_quantizer_def)
  have two: "(\<forall>i < 2. P i) \<longleftrightarrow> P 0 \<and> P 1" for P :: "nat \<Rightarrow> bool" by (auto simp: less_Suc_eq numeral_2_eq_2)
  have "q_dim ?q \<le> length ?v" "\<forall>i < q_dim ?q. q_min ?q ! i \<le> ?v ! i \<and> ?v ! i \<le> q_max ?q ! i"
    unfolding q two by simp_all
  from quantize_roundtrip [OF sample_trained this] obtain cs out where
    out: "quantize ?v 2 ?q = Returns (Inr cs)" "dequantize cs 2 ?q = Returns (Inr out)"
    and ends: "\<forall>i < 2. if round32 (1 / 10 ^ 9) < fsub (q_max ?q ! i) (q_min ?q ! i)
       then (\<exists>y. out ! i = Fin y \<and>
         \<bar>y - f32_val (?v ! i)\<bar> \<le> (f32_val (q_max ?q ! i) - f32_val (q_min ?q ! i)) / 253 + \<bar>f32_val (q_min ?q ! i)\<bar> / 2 ^ 24)
       else out ! i = fadd (q_min ?q ! i) (Fin 0)"
    unfolding q(1) by blast
  have "\<exists>y. out ! 0 = Fin y \<and> \<bar>y - 2\<bar> \<le> 2 / 253 + 1 / 2 ^ 24"
    using ends [rule_format, of 0] sample_wide(1) by (simp add: q)
  moreover have "out ! 1 = fadd (Fin 5) (Fin 0)"
    using ends [rule_format, of 1] sample_wide(2) by (simp add: q del: fadd.simps)
  ultimately show ?thesis using out by blast
qed

end
