(* ===== verification/Metrics.thy ===== *)
theory Metrics
  imports Coordinator_Http Decimal "HOL-Library.Char_ord" "HOL-Library.List_Lexorder"
begin

text \<open>
  \<^verbatim>\<open>cluster/metrics_registry.hpp\<close> and the coordinator's use of it: counters, gauges and
  histograms in a registry, their text for \<open>GET /metrics\<close>, and observations of one histogram
  by any number of threads at once.  A reference to a metric is its key in the registry.
\<close>

section \<open>Histogram\<close>

record histogram =
  bounds :: "f64 list"
  counts :: "nat list"
  hist_count :: nat
  hist_sum :: f64

definition default_buckets :: "f64 list" where
  "default_buckets = map round64 [1 / 1000, 5 / 1000, 1 / 100, 25 / 1000, 5 / 100, 1 / 10, 25 / 100, 5 / 10, 1, 25 / 10, 5, 10]"

definition new_histogram :: "f64 list \<Rightarrow> histogram" where
  "new_histogram bs = \<lparr>bounds = bs, counts = replicate (length bs + 1) 0, hist_count = 0, hist_sum = Fin 0\<rparr>"

text \<open>The bucket the loop of \<open>observe\<close> stops at.\<close>

fun bucket_of :: "f64 \<Rightarrow> f64 list \<Rightarrow> nat" where
  "bucket_of v [] = 0"
| "bucket_of v (b # bs) = (if v \<le> b then 0 else Suc (bucket_of v bs))"

definition count_up :: "nat \<Rightarrow> nat list \<Rightarrow> nat list" where
  "count_up i cs = cs[i := u64 (cs ! i + 1)]"

definition observe :: "f64 \<Rightarrow> histogram \<Rightarrow> histogram" where
  "observe v h = h\<lparr>hist_sum := dadd (hist_sum h) v, hist_count := u64 (hist_count h + 1),
     counts := count_up (bucket_of v (bounds h)) (counts h)\<rparr>"

section \<open>Registry\<close>

record metric_meta =
  m_name :: string
  m_help :: string
  m_type :: string
  m_labels :: string

record registry =
  counters :: "(string, nat) omap"
  gauges :: "(string, int) omap"
  histograms :: "(string, histogram) omap"
  meta :: "metric_meta list"

definition new_registry :: registry where
  "new_registry = \<lparr>counters = [], gauges = [], histograms = [], meta = []\<rparr>"

definition quote :: string where
  "quote = [CHR 0x22]"

definition newline :: string where
  "newline = [CHR 0x0A]"

fun label_list :: "(string \<times> string) list \<Rightarrow> string" where
  "label_list [] = ''''"
| "label_list [(k, v)] = k @ ''='' @ quote @ v @ quote"
| "label_list ((k, v) # kvs) = k @ ''='' @ quote @ v @ quote @ '','' @ label_list kvs"

definition format_labels :: "(string, string) omap \<Rightarrow> string" where
  "format_labels labels = (if labels = [] then '''' else ''{'' @ label_list labels @ ''}'')"

definition strip_braces :: "string \<Rightarrow> string" where
  "strip_braces labels = (if labels = '''' then '''' else '','' @ butlast (tl labels))"

definition add_meta :: "string \<Rightarrow> string \<Rightarrow> string \<Rightarrow> (string, string) omap \<Rightarrow> registry \<Rightarrow> registry" where
  "add_meta name help tp labels r =
     r\<lparr>meta := meta r @ [\<lparr>m_name = name, m_help = help, m_type = tp, m_labels = format_labels labels\<rparr>]\<rparr>"

definition counter :: "string \<Rightarrow> string \<Rightarrow> (string, string) omap \<Rightarrow> registry \<Rightarrow> string \<times> registry" where
  "counter name help labels r =
     (let key = name @ format_labels labels in
      if map_of (counters r) key \<noteq> None then (key, r)
      else (key, add_meta name help ''counter'' labels (r\<lparr>counters := om_set key 0 (counters r)\<rparr>)))"

definition gauge :: "string \<Rightarrow> string \<Rightarrow> (string, string) omap \<Rightarrow> registry \<Rightarrow> string \<times> registry" where
  "gauge name help labels r =
     (let key = name @ format_labels labels in
      if map_of (gauges r) key \<noteq> None then (key, r)
      else (key, add_meta name help ''gauge'' labels (r\<lparr>gauges := om_set key 0 (gauges r)\<rparr>)))"

definition histogram_ref :: "string \<Rightarrow> string \<Rightarrow> f64 list \<Rightarrow> (string, string) omap \<Rightarrow> registry \<Rightarrow> string \<times> registry" where
  "histogram_ref name help buckets labels r =
     (let key = name @ format_labels labels in
      if map_of (histograms r) key \<noteq> None then (key, r)
      else (key, add_meta name help ''histogram'' labels (r\<lparr>histograms := om_set key (new_histogram buckets) (histograms r)\<rparr>)))"

text \<open>What is done through a reference.\<close>

definition at_key :: "'k::linorder \<Rightarrow> ('v \<Rightarrow> 'v) \<Rightarrow> ('k, 'v) omap \<Rightarrow> ('k, 'v) omap" where
  "at_key k f m = (case map_of m k of None \<Rightarrow> m | Some v \<Rightarrow> om_set k (f v) m)"

definition counter_inc :: "string \<Rightarrow> nat \<Rightarrow> registry \<Rightarrow> registry" where
  "counter_inc key n r = r\<lparr>counters := at_key key (\<lambda>v. u64 (v + n)) (counters r)\<rparr>"

definition gauge_set :: "string \<Rightarrow> int \<Rightarrow> registry \<Rightarrow> registry" where
  "gauge_set key v r = r\<lparr>gauges := at_key key (\<lambda>_. wrap_signed 64 v) (gauges r)\<rparr>"

definition gauge_inc :: "string \<Rightarrow> int \<Rightarrow> registry \<Rightarrow> registry" where
  "gauge_inc key n r = r\<lparr>gauges := at_key key (\<lambda>v. wrap_signed 64 (v + n)) (gauges r)\<rparr>"

definition gauge_dec :: "string \<Rightarrow> int \<Rightarrow> registry \<Rightarrow> registry" where
  "gauge_dec key n r = r\<lparr>gauges := at_key key (\<lambda>v. wrap_signed 64 (v - n)) (gauges r)\<rparr>"

definition histogram_observe :: "string \<Rightarrow> f64 \<Rightarrow> registry \<Rightarrow> registry" where
  "histogram_observe key v r = r\<lparr>histograms := at_key key (observe v) (histograms r)\<rparr>"

text \<open>
  \<open>ScopedTimer\<close>: the readings of the steady clock, in nanoseconds, at construction and at
  destruction; the difference becomes seconds.
\<close>

fun to_seconds :: "f64 \<Rightarrow> f64" where
  "to_seconds (Fin a) = round64 (a / 10 ^ 9)"
| "to_seconds x = x"

definition scoped_timer :: "int \<Rightarrow> int \<Rightarrow> string \<Rightarrow> registry \<Rightarrow> registry" where
  "scoped_timer started ended key r = histogram_observe key (to_seconds (round64 (of_int (ended - started)))) r"

section \<open>Rendering\<close>

text \<open>\<open>meta_.back()\<close> of an empty vector is undefined.\<close>

fun find_meta :: "metric_meta list \<Rightarrow> string \<Rightarrow> metric_meta outcome" where
  "find_meta [] key = Undefined"
| "find_meta [m] key = Returns m"
| "find_meta (m # ms) key = (if key = m_name m @ m_labels m then Returns m else find_meta ms key)"

definition emit_type_help :: "string \<Rightarrow> string \<Rightarrow> string \<Rightarrow> string \<times> string set \<Rightarrow> string \<times> string set" where
  "emit_type_help name tp help s =
     (case s of (out, emitted) \<Rightarrow>
        if name \<in> emitted then (out, emitted)
        else (out @ ''# HELP '' @ name @ '' '' @ help @ newline @ ''# TYPE '' @ name @ '' '' @ tp @ newline, insert name emitted))"

fun render_series :: "string \<Rightarrow> (metric_meta \<Rightarrow> 'v \<Rightarrow> string) \<Rightarrow> metric_meta list \<Rightarrow> (string \<times> 'v) list \<Rightarrow>
    string \<times> string set \<Rightarrow> (string \<times> string set) outcome" where
  "render_series tp text ms [] s = Returns s"
| "render_series tp text ms ((key, v) # kvs) s =
     bind_outcome (find_meta ms key) (\<lambda>m.
       render_series tp text ms kvs (case emit_type_help (m_name m) tp (m_help m) s of (out, emitted) \<Rightarrow> (out @ text m v, emitted)))"

definition counter_text :: "metric_meta \<Rightarrow> nat \<Rightarrow> string" where
  "counter_text m v = m_name m @ m_labels m @ '' '' @ to_string_nat v @ newline"

definition gauge_text :: "metric_meta \<Rightarrow> int \<Rightarrow> string" where
  "gauge_text m v = m_name m @ m_labels m @ '' '' @ to_string v @ newline"

definition bucket_line :: "metric_meta \<Rightarrow> string \<Rightarrow> nat \<Rightarrow> string" where
  "bucket_line m le n = m_name m @ ''_bucket{le='' @ quote @ le @ quote @ strip_braces (m_labels m) @ ''} '' @ to_string_nat n @ newline"

text \<open>The loop over the bounds: its text and the value of \<open>cumulative\<close> after it.\<close>

fun bucket_lines :: "metric_meta \<Rightarrow> f64 list \<Rightarrow> nat list \<Rightarrow> nat \<Rightarrow> string \<times> nat" where
  "bucket_lines m (b # bs) (c # cs) cumulative =
     (let cumulative = u64 (cumulative + c); (rest, total) = bucket_lines m bs cs cumulative
      in (bucket_line m (show_double b) cumulative @ rest, total))"
| "bucket_lines m _ _ cumulative = ('''', cumulative)"

definition histogram_text :: "metric_meta \<Rightarrow> histogram \<Rightarrow> string" where
  "histogram_text m h =
     (let (lines, cumulative) = bucket_lines m (bounds h) (counts h) 0;
          cumulative = u64 (cumulative + counts h ! length (bounds h))
      in lines @ bucket_line m ''+Inf'' cumulative @
         m_name m @ ''_sum'' @ m_labels m @ '' '' @ show_double (hist_sum h) @ newline @
         m_name m @ ''_count'' @ m_labels m @ '' '' @ to_string_nat (hist_count h) @ newline)"

definition render :: "registry \<Rightarrow> string outcome" where
  "render r =
     bind_outcome (render_series ''counter'' counter_text (meta r) (counters r) ('''', {})) (\<lambda>s.
     bind_outcome (render_series ''gauge'' gauge_text (meta r) (gauges r) s) (\<lambda>s.
     bind_outcome (render_series ''histogram'' histogram_text (meta r) (histograms r) s) (\<lambda>s. Returns (fst s))))"

section \<open>The coordinator's metrics\<close>

definition status_label :: "string \<Rightarrow> (string, string) omap" where
  "status_label s = [(''status'', s)]"

text \<open>The registrations at the start of \<open>main\<close>, in order.\<close>

definition init_metrics :: "registry \<Rightarrow> registry" where
  "init_metrics r =
     (let r = snd (counter ''nanodb_inserts_total'' ''Total successful insert operations'' (status_label ''success'') r);
          r = snd (counter ''nanodb_inserts_total'' ''Total successful insert operations'' (status_label ''failure'') r);
          r = snd (counter ''nanodb_searches_total'' ''Total search operations'' (status_label ''success'') r);
          r = snd (counter ''nanodb_searches_total'' ''Total search operations'' (status_label ''failure'') r);
          r = snd (counter ''nanodb_deletes_total'' ''Total successful delete operations'' (status_label ''success'') r);
          r = snd (counter ''nanodb_deletes_total'' ''Total successful delete operations'' (status_label ''failure'') r);
          r = snd (histogram_ref ''nanodb_insert_duration_seconds'' ''Insert operation latency in seconds'' default_buckets [] r);
          r = snd (histogram_ref ''nanodb_search_duration_seconds'' ''Search operation latency in seconds'' default_buckets [] r);
          r = snd (gauge ''nanodb_vectors_total'' ''Total vectors stored across all shards'' [] r);
          r = snd (gauge ''nanodb_shards_active'' ''Number of active shards'' [] r);
          r = snd (gauge ''nanodb_raft_term_current'' ''Current Raft term'' [] r);
          r = snd (gauge ''nanodb_raft_role'' ''Current Raft role (0=follower, 1=candidate, 2=leader)'' [] r);
          r = snd (counter ''nanodb_raft_commits_total'' ''Total Raft log entries committed'' [] r)
      in snd (counter ''nanodb_failovers_total'' ''Total automatic primary failovers'' [] r))"

definition role_value :: "string \<Rightarrow> int" where
  "role_value s = (if s = ''leader'' then 2 else if s = ''candidate'' then 1 else 0)"

definition primary_total :: "(shard_client \<Rightarrow> nat option) \<Rightarrow> shard_client list \<Rightarrow> nat" where
  "primary_total stats pool =
     foldl (\<lambda>total sc. if is_primary sc then (case stats sc of Some n \<Rightarrow> u64 (total + n) | None \<Rightarrow> total) else total) 0 pool"

text \<open>\<open>GET /metrics\<close>; \<open>stats\<close> is what each replica answers within the deadline.\<close>

definition handle_metrics ::
  "(shard_client \<Rightarrow> nat option) \<Rightarrow> raft_node option \<Rightarrow> coordinator \<Rightarrow> registry \<Rightarrow> string outcome \<times> registry" where
  "handle_metrics stats raft c r =
     (let r = (case raft of
                 None \<Rightarrow> r
               | Some n \<Rightarrow> gauge_set ''nanodb_raft_role'' (role_value (st_role (status n)))
                              (gauge_set ''nanodb_raft_term_current'' (int (st_term (status n))) r));
          r = gauge_set ''nanodb_shards_active'' (int (card (shard_id ` set (filter active (g_shards c))))) r;
          r = gauge_set ''nanodb_vectors_total'' (int (primary_total stats (live_shards c))) r
      in (render r, r))"

section \<open>Counting\<close>

lemma bucket_of_le: "bucket_of v bs \<le> length bs"
  by (induction bs) auto

lemma bucket_of_le_iff:
  assumes "sorted_wrt (\<le>) bs" and "i < length bs"
  shows "bucket_of v bs \<le> i \<longleftrightarrow> v \<le> bs ! i"
  using assms
proof (induction bs arbitrary: i)
  case Nil
  then show ?case by simp
next
  case (Cons b bs)
  show ?case
  proof (cases i)
    case 0
    then show ?thesis by simp
  next
    case (Suc j)
    then have "b \<le> bs ! j" using Cons.prems by simp
    then have "v \<le> b \<Longrightarrow> v \<le> bs ! j" using f32_le_trans by blast
    with Suc Cons show ?thesis by auto
  qed
qed

definition hits :: "f64 list \<Rightarrow> f64 list \<Rightarrow> nat \<Rightarrow> nat" where
  "hits bs vs i = length (filter (\<lambda>v. bucket_of v bs = i) vs)"

lemma length_count_up [simp]: "length (count_up i cs) = length cs"
  by (simp add: count_up_def)

text \<open>A histogram after any observations, in one formula.\<close>

definition observed :: "f64 list \<Rightarrow> f64 list \<Rightarrow> histogram" where
  "observed bs vs = foldl (\<lambda>h v. observe v h) (new_histogram bs) vs"

lemma observed_eq:
  "observed bs vs = \<lparr>bounds = bs, counts = map (\<lambda>i. u64 (hits bs vs i)) [0..<length bs + 1],
     hist_count = u64 (length vs), hist_sum = foldl dadd (Fin 0) vs\<rparr>"
proof (induction vs rule: rev_induct)
  case Nil
  have "replicate (length bs + 1) 0 = map (\<lambda>i. u64 (hits bs [] i)) [0..<length bs + 1]"
    by (rule nth_equalityI) (simp_all add: hits_def u64_def del: replicate.simps upt_Suc)
  then show ?case by (simp add: observed_def new_histogram_def u64_def del: replicate.simps upt_Suc)
next
  case (snoc v vs)
  have "observed bs (vs @ [v]) = observe v (observed bs vs)" by (simp add: observed_def)
  moreover have "count_up (bucket_of v bs) (map (\<lambda>i. u64 (hits bs vs i)) [0..<length bs + 1])
      = map (\<lambda>i. u64 (hits bs (vs @ [v]) i)) [0..<length bs + 1]"
    using bucket_of_le [of v bs]
    by (intro nth_equalityI) (auto simp: count_up_def hits_def u64_def nth_list_update mod_simps simp del: upt_Suc)
  ultimately show ?case using snoc.IH by (simp add: observe_def u64_def mod_simps del: upt_Suc)
qed

lemma sum_hits: "sum_list (map (hits bs vs) [0..<k]) = length (filter (\<lambda>v. bucket_of v bs < k) vs)"
proof (induction k)
  case 0
  then show ?case by simp
next
  case (Suc k)
  have "filter (\<lambda>v. bucket_of v bs < Suc k) vs = filter (\<lambda>v. bucket_of v bs < k \<or> bucket_of v bs = k) vs"
    by (simp add: less_Suc_eq)
  moreover have "length (filter (\<lambda>v. bucket_of v bs < k \<or> bucket_of v bs = k) vs)
      = length (filter (\<lambda>v. bucket_of v bs < k) vs) + length (filter (\<lambda>v. bucket_of v bs = k) vs)"
    by (induction vs) auto
  ultimately show ?case using Suc by (simp add: hits_def)
qed

lemma bucket_lines_eq:
  assumes "length bs \<le> length cs" and "cum + sum_list (take (length bs) cs) < 2 ^ 64"
  shows "bucket_lines m bs cs cum =
    (concat (map (\<lambda>i. bucket_line m (show_double (bs ! i)) (cum + sum_list (take (Suc i) cs))) [0..<length bs]),
     cum + sum_list (take (length bs) cs))"
  using assms
proof (induction m bs cs cum rule: bucket_lines.induct)
  case (1 m b bs c cs cum)
  then have "u64 (cum + c) = cum + c" by (simp add: u64_id)
  moreover have "[0..<length (b # bs)] = 0 # map Suc [0..<length bs]" by (simp add: map_Suc_upt upt_conv_Cons del: upt_Suc)
  ultimately show ?case using 1 by (simp add: o_def add.assoc del: upt_Suc)
qed auto

section \<open>Observations at once\<close>

text \<open>
  \<open>observe\<close> is a load and a compare-and-exchange loop on the sum, an atomic increment of the
  count and one of a bucket.  Thread \<open>i\<close> observes the \<open>i\<close>-th value; a weak exchange may also fail
  when the sum has not changed.
\<close>

datatype obs_phase = ObsStart | ObsLoaded f64 | ObsSummed | ObsCounted | ObsDone

type_synonym observing = "histogram \<times> (nat \<Rightarrow> obs_phase)"

inductive obs_step :: "f64 list \<Rightarrow> observing \<Rightarrow> observing \<Rightarrow> bool" for vs where
  load_sum: "i < length vs \<Longrightarrow> ph i = ObsStart \<Longrightarrow> obs_step vs (h, ph) (h, ph(i := ObsLoaded (hist_sum h)))"
| exchange: "i < length vs \<Longrightarrow> ph i = ObsLoaded (hist_sum h) \<Longrightarrow>
    obs_step vs (h, ph) (h\<lparr>hist_sum := dadd (hist_sum h) (vs ! i)\<rparr>, ph(i := ObsSummed))"
| exchange_fails: "i < length vs \<Longrightarrow> ph i = ObsLoaded s \<Longrightarrow> obs_step vs (h, ph) (h, ph(i := ObsLoaded (hist_sum h)))"
| add_count: "i < length vs \<Longrightarrow> ph i = ObsSummed \<Longrightarrow>
    obs_step vs (h, ph) (h\<lparr>hist_count := u64 (hist_count h + 1)\<rparr>, ph(i := ObsCounted))"
| add_bucket: "i < length vs \<Longrightarrow> ph i = ObsCounted \<Longrightarrow>
    obs_step vs (h, ph) (h\<lparr>counts := count_up (bucket_of (vs ! i) (bounds h)) (counts h)\<rparr>, ph(i := ObsDone))"

definition past_sum :: "obs_phase \<Rightarrow> bool" where
  "past_sum p \<longleftrightarrow> p = ObsSummed \<or> p = ObsCounted \<or> p = ObsDone"

definition past_count :: "obs_phase \<Rightarrow> bool" where
  "past_count p \<longleftrightarrow> p = ObsCounted \<or> p = ObsDone"

text \<open>The order in which the exchanges succeed is the order of the observations.\<close>

definition obs_inv :: "f64 list \<Rightarrow> f64 list \<Rightarrow> observing \<Rightarrow> bool" where
  "obs_inv bs vs st \<longleftrightarrow> (case st of (h, ph) \<Rightarrow>
     bounds h = bs \<and>
     (\<exists>ts. distinct ts \<and> set ts = {i. i < length vs \<and> past_sum (ph i)} \<and>
        hist_sum h = foldl dadd (Fin 0) (map ((!) vs) ts)) \<and>
     hist_count h = u64 (card {i. i < length vs \<and> past_count (ph i)}) \<and>
     counts h = map (\<lambda>j. u64 (card {i. i < length vs \<and> ph i = ObsDone \<and> bucket_of (vs ! i) bs = j})) [0..<length bs + 1])"

lemma card_new: "finite {i. i < n \<and> P i} \<Longrightarrow> k < n \<Longrightarrow> \<not> P k \<Longrightarrow> card {i. i < n \<and> (i = k \<or> P i)} = Suc (card {i. i < n \<and> P i})"
proof -
  assume a: "finite {i. i < n \<and> P i}" "k < n" "\<not> P k"
  have "{i. i < n \<and> (i = k \<or> P i)} = insert k {i. i < n \<and> P i}" using a(2) by auto
  with a show ?thesis by simp
qed

lemma obs_inv_start: "obs_inv bs vs (new_histogram bs, \<lambda>_. ObsStart)"
proof -
  have "replicate (length bs + 1) 0 = map (\<lambda>j. 0) [0..<length bs + 1]"
    by (rule nth_equalityI) (simp_all del: replicate.simps upt_Suc)
  then show ?thesis
    by (simp add: obs_inv_def new_histogram_def past_sum_def past_count_def u64_def del: replicate.simps upt_Suc)
qed

lemma phase_sets:
  "past_sum (ph k) = past_sum p \<Longrightarrow> {i. i < n \<and> past_sum ((ph(k := p)) i)} = {i. i < n \<and> past_sum (ph i)}"
  "past_count (ph k) = past_count p \<Longrightarrow> {i. i < n \<and> past_count ((ph(k := p)) i)} = {i. i < n \<and> past_count (ph i)}"
  "(ph k = ObsDone) = (p = ObsDone) \<Longrightarrow> {i. i < n \<and> (ph(k := p)) i = ObsDone \<and> Q i} = {i. i < n \<and> ph i = ObsDone \<and> Q i}"
  by auto

lemma obs_inv_same:
  assumes "obs_inv bs vs (h, ph)" and "past_sum (ph k) = past_sum p" and "past_count (ph k) = past_count p"
    and "(ph k = ObsDone) = (p = ObsDone)"
  shows "obs_inv bs vs (h, ph(k := p))"
  using assms(1) unfolding obs_inv_def prod.case 
    phase_sets(1) [of ph k p, OF assms(2)] phase_sets(2) [of ph k p, OF assms(3)] phase_sets(3) [of ph k p, OF assms(4)] .

lemma obs_inv_exchange:
  assumes "obs_inv bs vs (h, ph)" and "k < length vs" and "ph k = ObsLoaded (hist_sum h)"
  shows "obs_inv bs vs (h\<lparr>hist_sum := dadd (hist_sum h) (vs ! k)\<rparr>, ph(k := ObsSummed))"
proof -
  obtain ts where ts: "distinct ts" "set ts = {i. i < length vs \<and> past_sum (ph i)}" "hist_sum h = foldl dadd (Fin 0) (map ((!) vs) ts)"
    using assms(1) by (auto simp: obs_inv_def)
  have "{i. i < length vs \<and> past_sum ((ph(k := ObsSummed)) i)} = insert k (set ts)"
    using ts(2) assms(2) by (auto simp: past_sum_def)
  moreover have "k \<notin> set ts" using ts(2) assms(3) by (simp add: past_sum_def)
  ultimately have "\<exists>ts. distinct ts \<and> set ts = {i. i < length vs \<and> past_sum ((ph(k := ObsSummed)) i)} \<and>
      dadd (hist_sum h) (vs ! k) = foldl dadd (Fin 0) (map ((!) vs) ts)"
    using ts by (intro exI [of _ "ts @ [k]"]) auto
  moreover have "past_count (ph k) = past_count ObsSummed" "(ph k = ObsDone) = (ObsSummed = ObsDone)"
    using assms(3) by (simp_all add: past_count_def)
  ultimately show ?thesis using assms(1) unfolding obs_inv_def prod.case
    by (simp only: phase_sets(2,3)) simp
qed

lemma obs_inv_count:
  assumes "obs_inv bs vs (h, ph)" and "k < length vs" and "ph k = ObsSummed"
  shows "obs_inv bs vs (h\<lparr>hist_count := u64 (hist_count h + 1)\<rparr>, ph(k := ObsCounted))"
proof -
  have "{i. i < length vs \<and> past_count ((ph(k := ObsCounted)) i)} = {i. i < length vs \<and> (i = k \<or> past_count (ph i))}"
    by (auto simp: past_count_def)
  also have "card \<dots> = Suc (card {i. i < length vs \<and> past_count (ph i)})"
    by (rule card_new) (use assms(2,3) in \<open>simp_all add: past_count_def\<close>)
  finally have "u64 (hist_count h + 1) = u64 (card {i. i < length vs \<and> past_count ((ph(k := ObsCounted)) i)})"
    using assms(1) by (simp add: obs_inv_def u64_def mod_simps)
  moreover have "past_sum (ph k) = past_sum ObsCounted" "(ph k = ObsDone) = (ObsCounted = ObsDone)"
    using assms(3) by (simp_all add: past_sum_def)
  ultimately show ?thesis using assms(1) unfolding obs_inv_def prod.case
    by (simp only: phase_sets(1,3)) simp
qed

lemma obs_inv_bucket:
  assumes "obs_inv bs vs (h, ph)" and "k < length vs" and "ph k = ObsCounted"
  shows "obs_inv bs vs (h\<lparr>counts := count_up (bucket_of (vs ! k) (bounds h)) (counts h)\<rparr>, ph(k := ObsDone))"
proof -
  let ?C = "\<lambda>ph j. card {i. i < length vs \<and> ph i = ObsDone \<and> bucket_of (vs ! i) bs = j}" and ?ph = "ph(k := ObsDone)"
  have b: "bounds h = bs" "counts h = map (\<lambda>j. u64 (?C ph j)) [0..<length bs + 1]" using assms(1) by (simp_all add: obs_inv_def)
  have C: "?C ?ph j = (if j = bucket_of (vs ! k) bs then Suc (?C ph j) else ?C ph j)" for j
  proof (cases "j = bucket_of (vs ! k) bs")
    case True
    then have "{i. i < length vs \<and> ?ph i = ObsDone \<and> bucket_of (vs ! i) bs = j}
        = {i. i < length vs \<and> (i = k \<or> ph i = ObsDone \<and> bucket_of (vs ! i) bs = j)}" by auto
    also have "card \<dots> = Suc (?C ph j)" by (rule card_new) (use assms(2,3) in simp_all)
    finally show ?thesis using True by simp
  next
    case False
    then show ?thesis by (auto intro: arg_cong [where f = card])
  qed
  have "count_up (bucket_of (vs ! k) bs) (counts h) = map (\<lambda>j. u64 (?C ?ph j)) [0..<length bs + 1]"
    using bucket_of_le [of "vs ! k" bs] C
    by (intro nth_equalityI) (auto simp: b(2) count_up_def nth_list_update u64_def mod_simps simp del: upt_Suc)
  moreover have "past_sum (ph k) = past_sum ObsDone" "past_count (ph k) = past_count ObsDone"
    using assms(3) by (simp_all add: past_sum_def past_count_def)
  ultimately show ?thesis using assms(1) unfolding obs_inv_def prod.case
    by (simp only: phase_sets(1,2)) (simp add: b(1))
qed

lemma obs_inv_step:
  assumes "obs_inv bs vs st" and "obs_step vs st st'"
  shows "obs_inv bs vs st'"
  using assms(2)
proof cases
  case (load_sum i ph h)
  then show ?thesis using obs_inv_same [of bs vs h ph i] assms(1) by (simp add: past_sum_def past_count_def)
next
  case (exchange i ph h)
  then show ?thesis using obs_inv_exchange assms(1) by simp
next
  case (exchange_fails i ph s h)
  then show ?thesis using obs_inv_same [of bs vs h ph i] assms(1) by (simp add: past_sum_def past_count_def)
next
  case (add_count i ph h)
  then show ?thesis using obs_inv_count assms(1) by simp
next
  case (add_bucket i ph h)
  then show ?thesis using obs_inv_bucket assms(1) by simp
qed

section \<open>Properties\<close>

lemma hits_total:
  assumes "length vs < 2 ^ 64"
  shows "map (\<lambda>i. u64 (hits bs vs i)) [0..<n] = map (hits bs vs) [0..<n]"
proof -
  have "hits bs vs i < 2 ^ 64" for i unfolding hits_def using order.strict_trans1 [OF length_filter_le assms] .
  then show ?thesis by (simp add: u64_id)
qed

text \<open>
  The text of a histogram says the truth about what it observed: the line of each bound
  counts the values up to the bound, the last bucket and the count are the number of
  observations (a NaN or an infinity included), the sum is the rounded running sum.
\<close>

lemma histogram_text_counts:
  assumes "sorted_wrt (\<le>) bs" and "length vs < 2 ^ 64"
  shows "histogram_text m (observed bs vs) =
    concat (map (\<lambda>b. bucket_line m (show_double b) (length (filter (\<lambda>v. v \<le> b) vs))) bs) @
    bucket_line m ''+Inf'' (length vs) @
    m_name m @ ''_sum'' @ m_labels m @ '' '' @ show_double (foldl dadd (Fin 0) vs) @ newline @
    m_name m @ ''_count'' @ m_labels m @ '' '' @ to_string_nat (length vs) @ newline"
proof -
  let ?n = "length bs" and ?cs = "map (hits bs vs) [0..<length bs + 1]"
  have take: "sum_list (take k ?cs) = length (filter (\<lambda>v. bucket_of v bs < k) vs)" if "k \<le> ?n + 1" for k
    using that sum_hits [of bs vs k] by (simp add: take_map del: upt_Suc)
  have small: "length (filter P vs) < 2 ^ 64" for P using assms(2) length_filter_le [of P vs] by linarith
  have line: "length (filter (\<lambda>v. bucket_of v bs < Suc i) vs) = length (filter (\<lambda>v. v \<le> bs ! i) vs)" if "i < ?n" for i
    using bucket_of_le_iff [OF assms(1) that] by (simp add: less_Suc_eq_le)
  have upto: "sum_list (take (Suc i) ?cs) = length (filter (\<lambda>v. v \<le> bs ! i) vs)" if "i < ?n" for i
    using take [of "Suc i"] line [OF that] that by (simp del: upt_Suc)
  have "bucket_lines m bs ?cs 0 =
      (concat (map (\<lambda>i. bucket_line m (show_double (bs ! i)) (sum_list (take (Suc i) ?cs))) [0..<?n]),
       length (filter (\<lambda>v. bucket_of v bs < ?n) vs))"
    using bucket_lines_eq [of bs ?cs 0 m] take [of ?n] small by (simp del: upt_Suc)
  moreover have "map (\<lambda>i. bucket_line m (show_double (bs ! i)) (sum_list (take (Suc i) ?cs))) [0..<?n]
      = map (\<lambda>i. bucket_line m (show_double (bs ! i)) (length (filter (\<lambda>v. v \<le> bs ! i) vs))) [0..<?n]"
    using upto by (intro map_cong refl) (simp del: upt_Suc)
  moreover have "map (\<lambda>i. bucket_line m (show_double (bs ! i)) (length (filter (\<lambda>v. v \<le> bs ! i) vs))) [0..<?n]
      = map (\<lambda>b. bucket_line m (show_double b) (length (filter (\<lambda>v. v \<le> b) vs))) bs"
    by (rule nth_equalityI) simp_all
  moreover have "length (filter (\<lambda>v. bucket_of v bs < ?n) vs) + hits bs vs ?n = length vs"
    using sum_hits [of bs vs "Suc ?n"] sum_hits [of bs vs ?n] bucket_of_le [of _ bs] by (simp add: le_imp_less_Suc)
  ultimately show ?thesis
    using assms(2) by (simp add: histogram_text_def observed_eq hits_total u64_id nth_append del: upt_Suc)
qed

text \<open>
  C30: whatever the interleaving of the atomic operations, once every thread has finished the
  histogram is the one that observing the same values one after another, in some order,
  gives: no observation is lost or counted twice.
\<close>

theorem observe_linearizable:
  assumes "(obs_step vs)\<^sup>*\<^sup>* (new_histogram bs, \<lambda>_. ObsStart) (h, ph)" and "\<forall>i < length vs. ph i = ObsDone"
  shows "\<exists>vs'. mset vs' = mset vs \<and> h = observed bs vs'"
proof -
  have "obs_inv bs vs st" if "(obs_step vs)\<^sup>*\<^sup>* (new_histogram bs, \<lambda>_. ObsStart) st" for st
    using that
  proof (induction rule: rtranclp_induct)
    case base
    show ?case by (rule obs_inv_start)
  next
    case (step st st')
    then show ?case using obs_inv_step by blast
  qed
  from this [OF assms(1)] obtain ts where inv: "bounds h = bs" "distinct ts" "set ts = {i. i < length vs \<and> past_sum (ph i)}"
    "hist_sum h = foldl dadd (Fin 0) (map ((!) vs) ts)" "hist_count h = u64 (card {i. i < length vs \<and> past_count (ph i)})"
    "counts h = map (\<lambda>j. u64 (card {i. i < length vs \<and> ph i = ObsDone \<and> bucket_of (vs ! i) bs = j})) [0..<length bs + 1]"
    by (auto simp: obs_inv_def)
  define vs' where "vs' = map ((!) vs) ts"
  have "mset ts = mset [0..<length vs]"
    using inv(2,3) assms(2) by (intro set_eq_iff_mset_eq_distinct [THEN iffD1]) (auto simp: past_sum_def)
  then have "mset vs' = mset (map ((!) vs) [0..<length vs])" by (simp only: vs'_def mset_map)
  then have perm: "mset vs' = mset vs" by (simp add: map_nth)
  then have "length vs' = length vs" by (rule mset_eq_length)
  moreover have "hits bs vs' j = card {i. i < length vs \<and> ph i = ObsDone \<and> bucket_of (vs ! i) bs = j}" for j
  proof -
    have "hits bs vs' j = hits bs vs j"
      unfolding hits_def by (metis mset_filter perm size_mset)
    also have "\<dots> = card {i. i < length vs \<and> ph i = ObsDone \<and> bucket_of (vs ! i) bs = j}"
      unfolding hits_def length_filter_conv_card using assms(2) by (intro arg_cong [where f = card]) auto
    finally show ?thesis .
  qed
  moreover have "card {i. i < length vs \<and> past_count (ph i)} = length vs"
  proof -
    have "{i. i < length vs \<and> past_count (ph i)} = {..<length vs}" using assms(2) by (auto simp: past_count_def)
    then show ?thesis by simp
  qed
  ultimately have "h = observed bs vs'" using inv by (simp add: observed_eq vs'_def [symmetric] del: upt_Suc)
  with perm show ?thesis by blast
qed

text \<open>Two threads; the second loses the first exchange and tries again.\<close>

lemma two_observers:
  "\<exists>h ph. (obs_step [Fin 1, Fin 3])\<^sup>*\<^sup>* (new_histogram [Fin 2], \<lambda>_. ObsStart) (h, ph) \<and> ph 0 = ObsDone \<and> ph 1 = ObsDone"
  apply (intro exI conjI)
    apply (rule converse_rtranclp_into_rtranclp, rule load_sum [where i = 0], simp, simp)
    apply (rule converse_rtranclp_into_rtranclp, rule load_sum [where i = 1], simp, simp)
    apply (rule converse_rtranclp_into_rtranclp, rule exchange [where i = 0], simp, simp)
    apply (rule converse_rtranclp_into_rtranclp, rule exchange_fails [where i = 1], simp, simp)
    apply (rule converse_rtranclp_into_rtranclp, rule exchange [where i = 1], simp, simp)
    apply (rule converse_rtranclp_into_rtranclp, rule add_count [where i = 1], simp, simp)
    apply (rule converse_rtranclp_into_rtranclp, rule add_count [where i = 0], simp, simp)
    apply (rule converse_rtranclp_into_rtranclp, rule add_bucket [where i = 0], simp, simp)
    apply (rule converse_rtranclp_into_rtranclp, rule add_bucket [where i = 1], simp, simp)
    apply (rule rtranclp.rtrancl_refl)
   apply simp_all
  done

theorem observe_linearizable_witness:
  "\<exists>h ph vs'. (obs_step [Fin 1, Fin 3])\<^sup>*\<^sup>* (new_histogram [Fin 2], \<lambda>_. ObsStart) (h, ph) \<and>
     ph 0 = ObsDone \<and> ph 1 = ObsDone \<and> mset vs' = {#Fin 1, Fin 3#} \<and> h = observed [Fin 2] vs'"
proof -
  obtain h ph where run: "(obs_step [Fin 1, Fin 3])\<^sup>*\<^sup>* (new_histogram [Fin 2], \<lambda>_. ObsStart) (h, ph)" "ph 0 = ObsDone" "ph 1 = ObsDone"
    using two_observers by blast
  then have "\<forall>i < length [Fin 1, Fin 3]. ph i = ObsDone" by (simp add: less_Suc_eq)
  from observe_linearizable [OF run(1) this] run show ?thesis by auto
qed

section \<open>The page is always rendered\<close>

definition has_meta :: "metric_meta list \<Rightarrow> string \<Rightarrow> bool" where
  "has_meta ms key \<longleftrightarrow> (\<exists>m \<in> set ms. key = m_name m @ m_labels m)"

definition registry_ok :: "registry \<Rightarrow> bool" where
  "registry_ok r \<longleftrightarrow> om_wf (counters r) \<and> om_wf (gauges r) \<and> om_wf (histograms r) \<and>
     (\<forall>k \<in> fst ` set (counters r) \<union> fst ` set (gauges r) \<union> fst ` set (histograms r). has_meta (meta r) k)"

lemma find_meta_found: "has_meta ms key \<Longrightarrow> \<exists>m. find_meta ms key = Returns m \<and> key = m_name m @ m_labels m"
  by (induction ms key rule: find_meta.induct) (auto simp: has_meta_def)

lemma render_series_ok: "\<forall>k \<in> fst ` set kvs. has_meta ms k \<Longrightarrow> \<exists>s'. render_series tp text ms kvs s = Returns s'"
proof (induction kvs arbitrary: s)
  case Nil
  then show ?case by simp
next
  case (Cons kv kvs)
  obtain k v where kv: "kv = (k, v)" by fastforce
  obtain m where "find_meta ms k = Returns m" using find_meta_found [of ms k] Cons.prems kv by auto
  moreover obtain out emitted where "emit_type_help (m_name m) tp (m_help m) s = (out, emitted)" by fastforce
  ultimately show ?case using Cons.IH [of "(out @ text m v, emitted)"] Cons.prems kv by simp
qed

lemma render_ok: "registry_ok r \<Longrightarrow> \<exists>text. render r = Returns text"
proof -
  assume "registry_ok r"
  then have m: "\<forall>k \<in> fst ` set (counters r). has_meta (meta r) k" "\<forall>k \<in> fst ` set (gauges r). has_meta (meta r) k"
    "\<forall>k \<in> fst ` set (histograms r). has_meta (meta r) k" by (auto simp: registry_ok_def)
  obtain s1 where "render_series ''counter'' counter_text (meta r) (counters r) ('''', {}) = Returns s1"
    using render_series_ok [OF m(1)] by blast
  moreover obtain s2 where "render_series ''gauge'' gauge_text (meta r) (gauges r) s1 = Returns s2"
    using render_series_ok [OF m(2)] by blast
  moreover obtain s3 where "render_series ''histogram'' histogram_text (meta r) (histograms r) s2 = Returns s3"
    using render_series_ok [OF m(3)] by blast
  ultimately show ?thesis by (simp add: render_def)
qed

lemma has_meta_new: "has_meta (ms @ [\<lparr>m_name = n, m_help = h, m_type = t, m_labels = l\<rparr>]) k \<longleftrightarrow> has_meta ms k \<or> k = n @ l"
  by (auto simp: has_meta_def)

text \<open>Registering, and every update through a reference, keeps a description for each series.\<close>

lemma registry_ok_register:
  assumes "registry_ok r"
  shows "registry_ok (snd (counter name help labels r))" "registry_ok (snd (gauge name help labels r))"
    "registry_ok (snd (histogram_ref name help buckets labels r))"
  using assms
  by (auto simp: counter_def gauge_def histogram_ref_def Let_def add_meta_def registry_ok_def has_meta_new
      dest!: subsetD [OF set_om_set_subset])

lemma at_key_wf: "om_wf m \<Longrightarrow> om_wf (at_key k f m)"
  by (auto simp: at_key_def split: option.splits)

lemma at_key_keys: "fst ` set (at_key k f m) = fst ` set m"
  by (auto simp: at_key_def map_of_eq_None_iff split: option.splits dest: map_of_SomeD)
     (metis fst_conv image_eqI map_of_SomeD)+

lemma registry_ok_update:
  assumes "registry_ok r"
  shows "registry_ok (counter_inc key n r)" "registry_ok (gauge_set key v r)" "registry_ok (gauge_inc key v r)"
    "registry_ok (gauge_dec key v r)" "registry_ok (histogram_observe key x r)"
  using assms
  by (simp_all add: counter_inc_def gauge_set_def gauge_inc_def gauge_dec_def histogram_observe_def registry_ok_def at_key_wf at_key_keys)

lemma registry_ok_init: "registry_ok r \<Longrightarrow> registry_ok (init_metrics r)"
  unfolding init_metrics_def Let_def by (intro registry_ok_register)

datatype metric_op = CounterInc string nat | GaugeSet string int | GaugeInc string int | GaugeDec string int | Observe string f64

fun exec_metric :: "metric_op \<Rightarrow> registry \<Rightarrow> registry" where
  "exec_metric (CounterInc key n) r = counter_inc key n r"
| "exec_metric (GaugeSet key v) r = gauge_set key v r"
| "exec_metric (GaugeInc key v) r = gauge_inc key v r"
| "exec_metric (GaugeDec key v) r = gauge_dec key v r"
| "exec_metric (Observe key x) r = histogram_observe key x r"

definition gauge_keys :: "registry \<Rightarrow> string set" where
  "gauge_keys r = fst ` set (gauges r)"

lemma gauge_keys_update [simp]: "gauge_keys (gauge_set key v r) = gauge_keys r"
  by (simp add: gauge_keys_def gauge_set_def at_key_keys)

lemma exec_metric_ok:
  assumes "registry_ok r"
  shows "registry_ok (exec_metric op r)" "gauge_keys (exec_metric op r) = gauge_keys r"
  using registry_ok_update [OF assms]
  by (cases op; simp)
     (cases op; simp add: gauge_keys_def counter_inc_def gauge_set_def gauge_inc_def gauge_dec_def histogram_observe_def at_key_keys)

lemma exec_metrics_ok:
  assumes "registry_ok r"
  shows "registry_ok (foldl (\<lambda>r op. exec_metric op r) r ops) \<and> gauge_keys (foldl (\<lambda>r op. exec_metric op r) r ops) = gauge_keys r"
  using assms
proof (induction ops arbitrary: r)
  case Nil
  then show ?case by simp
next
  case (Cons op ops)
  then show ?case using exec_metric_ok [OF Cons.prems, of op] by simp
qed

lemma init_gauge_keys: "''nanodb_vectors_total'' \<in> gauge_keys (init_metrics r)"
proof -
  have keep: "gauge_keys (snd (counter n h l r)) = gauge_keys r" "gauge_keys (snd (histogram_ref n h b l r)) = gauge_keys r" for n h l b r
    by (simp_all add: counter_def histogram_ref_def gauge_keys_def add_meta_def Let_def)
  have more: "gauge_keys (snd (gauge n h l r)) = insert (n @ format_labels l) (gauge_keys r)" for n h l r
    by (auto simp: gauge_def gauge_keys_def add_meta_def Let_def map_of_eq_None_iff)
  show ?thesis by (simp add: init_metrics_def Let_def keep more format_labels_def)
qed

lemma gauge_set_value: "registry_ok r \<Longrightarrow> key \<in> gauge_keys r \<Longrightarrow> map_of (gauges (gauge_set key v r)) key = Some (wrap_signed 64 v)"
  by (auto simp: gauge_set_def at_key_def registry_ok_def gauge_keys_def map_of_om_set map_of_eq_None_iff split: option.splits)

text \<open>
  \<open>GET /metrics\<close> always renders, after any counting, setting and observing: the list of
  descriptions is never empty when a series is looked up.  The page's total is the number of
  vectors that the primaries which answered report.
\<close>

lemma metrics_page_renders:
  "\<exists>text r'. handle_metrics stats raft c (foldl (\<lambda>r op. exec_metric op r) (init_metrics new_registry) ops) = (Returns text, r') \<and>
     map_of (gauges r') ''nanodb_vectors_total'' = Some (wrap_signed 64 (int (primary_total stats (live_shards c))))"
proof -
  let ?r = "foldl (\<lambda>r op. exec_metric op r) (init_metrics new_registry) ops"
  have "registry_ok new_registry" by (simp add: registry_ok_def new_registry_def om_wf_def)
  then have r: "registry_ok ?r" "''nanodb_vectors_total'' \<in> gauge_keys ?r"
    using exec_metrics_ok [OF registry_ok_init] init_gauge_keys by auto
  define r1 where "r1 = (case raft of None \<Rightarrow> ?r
    | Some n \<Rightarrow> gauge_set ''nanodb_raft_role'' (role_value (st_role (status n))) (gauge_set ''nanodb_raft_term_current'' (int (st_term (status n))) ?r))"
  define r2 where "r2 = gauge_set ''nanodb_shards_active'' (int (card (shard_id ` set (filter active (g_shards c))))) r1"
  define r3 where "r3 = gauge_set ''nanodb_vectors_total'' (int (primary_total stats (live_shards c))) r2"
  have r2: "registry_ok r2" "''nanodb_vectors_total'' \<in> gauge_keys r2"
    using r by (auto simp: r1_def r2_def registry_ok_update split: option.splits)
  have "handle_metrics stats raft c ?r = (render r3, r3)"
    by (simp only: handle_metrics_def Let_def r1_def r2_def r3_def)
  moreover have "\<exists>text. render r3 = Returns text" unfolding r3_def by (rule render_ok [OF registry_ok_update(2) [OF r2(1)]])
  moreover have "map_of (gauges r3) ''nanodb_vectors_total'' = Some (wrap_signed 64 (int (primary_total stats (live_shards c))))"
    unfolding r3_def by (rule gauge_set_value [OF r2])
  ultimately show ?thesis by auto
qed

end
