(* ===== verification/Spinlock.thy ===== *)
theory Spinlock
  imports Main
begin

text \<open>
  \<^verbatim>\<open>include/concurrency/spinlock.hpp\<close>: a test-and-set lock, with threads that take it around a
  critical section the way \<open>add_link\<close> of the index does.  A step is one atomic operation.
\<close>

datatype spin_phase = Outside | Spinning | Inside

type_synonym spinning = "bool \<times> (nat \<Rightarrow> spin_phase)"

text \<open>One \<open>test_and_set\<close>: its result and the flag after it; \<open>unlock\<close> clears the flag.\<close>

definition test_and_set :: "bool \<Rightarrow> bool \<times> bool" where
  "test_and_set flag = (flag, True)"

definition unlock :: "bool \<Rightarrow> bool" where
  "unlock flag = False"

inductive spin_step :: "spinning \<Rightarrow> spinning \<Rightarrow> bool" where
  call_lock: "ph t = Outside \<Longrightarrow> spin_step (flag, ph) (flag, ph(t := Spinning))"
| try_lock: "ph t = Spinning \<Longrightarrow> test_and_set flag = (held, flag') \<Longrightarrow>
    spin_step (flag, ph) (flag', ph(t := (if held then Spinning else Inside)))"
| call_unlock: "ph t = Inside \<Longrightarrow> spin_step (flag, ph) (unlock flag, ph(t := Outside))"

definition spin_inv :: "spinning \<Rightarrow> bool" where
  "spin_inv st \<longleftrightarrow> (case st of (flag, ph) \<Rightarrow>
     (if flag then \<exists>t. \<forall>u. ph u = Inside \<longleftrightarrow> u = t else \<forall>u. ph u \<noteq> Inside))"

lemma spin_inv_step:
  assumes "spin_inv st" and "spin_step st st'"
  shows "spin_inv st'"
  using assms(2)
proof cases
  case (call_lock ph t flag)
  then have "(ph(t := Spinning)) u = Inside \<longleftrightarrow> ph u = Inside" for u by auto
  with call_lock show ?thesis using assms(1) by (simp add: spin_inv_def)
next
  case (try_lock ph t flag held flag')
  show ?thesis
  proof (cases flag)
    case True
    then obtain w where w: "\<forall>u. ph u = Inside \<longleftrightarrow> u = w" using assms(1) try_lock by (auto simp: spin_inv_def)
    then have "ph w = Inside" by simp
    then have "w \<noteq> t" using try_lock(3) by auto
    with w True try_lock show ?thesis by (auto simp: spin_inv_def test_and_set_def)
  next
    case False
    then have "\<forall>u. ph u \<noteq> Inside" using assms(1) try_lock by (simp add: spin_inv_def)
    with False try_lock show ?thesis by (auto simp: spin_inv_def test_and_set_def)
  qed
next
  case (call_unlock ph t flag)
  then have "\<forall>u. ph u = Inside \<longleftrightarrow> u = t" using assms(1) by (auto simp: spin_inv_def split: if_splits)
  with call_unlock show ?thesis by (simp add: spin_inv_def unlock_def)
qed

text \<open>
  At most one thread is inside, whatever the interleaving, and while the lock is free any
  thread that tries gets it at once.
\<close>

lemma spin_mutual_exclusion:
  assumes "spin_step\<^sup>*\<^sup>* (False, \<lambda>_. Outside) (flag, ph)"
  shows "ph t = Inside \<Longrightarrow> ph u = Inside \<Longrightarrow> t = u"
    and "\<forall>v. ph v \<noteq> Inside \<Longrightarrow> ph t = Spinning \<Longrightarrow> spin_step (flag, ph) (True, ph(t := Inside))"
proof -
  have "spin_inv st" if "spin_step\<^sup>*\<^sup>* (False, \<lambda>_. Outside) st" for st
    using that
  proof (induction rule: rtranclp_induct)
    case base
    show ?case by (simp add: spin_inv_def)
  next
    case (step st st')
    then show ?case using spin_inv_step by blast
  qed
  from this [OF assms] have inv: "spin_inv (flag, ph)" .
  show "ph t = Inside \<Longrightarrow> ph u = Inside \<Longrightarrow> t = u" using inv by (auto simp: spin_inv_def split: if_splits)
  assume free: "\<forall>v. ph v \<noteq> Inside" and t: "ph t = Spinning"
  then have "\<not> flag" using inv by (auto simp: spin_inv_def split: if_splits)
  then show "spin_step (flag, ph) (True, ph(t := Inside))"
    using try_lock [of ph t flag False True, OF t] by (simp add: test_and_set_def)
qed

end
