(* ===== verification/Spec2Isabelle.thy ===== *)
theory Spec2Isabelle
  imports Coordinator_Group Cluster_Search Cluster_Config Server Demo Python_Bindings Quantizer_Error Metrics Spinlock
begin

text \<open>
  \<^bold>\<open>Distributed Nano-DB: a verification development.\<close>

  \<^bold>\<open>The program.\<close>  Nano-DB is a sharded vector database in C++.  Clients talk HTTP to a
  \<^emph>\<open>coordinator\<close> (\<^verbatim>\<open>src/cluster/coordinator_main.cpp\<close>).  A key is mapped to a shard by a
  consistent-hash ring (\<^verbatim>\<open>src/cluster/routing.hpp\<close>, \<^verbatim>\<open>src/cluster/hash_ring.hpp\<close>); each shard
  is a set of replicas, one of them primary, and a write succeeds if the primary and a
  majority of the replicas acknowledge it.  Which shards exist, which replica is primary and
  the fencing epoch of each shard is the coordinators' shared state: a Raft group
  (\<^verbatim>\<open>src/cluster/raft_node.hpp\<close>) replicates a log of JSON commands
  (\<^verbatim>\<open>src/cluster/raft_log.hpp\<close>), whose committed entries every coordinator applies to its own
  copy of the topology; the log is compacted into snapshots of that topology.  Term and vote
  live in a second file (\<^verbatim>\<open>src/cluster/raft_state.hpp\<close>).  A shard process
  (\<^verbatim>\<open>src/cluster/shard_service_impl.hpp\<close>) answers the coordinators' calls, refusing those with an
  old epoch; it keeps external ids (\<^verbatim>\<open>src/cluster/id_map_store.hpp\<close>), metadata
  (\<^verbatim>\<open>src/include/storage/metadata_store.hpp\<close>) and an HNSW graph (\<^verbatim>\<open>src/include/index/hnsw.hpp\<close>) in
  files, the graph in a mapped one (\<^verbatim>\<open>src/src/storage/memory_map.cpp\<close>).  The same index runs behind
  a single-node HTTP server (\<^verbatim>\<open>src/src/server.cpp\<close>).  Coordinators export metrics
  (\<^verbatim>\<open>src/cluster/metrics_registry.hpp\<close>).

  \<^bold>\<open>The theories\<close>, in the order they build on each other:

  \<^item> \<open>Prelude\<close>: wrap-around of 32- and 64-bit counters, little-endian buffers,
    \<open>std::to_string\<close>, \<open>std::map\<close> as a sorted association list, operations that may be
    undefined (\<open>outcome\<close>), files whose writes may fail or stop short, and the locale
    \<open>quorum_system\<close>, interpreted by majorities of a finite set.
  \<^item> \<open>Routing\<close>: \<open>fnv1a_64\<close>, \<open>route_shard\<close>, \<open>well_mixed_hash\<close>, the class \<open>HashRing\<close>
    (\<open>build\<close>, \<open>route\<close> with its binary search as \<open>lower_bound\<close>).  The locale \<open>shard_router\<close>
    says what the coordinator expects of a router when shards come and go; the ring is its
    interpretation.
  \<^item> \<open>Raft_State\<close>: the class \<open>PersistentState\<close> with its 12-byte file.  The locale
    \<open>durable\<close> (a load after a save) is interpreted here and for the log.
  \<^item> \<open>Raft_Log\<close>: the class \<open>RaftLog\<close>: both file formats, the accessors in absolute indices,
    \<open>append\<close>, \<open>truncate_and_append\<close>, \<open>compact\<close>.  The locale \<open>replicated_log\<close> gives these
    operations by their effect on a partial function from indices to entries.
  \<^item> \<open>Raft_Node\<close>: the class \<open>RaftNode\<close>.  Every region the code runs under \<open>mutex_\<close> is one
    function: the three RPC handlers, \<open>propose\<close> (its start, one poll, the waiting loop over
    the states it observes), \<open>compact\<close>, \<open>status\<close>, the tick, the election (start, one answer,
    end), replication (the fan-out, the two critical sections of
    \<open>send_append_entries_to_peer\<close>, the answers).  \<open>node_event\<close> and \<open>exec\<close> collect them as
    the steps of one node.
  \<^item> \<open>Raft_Cluster\<close>: several such nodes, the thread that runs elections, and the calls in
    flight.  \<open>reachable\<close> is an inductive predicate over actions that are single critical
    sections, so calls are delayed, reordered, lost, and interleave with crashes and
    restarts from the files.  \<open>ballots\<close> is a history variable: the votes ever cast.
  \<^item> \<open>Raft_Matching\<close>, \<open>Raft_History\<close>, \<open>Raft_Steps\<close>, \<open>Raft_Safety\<close>: the log half of Raft's safety for the
    same cluster.  \<open>reachable_by\<close> is reachability through actions that satisfy a side condition:
    \<open>uncompacted\<close> (no log is compacted), or \<open>orderly\<close> (moreover no accepted \<open>AppendEntries\<close> cuts off
    entries that agree with it).  The invariants speak of history variables: the log of each
    term's leader, the acknowledgements and the polls.  \<open>Raft_Steps\<close> shows that each action keeps
    them.
  \<^item> \<open>Json\<close>: JSON values and the accessors of the vendored library that the code calls.
  \<^item> \<open>Coordinator\<close>: the global membership state, what the committed commands
    (\<open>add_shard\<close>, \<open>remove_shard\<close>, \<open>set_primary\<close>) and snapshots do to it, start-up from the
    configuration, the target selection for reads.
  \<^item> \<open>Coordinator_Api\<close>: quorum inserts and deletes, the migration of a key, the health
    check with failover, the merging of search results.
  \<^item> \<open>Coordinator_Http\<close>: the HTTP handlers, with every early return and caught exception.
  \<^item> \<open>Coordinator_Group\<close>: coordinators over the nodes of one Raft group.
  \<^item> \<open>Id_Map_Store\<close>: the class \<open>IdMapStore\<close> with its append-only file.  The locale
    \<open>id_allocator\<close> is the contract (dense, stable, reversible ids); the store is its
    interpretation.
  \<^item> \<open>Metadata_Store\<close>: the class \<open>MetadataHandler\<close> with its append-only file.
  \<^item> \<open>Float32\<close>: \<open>float\<close> as binary32 with correct rounding; rounding is monotone and exact on
    24-bit values.
  \<^item> \<open>Distance\<close>: the three AVX2 kernels, lane by lane, and the dispatcher.
  \<^item> \<open>Memory_Map\<close>: the class \<open>MMapHandler\<close> over a map from paths to files; each system call
    may fail.
  \<^item> \<open>Hnsw\<close>: the class \<open>HNSW\<close> with \<open>Node\<close> and \<open>FileHeader\<close>: the greedy descent, the beam search,
    linking, growth of the storage, insertion, search, deletion, the constructor on an
    existing file.  \<open>Hnsw_Graph\<close> has the graph invariant and what insertion keeps of it,
    \<open>Hnsw_Search\<close> what searches return, \<open>Hnsw_Frame\<close> what operations leave alone and that searches
    end.
  \<^item> \<open>Shard_Service\<close>: the class \<open>ShardServiceImpl\<close>: its seven handlers, its start, and its epoch
    check as the two atomic operations it is.
  \<^item> \<open>Cluster_Data\<close>: a quorum write against the services of the replicas, over a network that
    loses calls and answers.  The locale \<open>fenced_store\<close> is what the coordinators rely on; the
    service is its interpretation.
  \<^item> \<open>Shard_Restart\<close>: the life of a shard process (\<^verbatim>\<open>src/cluster/shard_node_main.cpp\<close>) through requests,
    stops and restarts.
  \<^item> \<open>Cluster_Service\<close>: the coordinator's insert and delete handlers and the migration of a key,
    with the shard services at the other end of the calls.  \<open>Cluster_Search\<close>: the same for
    searches.
  \<^item> \<open>Cluster_Config\<close>: reading and writing the configuration files; any number of saves at once.
  \<^item> \<open>Server\<close>: the four routes of the single-node server, its start and stop, and sessions.
  \<^item> \<open>Demo\<close>: the demo program \<^verbatim>\<open>src/src/main.cpp\<close>.
  \<^item> \<open>Decimal\<close>: \<open>double\<close> as binary64, and the text of a number in an output stream.
  \<^item> \<open>Metrics\<close>: the registry with counters, gauges and histograms (sums in binary64), the text it
    renders, \<open>GET /metrics\<close>, and concurrent observations as atomic steps.
  \<^item> \<open>Quantizer\<close>, \<open>Quantizer_Error\<close>: the class \<open>ScalarQuantizer\<close> and the error of its roundings.
  \<^item> \<open>Python_Bindings\<close>: the Python module \<^verbatim>\<open>src/src/python_bindings.cpp\<close>, its calls on one index and the
    storage it refers to, and the quantizer wrappers.
  \<^item> \<open>Spinlock\<close>: the class \<open>SpinLock\<close> with its threads.

  \<^bold>\<open>How code and model correspond.\<close>  A class is a record of its fields, a method a function
  from the record to its result and the new record.  A \<open>uint64_t\<close> that counts is a \<open>nat\<close> with
  \<open>mod 2 ^ 64\<close> at each arithmetic step, a hash is a \<open>64 word\<close>, a byte string is a \<open>string\<close>.
  Out-of-range vector accesses and \<open>map::at\<close> of a missing key are the value \<open>Undefined\<close>.  A
  file write takes its outcome as an argument: it succeeds, cannot open the file, or stops
  after some bytes.  Clock readings and random draws are arguments.  What the network
  answers, JSON text to value and back, and the conversion of a JSON number to \<open>float\<close> are
  functions given as arguments.  Reading outside the mapped file or an array of a node,
  converting a NaN to an integer and signed overflow are \<open>Undefined\<close> too; an exception a
  handler lets through is a value of its result.

  \<^bold>\<open>What is shown.\<close>
  \<^item> Raft, one node (\<open>Raft_Node\<close>): terms only grow and a vote is never changed in a term;
    votes go to up-to-date candidates only; the commit index moves only to entries of the
    current term on a majority; what each branch of \<open>AppendEntries\<close> does, and that a follower
    that accepts what a leader built holds the leader's suffix; the applied commands stay
    aligned with the log indices if no command is blank.
  \<^item> Raft, the group (\<open>Raft_Cluster\<close>): at most one leader per term in every reachable state;
    no action of a reachable state runs into an undefined operation (\<open>cluster_never_undefined\<close> and its
    instance on a leader that takes an answer), and the fields of the nodes stay within their
    C++ types.  The log half of Raft's safety does not hold of this code in
    general: \<open>committed_command_lost\<close> gives a run in which an \<open>AppendEntries\<close> that was overtaken
    truncates acknowledged entries, and a committed command is replaced.
  \<^item> Raft, the logs (\<open>Raft_Matching\<close>, \<open>Raft_Safety\<close>): without compaction, logs match; in orderly runs
    the applied commands of any two nodes at any two times are one a prefix of the other, and
    every later leader holds an entry that \<open>propose\<close> acknowledged.  So the coordinators agree
    on the topology (\<open>Coordinator_Group\<close>).
  \<^item> Files: what was written is read back exactly (state, log, id map), what a torn write
    leaves behind, and what the next start makes of it.
  \<^item> Topology (\<open>Coordinator\<close>): the points of the ring are always exactly those of the active
    shards, so a key routes to a shard with replicas; the replica list is append-only and epochs grow;
    installing a snapshot and replaying the rest shows the same topology as replaying
    everything, unless a removed shard id is added again, and in that case it does not.
  \<^item> Data path (\<open>Coordinator_Api\<close>, \<open>Coordinator_Http\<close>): when a quorum write succeeds, that
    two of them meet in a replica, which replica a failover promotes, that migration inserts
    before it deletes, that merged search results are the best distinct hits, and that
    the handlers answer on every path.
  \<^item> Index (\<open>Hnsw_Graph\<close>, \<open>Hnsw_Search\<close>): insertion keeps the graph closed and within its limits
    and changes no other vector; a search always returns, its results are live, distinct and
    in order, and exact on connected graphs with fewer than 100 nodes if no distance is NaN;
    deletion hides a vector until its id is inserted again; a closed and reopened index is
    the same.  The search loop ends after a bounded number of
    iterations.  Levels past the fourth, which the code can draw, make the new node the entry
    point of any index and break every search (\<open>deep_level_breaks_search\<close>); lemmas show what overwriting the entry point and
    ids without a lock do.
  \<^item> Shard (\<open>Shard_Service\<close>): it refines a map from external ids to vectors, in effect and in
    answers; a stale epoch is refused, but requests that load the epoch before one of them
    stores make it take their values in the order of the stores, so it can go back
    (\<open>epoch_race_goes_back\<close>).
  \<^item> Shard process (\<open>Shard_Restart\<close>): from an empty directory, through any inserts, deletes and
    restarts, the vectors it serves are exactly the accepted writes.  Metadata is what the
    specification \<open>spec_reply\<close> says: as written until a restart, after which the \<open>k\<close>-th local id
    gets the \<open>k\<close>-th non-empty metadata of the file.  The fencing epoch starts from 0 after a
    restart, which the comment in \<^verbatim>\<open>src/cluster/shard_service_impl.hpp\<close> accepts.
  \<^item> Across the cluster (\<open>Cluster_Service\<close>, this theory): a vector posted with answer 201 is stored
    at the primary and a majority of the routed shard; a migrated key is never lost; a
    search over small connected indexes gives the exact nearest keys of the cluster; a write
    that reaches a majority is acknowledged; a coordinator with old epochs can no longer
    write once one with newer epochs has, until a replica restarts (and as long as each
    replica handles requests one after another).
  \<^item> Numbers: the kernels are exact on small integers and symmetric; after training on finite
    values up to \<open>2 ^ 126\<close> the quantizer's codes are in range and, in a dimension whose range
    exceeds \<open>1e-9f\<close>, in order and give each component back to within a 253rd of the range (in
    a narrower one all codes are -127); its integer distance is exact up to 33025 components.
  \<^item> Around it: readers of the configuration never see half a save; the server answers every
    request of a session and each posted id has the vector posted last; the demo program runs to its end and prints what it inserted; from
    Python a closed storage makes the index unusable until it is opened again; a histogram
    says the truth about its observations, also under concurrency; the spinlock excludes.
  \<^item> Routing: adding a shard moves keys to the new shard only, removing one moves only its
    own keys.

  \<^bold>\<open>Bounds.\<close>  Every function is total and terminates; no fuel is used.  The actions of
  \<open>Raft_Cluster\<close> that count up a term or an index are enabled only while the result is below
  \<open>2 ^ 64\<close>, and \<open>event_ok\<close> asks the same of one node: reaching that bound takes that many
  elections or entries.  Node ids are 32-bit and different from \<open>- 1\<close>, which the code uses
  for \<open>no vote\<close> (\<open>config_ok\<close>).  File lengths are below \<open>2 ^ 32\<close> per record, the width of
  their length fields.

  Insertions into the index are shown for levels below \<open>MAX_LAYERS = 4\<close> and ids within one
  growth of the storage (\<open>insert_ok\<close>), because beyond them the code is undefined; sessions of the
  server for ids below 99296, the nodes in its first 100 MiB.  Deleting an id that was never
  written counts down the elements, below zero too, and the bit vector of a search is
  sized by that count: \<open>count_ok\<close> says that it can still be allocated, a session of the server may have
  2000 such deletions, and a shard (\<open>insert_fits\<close>) counts below \<open>2 ^ 32\<close> elements.  The
  exception of \<open>vector<bool>\<close> beyond its limit is \<open>Undefined\<close> in the model.

  \<^bold>\<open>Not modelled.\<close>  The transports themselves (gRPC, the HTTP library) and \<open>main\<close>'s argument
  handling; logging; the text side of JSON, which is vendored code; \<open>fsync\<close>, which is taken as part
  of a successful write; the Windows branch of the mapped file, which has the same effect;
  fused multiply-add, which a compiler may use in place of a product and a sum; the random
  generator, whose draws are arguments; pybind11 and its argument conversion, the text of
  \<open>__repr__\<close>; the timings the demo prints; benchmarks and tests.  Within a coordinator the HTTP threads, the health check and the apply
  loop share state under a lock, and the index may be called from several threads; each
  handler and each call on the index is modelled as running without interleaving.  The
  proofs on matching logs leave out runs that compact a log; the rest of \<open>Raft_Cluster\<close> does not.
\<close>

section \<open>Writes across the cluster\<close>

text \<open>
  C19: progress.  If the replicas are at most at the epochs the coordinator knows, and the calls
  to the primary and to a majority are delivered and answered, the write succeeds.
\<close>

theorem write_succeeds:
  assumes "\<forall>i < length replicas. service_ok (services g ! i) \<and> insert_fits (draws_of g i) key (services g ! i) \<and>
      current_epoch (services g ! i) \<le> epoch (replicas ! i)"
    and "length vec = VECTOR_DIM" and "primary_idx replicas = Some p" and "delivery_of g p = Delivered"
    and "majority_of {..<length replicas} {i. i < length replicas \<and> delivery_of g i = Delivered}"
  shows "qr_ok (fst (group_write g replicas key vec md))"
  by (rule delivered_write_ok [OF assms])

theorem write_succeeds_witness:
  "qr_ok (fst (group_write sample_group (sample_clients 4) ''a'' (sample_vec 7) ''''))"
proof (rule write_succeeds [where p = 0])
  show "\<forall>i < length (sample_clients 4). service_ok (services sample_group ! i) \<and>
      insert_fits (draws_of sample_group i) ''a'' (services sample_group ! i) \<and>
      current_epoch (services sample_group ! i) \<le> epoch (sample_clients 4 ! i)"
    using sample_group_fields(1) by (simp add: sample_clients_fields)
qed (use sample_group_fields(2) in \<open>simp_all add: sample_clients_fields sample_vec_def sample_group_def\<close>)

text \<open>
  C7: fencing.  Once a coordinator with newer epochs has had a write acknowledged, a coordinator
  that still has older ones cannot: any majority that would acknowledge it meets the first,
  and there the epoch is refused.  In between each replica may have carried out any inserts and
  deletes, one after another, but must not have restarted, which takes its epoch back to 0.
\<close>

theorem fenced_coordinator_cannot_write:
  assumes "group_write g current key vec md = (r, ss)" and "qr_ok r"
    and "length old = length current" and "\<forall>i < length current. epoch (old ! i) < epoch (current ! i)"
    and "\<forall>i < length current. \<exists>data_dir ops. ShardRestart \<notin> set ops \<and> shard_life data_dir ops (ss ! i) = Some (services g' ! i)"
  shows "\<not> qr_ok (fst (group_write g' old key' vec' md'))"
proof
  assume "qr_ok (fst (group_write g' old key' vec' md'))"
  then have q': "majority_of {..<length current} (acked g' old key' vec' md')" using write_majority(1) assms(3) by metis
  have "qr_ok (fst (group_write g current key vec md))" and ss: "ss = group_after g current key vec md"
    using assms(1,2) by (auto simp: group_write_def)
  then have q: "majority_of {..<length current} (acked g current key vec md)" by (metis write_majority(1))
  have up: "current_epoch (ss ! i) \<le> current_epoch (services g' ! i)" if "i < length current" for i
    using assms(5) that shard_life_epoch by blast
  have "acked g current key vec md \<inter> acked g' old key' vec' md' = {}"
    by (rule fs.fenced [where q = "\<lambda>i. (draws_of g i, delivery_of g i, request_for key vec md (current ! i))" and s = "\<lambda>i. services g ! i"
          and s' = "\<lambda>i. ss ! i" and t = "\<lambda>i. services g' ! i" and t' = "\<lambda>i. group_after g' old key' vec' md' ! i"
          and p = "\<lambda>i. (draws_of g' i, delivery_of g' i, request_for key' vec' md' (old ! i))"])
       (use acked_replica [of _ g current key vec md] acked_replica [of _ g' old key' vec' md'] assms(4) up
         in \<open>auto simp: ss acked_def request_for_def\<close>)
  with maj.quorums_meet [OF q q'] show False by simp
qed

theorem fenced_coordinator_cannot_write_witness:
  "\<exists>r ss. group_write sample_group (sample_clients 1) ''a'' (sample_vec 2) ''m'' = (r, ss) \<and> qr_ok r \<and>
     \<not> qr_ok (fst (group_write (sample_group\<lparr>services := ss\<rparr>) (sample_clients 0) ''b'' (sample_vec 3) ''''))"
proof -
  let ?w = "group_write sample_group (sample_clients 1) ''a'' (sample_vec 2) ''m''"
  have "\<not> qr_ok (fst (group_write (sample_group\<lparr>services := snd ?w\<rparr>) (sample_clients 0) ''b'' (sample_vec 3) ''''))"
  proof (rule fenced_coordinator_cannot_write [OF surjective_pairing sample_write_ok])
    show "\<forall>i < length (sample_clients 1). \<exists>data_dir ops. ShardRestart \<notin> set ops \<and>
        shard_life data_dir ops (snd ?w ! i) = Some (services (sample_group\<lparr>services := snd ?w\<rparr>) ! i)"
      by (intro allI impI exI [of _ "''data''"] exI [of _ "[]"]) simp
  qed (simp_all add: sample_clients_fields)
  with sample_write_ok show ?thesis by (metis surjective_pairing)
qed

end
